(* ===== verification/Smol_Prelude.thy ===== *)
theory Smol_Prelude
  imports Main "HOL-Library.Word" "HOL-Library.AList" "HOL-Library.Multiset"
begin

text \<open>
  Shared vocabulary of the development: the machine integers of the Rust source,
  the result type of its fallible operations (\<open>DbError\<close> of \<open>src/error.rs\<close>, panics and
  calls that never return), sequencing with early return (the \<open>?\<close> operator), checked
  indexing, and generic lemmas on lists and association lists that the components use.

  \<^item> \<open>usize\<close> is \<open>nat\<close>: it counts bytes and elements of values held in memory, so no sum
    of the modelled code can pass \<open>2 ^ 64\<close>. File offsets and keys are \<open>u64\<close> words.
  \<^item> A \<open>HashMap\<close> is an association list with distinct keys. The order of the list stands for
    the iteration order that Rust leaves unspecified; every theorem quantifies over it.
\<close>

section \<open>Machine integers\<close>

type_synonym u8 = "8 word"
type_synonym u16 = "16 word"
type_synonym u32 = "32 word"
type_synonym u64 = "64 word"
type_synonym usize = nat

text \<open>The newtype \<open>PageId(u64)\<close>: a byte offset in the database file.\<close>

type_synonym page_id = u64

lemma unat_word_bounds:
  "unat (a :: u8) < 256" "unat (b :: u16) < 65536" "unat (c :: u32) < 4294967296"
  "unat (d :: u64) < 18446744073709551616"
  using unsigned_less [of a] unsigned_less [of b] unsigned_less [of c] unsigned_less [of d]
  by simp_all

lemma unat_word_of_nat_u16: "n < 65536 \<Longrightarrow> unat (word_of_nat n :: u16) = n"
  by (simp add: unat_of_nat)

lemma unat_word_of_nat_u32: "n < 4294967296 \<Longrightarrow> unat (word_of_nat n :: u32) = n"
  by (simp add: unat_of_nat)

named_theorems size_consts \<comment> \<open>the layout constants of the page and log formats\<close>
named_theorems run_simps \<comment> \<open>evaluation rules of sequencing, indexing and cursors\<close>

section \<open>Errors, panics and results\<close>

text \<open>
  The message of \<open>DbError::CorruptPage\<close> is a formatted string; each message of the source
  is a constructor here, with the values that it prints.
\<close>

datatype corruption =
    UnknownNodeType u8
  | EmptyRightSibling
  | InsertOnInternal
  | ApplyOnInternal
  | InvalidWalOp u8
  | WalBufferTooSmall usize
  | WalPayloadTooSmall usize usize
  | TornWrite usize

datatype io_kind = UnexpectedEof | OtherIo

datatype db_error =
    PageNotFound u64
  | PageFull
  | TupleTooLarge usize
  | Io io_kind
  | CorruptPage corruption
  | LruEviction
  | DuplicateKey u64
  | KeyNotFound u64

datatype panic =
    OutOfBounds
  | ArithmeticOverflow
  | Unreachable
  | CapacityExceeded
  | ReplacerOutOfSync
  | AssertionFailed
  | UnwrapOnErr

text \<open>
  \<open>AssertionFailed\<close> and \<open>UnwrapOnErr\<close> are panics of the unit tests only (\<open>assert!\<close>,
  \<open>panic!\<close>; \<open>unwrap\<close> and \<open>expect\<close> on an error).

  \<open>Ok\<close> and \<open>Err\<close> are Rust's \<open>Result\<close>; \<open>Panic\<close> is an unwinding panic (an \<open>assert!\<close>, an index
  out of range, \<open>unreachable!\<close>); \<open>Hang\<close> is a call that never returns (a lock taken twice by
  the same thread, a walk around a cyclic list).
\<close>

datatype 'a result = Ok 'a | Err db_error | Panic panic | Hang

primrec and_then :: "'a result \<Rightarrow> ('a \<Rightarrow> 'b result) \<Rightarrow> 'b result" where
  "and_then (Ok x) f = f x"
| "and_then (Err e) f = Err e"
| "and_then (Panic p) f = Panic p"
| "and_then Hang f = Hang"

text \<open>
  A method on \<open>&mut self\<close> takes the state and returns its result together with the state it
  leaves behind, on the error paths too: Rust does not undo the writes made before a \<open>?\<close>.
\<close>

fun then_do :: "'a result \<times> 's \<Rightarrow> ('a \<Rightarrow> 's \<Rightarrow> 'b result \<times> 's) \<Rightarrow> 'b result \<times> 's" where
  "then_do (Ok x, s) f = f x s"
| "then_do (Err e, s) f = (Err e, s)"
| "then_do (Panic p, s) f = (Panic p, s)"
| "then_do (Hang, s) f = (Hang, s)"

text \<open>A method of one half of a pair of objects, run on the pair.\<close>

definition on_fst :: "('s \<Rightarrow> 'a result \<times> 's) \<Rightarrow> 's \<times> 't \<Rightarrow> 'a result \<times> ('s \<times> 't)" where
  "on_fst f st = (case st of (s, t) \<Rightarrow> case f s of (r, s') \<Rightarrow> (r, (s', t)))"

definition on_snd :: "('t \<Rightarrow> 'a result \<times> 't) \<Rightarrow> 's \<times> 't \<Rightarrow> 'a result \<times> ('s \<times> 't)" where
  "on_snd f st = (case st of (s, t) \<Rightarrow> case f t of (r, t') \<Rightarrow> (r, (s, t')))"

declare and_then.simps [run_simps] then_do.simps [run_simps]

lemma and_then_cong [fundef_cong]:
  "r = r' \<Longrightarrow> (\<And>x. r' = Ok x \<Longrightarrow> f x = f' x) \<Longrightarrow> and_then r f = and_then r' f'"
  by (cases r') auto

lemma then_do_cong [fundef_cong]:
  "r = r' \<Longrightarrow> (\<And>x s. r' = (Ok x, s) \<Longrightarrow> f x s = f' x s) \<Longrightarrow> then_do r f = then_do r' f'"
  by (cases r'; cases "fst r'") auto

lemma and_then_eq_Ok: "and_then r f = Ok y \<longleftrightarrow> (\<exists>x. r = Ok x \<and> f x = Ok y)"
  by (cases r) auto

lemma then_do_eq_Ok:
  "then_do r f = (Ok y, t) \<longleftrightarrow> (\<exists>x s. r = (Ok x, s) \<and> f x s = (Ok y, t))"
  by (cases r; cases "fst r") auto

section \<open>Checked indexing\<close>

definition index :: "'a list \<Rightarrow> usize \<Rightarrow> 'a result" where
  "index xs i = (if i < length xs then Ok (xs ! i) else Panic OutOfBounds)"

definition update_index :: "'a list \<Rightarrow> usize \<Rightarrow> 'a \<Rightarrow> 'a list result" where
  "update_index xs i x = (if i < length xs then Ok (xs[i := x]) else Panic OutOfBounds)"

lemma index_in_range [run_simps]: "i < length xs \<Longrightarrow> index xs i = Ok (xs ! i)"
  by (simp add: index_def)

lemma update_index_in_range [run_simps]:
  "i < length xs \<Longrightarrow> update_index xs i x = Ok (xs[i := x])"
  by (simp add: update_index_def)

text \<open>An iterator \<open>map\<close> whose closure may panic, collected or summed in order.\<close>

fun map_result :: "('a \<Rightarrow> 'b result) \<Rightarrow> 'a list \<Rightarrow> 'b list result" where
  "map_result f [] = Ok []"
| "map_result f (x # xs) =
     and_then (f x) (\<lambda>y. and_then (map_result f xs) (\<lambda>ys. Ok (y # ys)))"

lemma map_result_all_Ok:
  "(\<And>x. x \<in> set xs \<Longrightarrow> f x = Ok (g x)) \<Longrightarrow> map_result f xs = Ok (map g xs)"
  by (induction xs) auto

section \<open>Generic list lemmas\<close>

lemma option_eqI: "(\<And>d. a = Some d \<longleftrightarrow> b = Some d) \<Longrightarrow> a = b"
  by (metis not_None_eq)

lemma sum_list_ge_length:
  "(\<And>x. x \<in> set xs \<Longrightarrow> c \<le> f x) \<Longrightarrow> c * length xs \<le> sum_list (map f xs)" for c :: nat
proof (induction xs)
  case (Cons x xs)
  then have "c * length xs \<le> sum_list (map f xs)" and "c \<le> f x" by auto
  then show ?case by simp
qed simp

lemma sum_list_mset_eq: "mset xs = mset ys \<Longrightarrow> sum_list (map f xs) = sum_list (map f ys)"
  for f :: "'a \<Rightarrow> nat"
  by (metis mset_map sum_mset_sum_list)

lemma sum_list_filter_split:
  "sum_list (map f (filter P xs)) + sum_list (map f (filter (\<lambda>x. \<not> P x) xs)) = sum_list (map f xs)"
  for f :: "'a \<Rightarrow> nat"
  by (induction xs) auto

lemma sum_list_filter_le: "sum_list (map f (filter P xs)) \<le> sum_list (map f xs)"
  for f :: "'a \<Rightarrow> nat"
  using sum_list_filter_split [of f P xs] by linarith

text \<open>Slot arrays that are a permutation of the positions of a vector of length \<open>n\<close>.\<close>

lemma slot_permD:
  fixes ss :: "'a::len word list"
  assumes perm: "mset (map unat ss) = mset [0..<n]"
  shows "\<And>s. s \<in> set ss \<Longrightarrow> unat s < n" and "distinct ss" and "length ss = n"
    and "mset (map (\<lambda>s. xs ! unat s) ss) = mset (map ((!) xs) [0..<n])"
proof -
  have set: "unat ` set ss = {0..<n}"
    using arg_cong [OF perm, of set_mset] by simp
  show "unat s < n" if "s \<in> set ss" for s using set that by force
  have "distinct (map unat ss)" using mset_eq_imp_distinct_iff [OF perm] by simp
  then show "distinct ss" by (simp add: distinct_map)
  show "length ss = n" using mset_eq_length [OF perm] by simp
  have "mset (map (\<lambda>s. xs ! unat s) ss) = image_mset ((!) xs) (mset (map unat ss))"
    by (simp add: comp_def multiset.map_comp)
  then show "mset (map (\<lambda>s. xs ! unat s) ss) = mset (map ((!) xs) [0..<n])"
    unfolding perm by simp
qed

lemma sorted_wrt_mapI:
  "sorted_wrt P xs \<Longrightarrow> (\<And>x y. P x y \<Longrightarrow> Q x y) \<Longrightarrow> sorted_wrt Q xs"
  by (rule sorted_wrt_mono_rel) auto

lemma alist_update_new: "k \<notin> fst ` set al \<Longrightarrow> AList.update k v al = al @ [(k, v)]"
  by (induction al) auto

lemma distinct_subset_length:
  "distinct xs \<Longrightarrow> set xs \<subseteq> set ys \<Longrightarrow> length xs \<le> length ys"
  by (metis List.finite_set card_length card_mono distinct_card le_trans)

end
