(* ===== verification/Os_File.thy ===== *)
theory Os_File
  imports Smol_Prelude
begin

text \<open>
  The operations of \<open>std::fs::File\<close> that the disk manager and the log use, over a file that
  is a list of bytes. \<open>durable\<close> is what the last completed \<open>sync_all\<close> has put on the device:
  a crash may fall back to it. The device can fail: \<open>io_plan\<close> is the outcome of the calls to
  come (\<open>None\<close>: it succeeds; \<open>Some n\<close>: it fails, and a write has put down its first \<open>n\<close>
  bytes). Past the end of the plan calls succeed. Theorems quantify over the plan.
\<close>

record os_file =
  content :: "u8 list"
  durable :: "u8 list"
  io_plan :: "nat option list"

definition io_step :: "os_file \<Rightarrow> nat option \<times> os_file" where
  "io_step f = (case io_plan f of [] \<Rightarrow> (None, f) | p # ps \<Rightarrow> (p, f\<lparr>io_plan := ps\<rparr>))"

text \<open>A call that changes nothing but can fail (\<open>open\<close>, \<open>metadata\<close>, \<open>seek\<close>).\<close>

definition io_call :: "os_file \<Rightarrow> unit result \<times> os_file" where
  "io_call f = (case io_step f of (None, f) \<Rightarrow> (Ok (), f) | (Some _, f) \<Rightarrow> (Err (Io OtherIo), f))"

text \<open>Bytes put at an offset; a gap behind the end of the file is filled with zeroes.\<close>

definition pwrite :: "u8 list \<Rightarrow> nat \<Rightarrow> u8 list \<Rightarrow> u8 list" where
  "pwrite c off bs =
     (if bs = [] then c
      else take off c @ replicate (off - length c) 0 @ bs @ drop (off + length bs) c)"

text \<open>File offsets are signed 64-bit in the operating system.\<close>

definition offset_ok :: "nat \<Rightarrow> usize \<Rightarrow> bool" where
  "offset_ok off n \<longleftrightarrow> off + n < 2 ^ 63"

definition write_all_at :: "u8 list \<Rightarrow> u64 \<Rightarrow> os_file \<Rightarrow> unit result \<times> os_file" where
  "write_all_at bs off f =
     (if \<not> offset_ok (unat off) (length bs) then (Err (Io OtherIo), f)
      else case io_step f of
        (None, f) \<Rightarrow> (Ok (), f\<lparr>content := pwrite (content f) (unat off) bs\<rparr>)
      | (Some n, f) \<Rightarrow> (Err (Io OtherIo), f\<lparr>content := pwrite (content f) (unat off) (take n bs)\<rparr>))"

definition read_exact_at :: "usize \<Rightarrow> u64 \<Rightarrow> os_file \<Rightarrow> u8 list result \<times> os_file" where
  "read_exact_at n off f =
     (if \<not> offset_ok (unat off) n then (Err (Io OtherIo), f)
      else case io_step f of
        (Some _, f) \<Rightarrow> (Err (Io OtherIo), f)
      | (None, f) \<Rightarrow>
          (if unat off + n \<le> length (content f) then Ok (take n (drop (unat off) (content f)))
           else Err (Io UnexpectedEof), f))"

text \<open>\<open>write_all\<close> on a file opened in append mode.\<close>

definition append_all :: "u8 list \<Rightarrow> os_file \<Rightarrow> unit result \<times> os_file" where
  "append_all bs f = (case io_step f of
     (None, f) \<Rightarrow> (Ok (), f\<lparr>content := content f @ bs\<rparr>)
   | (Some n, f) \<Rightarrow> (Err (Io OtherIo), f\<lparr>content := content f @ take n bs\<rparr>))"

definition set_len_0 :: "os_file \<Rightarrow> unit result \<times> os_file" where
  "set_len_0 f = (case io_step f of
     (None, f) \<Rightarrow> (Ok (), f\<lparr>content := []\<rparr>)
   | (Some _, f) \<Rightarrow> (Err (Io OtherIo), f))"

definition sync_all :: "os_file \<Rightarrow> unit result \<times> os_file" where
  "sync_all f = (case io_step f of
     (None, f) \<Rightarrow> (Ok (), f\<lparr>durable := content f\<rparr>)
   | (Some _, f) \<Rightarrow> (Err (Io OtherIo), f))"

definition new_file :: os_file where
  "new_file = \<lparr>content = [], durable = [], io_plan = []\<rparr>"

section \<open>Lemmas\<close>

lemma io_step_cases:
  obtains "io_step f = (None, f)" "io_plan f = []"
  | p ps where "io_step f = (p, f\<lparr>io_plan := ps\<rparr>)" "io_plan f = p # ps"
  by (cases "io_plan f") (auto simp: io_step_def)

lemma io_step_frame:
  "io_step f = (p, f') \<Longrightarrow> content f' = content f \<and> durable f' = durable f"
  by (auto simp: io_step_def split: list.splits)

lemma io_step_reliable [simp]: "io_plan f = [] \<Longrightarrow> io_step f = (None, f)"
  by (simp add: io_step_def)

lemma io_call_frame: "io_call f = (r, f') \<Longrightarrow> content f' = content f \<and> durable f' = durable f"
  by (auto simp: io_call_def split: prod.splits option.splits dest: io_step_frame)

lemma io_call_reliable [simp]: "io_plan f = [] \<Longrightarrow> io_call f = (Ok (), f)"
  by (simp add: io_call_def)

lemma sync_all_cases:
  obtains f' where "sync_all f = (Ok (), f')" "content f' = content f" "durable f' = content f"
  | f' where "sync_all f = (Err (Io OtherIo), f')" "content f' = content f" "durable f' = durable f"
proof (cases "io_plan f")
  case Nil
  show thesis by (rule that(1) [of "f\<lparr>durable := content f\<rparr>"]) (simp_all add: sync_all_def io_step_def Nil)
next
  case (Cons p ps)
  show thesis
  proof (cases p)
    case None
    show thesis by (rule that(1) [of "f\<lparr>io_plan := ps, durable := content f\<rparr>"])
        (simp_all add: sync_all_def io_step_def Cons None)
  next
    case (Some n)
    show thesis by (rule that(2) [of "f\<lparr>io_plan := ps\<rparr>"])
        (simp_all add: sync_all_def io_step_def Cons Some)
  qed
qed

lemma sync_all_frame:
  "sync_all f = (r, f') \<Longrightarrow> content f' = content f \<and> durable f' \<in> {durable f, content f} \<and>
   (r = Ok () \<longrightarrow> durable f' = content f)"
  by (cases rule: sync_all_cases [of f]) auto

lemma length_pwrite: "bs \<noteq> [] \<Longrightarrow> length (pwrite c off bs) = max (length c) (off + length bs)"
  by (auto simp: pwrite_def)

lemma length_pwrite_ge: "length c \<le> length (pwrite c off bs)"
  by (auto simp: pwrite_def)

lemma pwrite_nth_other:
  assumes "i < length c" "i < off \<or> off + length bs \<le> i"
  shows "pwrite c off bs ! i = c ! i"
  using assms by (auto simp: pwrite_def nth_append min_def)

lemma pwrite_same: "take (length bs) (drop off (pwrite c off bs)) = bs"
  by (auto simp: pwrite_def min_def)

lemma pwrite_other:
  assumes "p + n \<le> length c" "p + n \<le> off \<or> off + length bs \<le> p"
  shows "take n (drop p (pwrite c off bs)) = take n (drop p c)"
proof (rule nth_equalityI)
  have "p + n \<le> length (pwrite c off bs)" using assms(1) length_pwrite_ge [of c off bs] by simp
  then show "length (take n (drop p (pwrite c off bs))) = length (take n (drop p c))"
    using assms(1) by simp
next
  fix i assume "i < length (take n (drop p (pwrite c off bs)))"
  then have i: "i < n" by simp
  have "p + n \<le> length (pwrite c off bs)" using assms(1) length_pwrite_ge [of c off bs] by simp
  with i show "take n (drop p (pwrite c off bs)) ! i = take n (drop p c) ! i"
    using assms pwrite_nth_other [of "p + i" c off bs] by auto
qed

end
