(* ===== verification/Slice_Search.thy ===== *)
theory Slice_Search
  imports Smol_Prelude
begin

text \<open>
  The two searches of the standard library that the nodes call on their slot arrays,
  \<open>slice::binary_search_by_key\<close> and \<open>slice::partition_point\<close>: a halving loop over
  \<open>base\<close> and \<open>size\<close>, and the closing comparison at \<open>base\<close>. The comparison closure indexes
  the record vector of the node, so it is fallible. The lemmas give their documented
  contract on sorted slices.
\<close>

section \<open>Orderings\<close>

datatype ordering = Less | Equal | Greater

primrec rank :: "ordering \<Rightarrow> nat" where
  "rank Less = 0"
| "rank Equal = 1"
| "rank Greater = 2"

instantiation ordering :: linorder
begin

definition less_eq_ordering :: "ordering \<Rightarrow> ordering \<Rightarrow> bool" where
  "a \<le> b \<longleftrightarrow> rank a \<le> rank b"

definition less_ordering :: "ordering \<Rightarrow> ordering \<Rightarrow> bool" where
  "a < b \<longleftrightarrow> rank a < rank b"

instance
proof
  fix a b c :: ordering
  show "(a < b) = (a \<le> b \<and> \<not> b \<le> a)"
    by (auto simp: less_eq_ordering_def less_ordering_def)
  show "a \<le> a" by (simp add: less_eq_ordering_def)
  show "a \<le> b \<Longrightarrow> b \<le> c \<Longrightarrow> a \<le> c" by (simp add: less_eq_ordering_def)
  show "a \<le> b \<Longrightarrow> b \<le> a \<Longrightarrow> a = b"
    by (cases a; cases b) (simp_all add: less_eq_ordering_def)
  show "a \<le> b \<or> b \<le> a" by (auto simp: less_eq_ordering_def)
qed

end

definition compare :: "'k::linorder \<Rightarrow> 'k \<Rightarrow> ordering" where
  "compare a b = (if a < b then Less else if a = b then Equal else Greater)"

lemma ordering_le_simps [simp]:
  "Less \<le> o1" "o1 \<le> Greater" "o1 \<le> Less \<longleftrightarrow> o1 = Less" "Greater \<le> o1 \<longleftrightarrow> o1 = Greater"
  by (cases o1; simp add: less_eq_ordering_def)+

lemma compare_simps [simp]:
  "compare a b = Less \<longleftrightarrow> a < b"
  "compare a b = Equal \<longleftrightarrow> a = b"
  "compare a b = Greater \<longleftrightarrow> b < a"
  by (auto simp: compare_def)

lemma compare_mono: "a \<le> b \<Longrightarrow> compare a k \<le> compare b k"
  by (auto simp: compare_def less_eq_ordering_def)

section \<open>The searches\<close>

function bs_loop :: "('a \<Rightarrow> ordering result) \<Rightarrow> 'a list \<Rightarrow> usize \<Rightarrow> usize \<Rightarrow> usize result" where
  "bs_loop cmp xs base sz =
     (if sz \<le> 1 then Ok base
      else let half = sz div 2; mid = base + half
           in and_then (cmp (xs ! mid)) (\<lambda>c.
                bs_loop cmp xs (if c = Greater then base else mid) (sz - half)))"
  by pat_completeness auto
termination
  by (relation "measure (\<lambda>(cmp, xs, base, sz). sz)") auto

declare bs_loop.simps [simp del]

text \<open>The result of a search, Rust's \<open>Result<usize, usize>\<close>.\<close>

datatype search = Found usize | InsertAt usize

definition binary_search_by :: "('a \<Rightarrow> ordering result) \<Rightarrow> 'a list \<Rightarrow> search result" where
  "binary_search_by cmp xs =
     (if xs = [] then Ok (InsertAt 0)
      else and_then (bs_loop cmp xs 0 (length xs)) (\<lambda>base.
             and_then (cmp (xs ! base)) (\<lambda>c.
               Ok (if c = Equal then Found base
                   else InsertAt (base + (if c = Less then 1 else 0))))))"

definition binary_search_by_key ::
    "'k::linorder \<Rightarrow> ('a \<Rightarrow> 'k result) \<Rightarrow> 'a list \<Rightarrow> search result" where
  "binary_search_by_key b f xs =
     binary_search_by (\<lambda>x. and_then (f x) (\<lambda>a. Ok (compare a b))) xs"

definition partition_point :: "('a \<Rightarrow> bool result) \<Rightarrow> 'a list \<Rightarrow> usize result" where
  "partition_point pred xs =
     and_then (binary_search_by (\<lambda>x. and_then (pred x) (\<lambda>p. Ok (if p then Less else Greater))) xs)
       (\<lambda>r. Ok (case r of Found i \<Rightarrow> i | InsertAt i \<Rightarrow> i))"

section \<open>Their contract on sorted slices\<close>

text \<open>
  Loop invariant: the range lies inside the slice, an element before the last one kept is not
  \<open>Greater\<close>, and everything from \<open>base + size\<close> on is \<open>Greater\<close>.
\<close>

lemma bs_loop_spec:
  assumes cmp: "\<And>x. x \<in> set xs \<Longrightarrow> cmp x = Ok (c x)"
    and mono: "sorted (map c xs)"
    and "0 < sz" and "base + sz \<le> length xs"
    and "0 < base \<Longrightarrow> c (xs ! base) \<noteq> Greater"
    and "\<And>j. base + sz \<le> j \<Longrightarrow> j < length xs \<Longrightarrow> c (xs ! j) = Greater"
  shows "\<exists>b. bs_loop cmp xs base sz = Ok b \<and> b < length xs \<and>
           (0 < b \<longrightarrow> c (xs ! b) \<noteq> Greater) \<and>
           (\<forall>j. b < j \<longrightarrow> j < length xs \<longrightarrow> c (xs ! j) = Greater)"
  using assms(3-6)
proof (induction sz arbitrary: base rule: less_induct)
  case (less sz)
  show ?case
  proof (cases "sz \<le> 1")
    case True
    with less.prems have "sz = 1" by simp
    with less.prems show ?thesis by (simp add: bs_loop.simps [of cmp xs base])
  next
    case False
    define half where "half = sz div 2"
    define mid where "mid = base + half"
    have half: "0 < half" "half < sz" using False by (auto simp: half_def)
    have mid: "mid < length xs" using less.prems half by (simp add: mid_def)
    define base' where "base' = (if c (xs ! mid) = Greater then base else mid)"
    have unfold: "bs_loop cmp xs base sz = bs_loop cmp xs base' (sz - half)"
      using False cmp [of "xs ! mid"] mid
      by (subst bs_loop.simps) (simp add: base'_def mid_def half_def Let_def)
    have nxt: "c (xs ! j) = Greater" if "base' + (sz - half) \<le> j" "j < length xs" for j
    proof (cases "c (xs ! mid) = Greater")
      case True
      with that half have "mid \<le> j" by (simp add: base'_def mid_def half_def)
      with mono that mid have "c (xs ! mid) \<le> c (xs ! j)"
        by (simp add: sorted_iff_nth_mono)
      with True show ?thesis by simp
    next
      case False
      with that half have "base + sz \<le> j" by (simp add: base'_def mid_def)
      then show ?thesis using that less.prems(4) by blast
    qed
    have pos: "0 < sz - half" and smaller: "sz - half < sz" using half by auto
    have range: "base' + (sz - half) \<le> length xs"
      unfolding base'_def mid_def using less.prems(2) half by (cases "c (xs ! (base + half)) = Greater") simp_all
    have low: "c (xs ! base') \<noteq> Greater" if "0 < base'"
      using that less.prems(3) by (simp add: base'_def split: if_splits)
    show ?thesis
      unfolding unfold using smaller pos range low nxt by (rule less.IH)
  qed
qed

lemma binary_search_by_spec:
  assumes cmp: "\<And>x. x \<in> set xs \<Longrightarrow> cmp x = Ok (c x)"
    and mono: "sorted (map c xs)"
  obtains (found) i where "binary_search_by cmp xs = Ok (Found i)"
      "i < length xs" "c (xs ! i) = Equal"
  | (absent) i where "binary_search_by cmp xs = Ok (InsertAt i)" "i \<le> length xs"
      "\<And>j. j < i \<Longrightarrow> c (xs ! j) = Less"
      "\<And>j. i \<le> j \<Longrightarrow> j < length xs \<Longrightarrow> c (xs ! j) = Greater"
proof (cases "xs = []")
  case True
  then show ?thesis by (intro absent [of 0]) (auto simp: binary_search_by_def)
next
  case False
  then obtain b where b: "bs_loop cmp xs 0 (length xs) = Ok b" "b < length xs"
      "0 < b \<Longrightarrow> c (xs ! b) \<noteq> Greater"
      "\<And>j. b < j \<Longrightarrow> j < length xs \<Longrightarrow> c (xs ! j) = Greater"
    using bs_loop_spec [OF cmp mono, of "length xs" 0] by auto
  have step: "binary_search_by cmp xs =
      Ok (if c (xs ! b) = Equal then Found b else InsertAt (b + (if c (xs ! b) = Less then 1 else 0)))"
    using False b cmp [of "xs ! b"] by (simp add: binary_search_by_def)
  have le: "c (xs ! j) \<le> c (xs ! b)" if "j \<le> b" for j
    using mono that b by (simp add: sorted_iff_nth_mono)
  show ?thesis
  proof (cases "c (xs ! b)")
    case Less
    have "c (xs ! j) = Less" if "j < b + 1" for j
      using le [of j] that Less by simp
    with b step Less show ?thesis by (intro absent [of "b + 1"]) auto
  next
    case Equal
    with b step show ?thesis by (intro found [of b]) auto
  next
    case Greater
    with b have "b = 0" by auto
    then have "c (xs ! j) = Greater" if "j < length xs" for j
      using b(4) [of j] Greater that by (cases j) auto
    with b step Greater \<open>b = 0\<close> show ?thesis by (intro absent [of 0]) auto
  qed
qed

text \<open>The key search: on strictly ascending keys the position is the only one possible.\<close>

lemma binary_search_by_key_spec:
  assumes f: "\<And>x. x \<in> set xs \<Longrightarrow> f x = Ok (key x)"
    and sorted: "sorted_wrt (<) (map key xs)"
  obtains (found) i where "binary_search_by_key k f xs = Ok (Found i)"
      "i < length xs" "key (xs ! i) = k"
  | (absent) i where "binary_search_by_key k f xs = Ok (InsertAt i)" "i \<le> length xs"
      "\<And>x. x \<in> set (take i xs) \<Longrightarrow> key x < k" "\<And>x. x \<in> set (drop i xs) \<Longrightarrow> k < key x"
      "k \<notin> key ` set xs"
proof -
  let ?cmp = "\<lambda>x. and_then (f x) (\<lambda>a. Ok (compare a k))"
  have cmp: "?cmp x = Ok (compare (key x) k)" if "x \<in> set xs" for x
    using f [OF that] by simp
  have "sorted (map key xs)" using sorted by (rule strict_sorted_imp_sorted)
  then have mono: "sorted (map (\<lambda>x. compare (key x) k) xs)"
    by (auto simp: sorted_iff_nth_mono intro: compare_mono)
  show ?thesis
  proof (rule binary_search_by_spec [OF cmp mono])
    fix i assume "binary_search_by ?cmp xs = Ok (Found i)" "i < length xs"
      "compare (key (xs ! i)) k = Equal"
    then show ?thesis by (intro found [of i]) (auto simp: binary_search_by_key_def)
  next
    fix i assume i: "binary_search_by ?cmp xs = Ok (InsertAt i)" "i \<le> length xs"
      "\<And>j. j < i \<Longrightarrow> compare (key (xs ! j)) k = Less"
      "\<And>j. i \<le> j \<Longrightarrow> j < length xs \<Longrightarrow> compare (key (xs ! j)) k = Greater"
    have lo: "key x < k" if "x \<in> set (take i xs)" for x
      using that i by (auto simp: in_set_conv_nth)
    have hi: "k < key x" if "x \<in> set (drop i xs)" for x
      using that i by (auto simp: in_set_conv_nth)
    have "set xs = set (take i xs) \<union> set (drop i xs)"
      by (metis append_take_drop_id set_append)
    with lo hi have "k \<notin> key ` set xs" by force
    with i lo hi show ?thesis by (intro absent [of i]) (auto simp: binary_search_by_key_def)
  qed simp_all
qed

lemma partition_point_spec:
  assumes f: "\<And>x. x \<in> set xs \<Longrightarrow> pred x = Ok (P x)"
    and mono: "sorted_wrt (\<lambda>x y. P y \<longrightarrow> P x) xs"
  obtains i where "partition_point pred xs = Ok i" "i \<le> length xs"
    "\<And>j. j < i \<Longrightarrow> P (xs ! j)" "\<And>j. i \<le> j \<Longrightarrow> j < length xs \<Longrightarrow> \<not> P (xs ! j)"
proof -
  let ?cmp = "\<lambda>x. and_then (pred x) (\<lambda>p. Ok (if p then Less else Greater))"
  let ?c = "\<lambda>x. if P x then Less else Greater"
  have cmp: "?cmp x = Ok (?c x)" if "x \<in> set xs" for x
    using f [OF that] by simp
  have sorted: "sorted (map ?c xs)"
    using mono by (auto simp: sorted_wrt_map elim!: sorted_wrt_mono_rel [rotated])
  show ?thesis
  proof (rule binary_search_by_spec [OF cmp sorted])
    fix i assume "?c (xs ! i) = Equal"
    then show ?thesis by (simp split: if_splits)
  next
    fix i assume i: "binary_search_by ?cmp xs = Ok (InsertAt i)" "i \<le> length xs"
      "\<And>j. j < i \<Longrightarrow> ?c (xs ! j) = Less"
      "\<And>j. i \<le> j \<Longrightarrow> j < length xs \<Longrightarrow> ?c (xs ! j) = Greater"
    have "P (xs ! j)" if "j < i" for j
      using i(3) [OF that] by (simp split: if_splits)
    moreover have "\<not> P (xs ! j)" if "i \<le> j" "j < length xs" for j
      using i(4) [OF that] by (simp split: if_splits)
    ultimately show ?thesis using i(1,2) by (intro that [of i]) (auto simp: partition_point_def)
  qed simp_all
qed

end
