(* ===== verification/Leaf_Node.thy ===== *)
theory Leaf_Node
  imports Slice_Search
begin

text \<open>
  The leaf page of the B+ tree (\<open>LeafNode\<close> in \<open>src/storage/page.rs\<close>) and its operations:
  \<open>compact\<close>, \<open>split\<close>, \<open>insert_record\<close>, \<open>update_record\<close>, \<open>delete_record\<close>, \<open>get_record\<close>.

  The leaf keeps an unordered vector of records and a slot array of \<open>u16\<close> positions into it,
  sorted by row id. The abstraction is in two steps: \<open>slot_records\<close> reads the records in slot
  order, and \<open>leaf_map\<close> is the map from row id to payload that the live ones among them make.
\<close>

section \<open>Layout constants\<close>

definition SLOT_ELEM_SIZE :: usize where [size_consts]: "SLOT_ELEM_SIZE = 2"
definition PAGE_SIZE :: usize where [size_consts]: "PAGE_SIZE = 4096"
definition INDEX_ENTRY_SIZE :: usize where [size_consts]: "INDEX_ENTRY_SIZE = 8 + 8"
definition RECORD_META_SIZE :: usize where [size_consts]: "RECORD_META_SIZE = 8 + 1 + 4"
definition MAX_VALUE_SIZE :: usize where [size_consts]: "MAX_VALUE_SIZE = 400"
definition INTERNAL_NODE_HEADER_SIZE :: usize where
  [size_consts]: "INTERNAL_NODE_HEADER_SIZE = 1 + 8 + 8 + 8 + 4 + 2"
definition LEAF_NODE_HEADER_SIZE :: usize where
  [size_consts]: "LEAF_NODE_HEADER_SIZE = 1 + 8 + 8 + 1 + 1 + 8 + 8 + 4 + 2"
definition MAX_LEAF_NODE_CELLS :: usize where
  [size_consts]: "MAX_LEAF_NODE_CELLS =
     (PAGE_SIZE - LEAF_NODE_HEADER_SIZE) div (SLOT_ELEM_SIZE + RECORD_META_SIZE)"

section \<open>Data\<close>

record db_record =
  row_id :: u64
  data :: "u8 list"
  is_deleted :: bool

record leaf_node =
  page_id :: page_id
  last_lsn :: u64
  has_prev :: bool
  has_next :: bool
  prev_page_id :: u64
  next_page_id :: u64
  slot_array :: "u16 list"
  records :: "db_record list"
  free_size :: u16
  is_dirty :: bool

text \<open>\<open>Record::default()\<close> and \<open>LeafNode::default()\<close>.\<close>

definition db_record_default :: db_record where
  "db_record_default = \<lparr>row_id = 0, data = [], is_deleted = False\<rparr>"

definition leaf_default :: leaf_node where
  "leaf_default = \<lparr>page_id = 0, last_lsn = 0, has_prev = False, has_next = False,
     prev_page_id = 0, next_page_id = 0, slot_array = [], records = [], free_size = 0,
     is_dirty = False\<rparr>"

section \<open>Operations\<close>

fun compact_loop :: "db_record list \<Rightarrow> u16 list \<Rightarrow> db_record list \<Rightarrow> u16 list \<Rightarrow> usize \<Rightarrow>
    (db_record list \<times> u16 list \<times> usize) result" where
  "compact_loop recs [] clean_records new_slots bytes_used =
     Ok (clean_records, new_slots, bytes_used)"
| "compact_loop recs (old_slot_idx # slots) clean_records new_slots bytes_used =
     and_then (index recs (unat old_slot_idx)) (\<lambda>rec.
       if \<not> is_deleted rec
       then let bytes_used = bytes_used + (RECORD_META_SIZE + length (data rec)) + SLOT_ELEM_SIZE;
                clean_records = clean_records @ [rec];
                new_slots = new_slots @ [word_of_nat (length clean_records - 1)]
            in compact_loop recs slots clean_records new_slots bytes_used
       else compact_loop recs slots clean_records new_slots bytes_used)"

definition compact :: "leaf_node \<Rightarrow> unit result \<times> leaf_node" where
  "compact self =
     then_do (compact_loop (records self) (slot_array self) [] [] 0, self)
       (\<lambda>(clean_records, new_slots, bytes_used) self.
          let self = self\<lparr>records := clean_records, slot_array := new_slots\<rparr>;
              net_size = LEAF_NODE_HEADER_SIZE + bytes_used
          in if net_size < PAGE_SIZE
             then (Ok (), self\<lparr>free_size := word_of_nat (PAGE_SIZE - net_size)\<rparr>)
             else if net_size = PAGE_SIZE then (Ok (), self\<lparr>free_size := 0\<rparr>)
             else (Panic Unreachable, self))"

text \<open>The loop of \<open>split\<close> that copies the upper slots into the sibling.\<close>

fun split_loop :: "db_record list \<Rightarrow> u16 list \<Rightarrow> leaf_node \<Rightarrow> unit result \<times> leaf_node" where
  "split_loop recs [] sib = (Ok (), sib)"
| "split_loop recs (rec_idx # slots) sib =
     then_do (index recs (unat rec_idx), sib) (\<lambda>rec sib.
       let sib = sib\<lparr>records := records sib @ [rec]\<rparr>;
           sib = sib\<lparr>slot_array := slot_array sib @ [word_of_nat (length (records sib) - 1)]\<rparr>
       in split_loop recs slots sib)"

definition split :: "leaf_node \<times> leaf_node \<Rightarrow> u64 result \<times> (leaf_node \<times> leaf_node)" where
  "split st =
     (let mid = length (slot_array (fst st)) div 2
      in then_do (on_snd (split_loop (records (fst st)) (drop mid (slot_array (fst st)))) st)
        (\<lambda>_ (self, sib).
         then_do (on_fst compact (self\<lparr>slot_array := take mid (slot_array self)\<rparr>, sib))
        (\<lambda>_ st.
         then_do (on_snd compact st)
        (\<lambda>_ (self, sib).
           if slot_array sib = [] then (Err (CorruptPage EmptyRightSibling), (self, sib))
           else (and_then (index (slot_array sib) 0) (\<lambda>s.
                 and_then (index (records sib) (unat s)) (\<lambda>rec. Ok (row_id rec))), (self, sib))))))"

text \<open>The search closure \<open>|&rec_idx| self.records[rec_idx as usize].row_id\<close>.\<close>

definition slot_key :: "leaf_node \<Rightarrow> u16 \<Rightarrow> u64 result" where
  "slot_key self rec_idx = and_then (index (records self) (unat rec_idx)) (\<lambda>rec. Ok (row_id rec))"

definition slot_size :: "leaf_node \<Rightarrow> u16 \<Rightarrow> usize result" where
  "slot_size self rec_idx =
     and_then (index (records self) (unat rec_idx)) (\<lambda>rec. Ok (RECORD_META_SIZE + length (data rec)))"

definition insert_record :: "u64 \<Rightarrow> u8 list \<Rightarrow> leaf_node \<Rightarrow> unit result \<times> leaf_node" where
  "insert_record key payload self =
     (if length payload > MAX_VALUE_SIZE then (Err (TupleTooLarge (length payload)), self)
      else then_do (binary_search_by_key key (slot_key self) (slot_array self), self) (\<lambda>found self.
        case found of
          Found slot_idx \<Rightarrow>
            then_do (index (slot_array self) slot_idx, self) (\<lambda>rec_idx self.
            then_do (index (records self) (unat rec_idx), self) (\<lambda>rec self.
              if \<not> is_deleted rec then (Err (DuplicateKey key), self)
              else compact (self\<lparr>records :=
                     (records self)[unat rec_idx := rec\<lparr>is_deleted := False, data := payload\<rparr>]\<rparr>)))
        | InsertAt insert_idx \<Rightarrow>
            let required_bytes = SLOT_ELEM_SIZE + RECORD_META_SIZE + length payload;
                header_len = LEAF_NODE_HEADER_SIZE + (length (slot_array self) + 1) * SLOT_ELEM_SIZE
            in then_do (map_result (slot_size self) (slot_array self), self) (\<lambda>sizes self.
                 let footer_len = sum_list sizes
                 in if header_len + footer_len + required_bytes > PAGE_SIZE
                       \<or> length (slot_array self) > MAX_LEAF_NODE_CELLS
                    then (Err PageFull, self)
                    else let new_rec_idx = word_of_nat (length (records self));
                             self = self\<lparr>records := records self @
                               [\<lparr>row_id = key, data = payload, is_deleted = False\<rparr>]\<rparr>;
                             self = self\<lparr>slot_array := take insert_idx (slot_array self) @
                               new_rec_idx # drop insert_idx (slot_array self)\<rparr>
                         in (Ok (), self\<lparr>free_size :=
                              if unat (free_size self) \<ge> required_bytes
                              then free_size self - word_of_nat required_bytes else 0\<rparr>))))"

text \<open>The lookup of a slot, with its \<open>map_err\<close>, that update and delete share.\<close>

definition find_slot :: "u64 \<Rightarrow> leaf_node \<Rightarrow> usize result" where
  "find_slot key self =
     and_then (binary_search_by_key key (slot_key self) (slot_array self)) (\<lambda>found.
       case found of
         Found slot_idx \<Rightarrow> and_then (index (slot_array self) slot_idx) (\<lambda>rec_idx. Ok (unat rec_idx))
       | InsertAt _ \<Rightarrow> Err (KeyNotFound key))"

definition update_record :: "u64 \<Rightarrow> u8 list \<Rightarrow> leaf_node \<Rightarrow> unit result \<times> leaf_node" where
  "update_record key payload self =
     (if length payload \<ge> MAX_VALUE_SIZE then (Err (TupleTooLarge (length payload)), self)
      else then_do (find_slot key self, self) (\<lambda>rec_idx self.
           then_do (index (records self) rec_idx, self) (\<lambda>rec self.
             (Ok (), self\<lparr>records := (records self)[rec_idx := rec\<lparr>data := payload\<rparr>]\<rparr>))))"

definition delete_record :: "u64 \<Rightarrow> leaf_node \<Rightarrow> unit result \<times> leaf_node" where
  "delete_record key self =
     then_do (find_slot key self, self) (\<lambda>rec_idx self.
     then_do (index (records self) rec_idx, self) (\<lambda>rec self.
       (Ok (), self\<lparr>records := (records self)[rec_idx := rec\<lparr>is_deleted := True\<rparr>]\<rparr>)))"

definition get_record :: "u64 \<Rightarrow> leaf_node \<Rightarrow> u8 list option result" where
  "get_record key self =
     and_then (binary_search_by_key key (slot_key self) (slot_array self)) (\<lambda>found.
       case found of
         InsertAt _ \<Rightarrow> Ok None
       | Found slot_idx \<Rightarrow>
           and_then (index (slot_array self) slot_idx) (\<lambda>rec_idx.
           and_then (index (records self) (unat rec_idx)) (\<lambda>rec.
             Ok (if \<not> is_deleted rec then Some (data rec) else None))))"

end
