(* ===== verification/Leaf_Spec.thy ===== *)
theory Leaf_Spec
  imports Leaf_Node
begin

text \<open>
  What the leaf operations promise. \<open>leaf_wf\<close> is the invariant (the slot array is a
  permutation of the record positions, the row ids ascend strictly in slot order, no payload
  is longer than \<open>MAX_VALUE_SIZE\<close>), \<open>leaf_bytes\<close> the encoded size and \<open>leaf_fits\<close> that
  it is at most a page. Every operation is first reduced to an operation on \<open>slot_records\<close>,
  the records in slot order, then to one on \<open>leaf_map\<close>.
\<close>

section \<open>Sorted record lists and their maps\<close>

definition rec_map :: "db_record list \<Rightarrow> u64 \<rightharpoonup> u8 list" where
  "rec_map rs = map_of (map (\<lambda>r. (row_id r, data r)) (filter (\<lambda>r. \<not> is_deleted r) rs))"

abbreviation keys_ascend :: "db_record list \<Rightarrow> bool" where
  "keys_ascend rs \<equiv> sorted_wrt (<) (map row_id rs)"

definition rec_bytes :: "db_record \<Rightarrow> usize" where
  "rec_bytes r = SLOT_ELEM_SIZE + RECORD_META_SIZE + length (data r)"

lemma keys_ascend_distinct: "keys_ascend rs \<Longrightarrow> distinct (map row_id rs)"
  by (simp add: strict_sorted_iff)

lemma keys_ascend_filter: "keys_ascend rs \<Longrightarrow> keys_ascend (filter P rs)"
  by (simp add: sorted_wrt_map sorted_wrt_filter)

lemma keys_ascend_inject:
  assumes "keys_ascend rs" "r \<in> set rs" "r' \<in> set rs" "row_id r = row_id r'"
  shows "r = r'"
  using keys_ascend_distinct [OF assms(1)] assms(2-) by (auto simp: distinct_map inj_on_def)

lemma rec_map_eq_Some:
  assumes "keys_ascend rs"
  shows "rec_map rs k = Some d \<longleftrightarrow> (\<exists>r \<in> set rs. row_id r = k \<and> \<not> is_deleted r \<and> data r = d)"
proof -
  have "distinct (map fst (map (\<lambda>r. (row_id r, data r)) (filter (\<lambda>r. \<not> is_deleted r) rs)))"
    using keys_ascend_distinct [OF keys_ascend_filter [OF assms]] by (simp add: comp_def)
  then show ?thesis by (auto simp: rec_map_def)
qed

lemma rec_map_eqI:
  assumes "keys_ascend rs" and "\<And>k d. m k = Some d \<longleftrightarrow>
    (\<exists>r \<in> set rs. row_id r = k \<and> \<not> is_deleted r \<and> data r = d)"
  shows "rec_map rs = m"
  by (rule ext, rule option_eqI) (simp add: rec_map_eq_Some assms)

lemma rec_map_nth:
  assumes "keys_ascend rs" "i < length rs"
  shows "rec_map rs (row_id (rs ! i)) = (if is_deleted (rs ! i) then None else Some (data (rs ! i)))"
proof (cases "is_deleted (rs ! i)")
  case True
  have "rec_map rs (row_id (rs ! i)) \<noteq> Some d" for d
    using rec_map_eq_Some [OF assms(1)] keys_ascend_inject [OF assms(1)] True assms(2)
    by (metis nth_mem)
  with True show ?thesis by auto
next
  case False
  with assms show ?thesis by (auto simp: rec_map_eq_Some)
qed

lemma rec_map_absent: "k \<notin> row_id ` set rs \<Longrightarrow> rec_map rs k = None"
  by (auto simp: rec_map_def map_of_eq_None_iff)

lemma rec_map_filter_live: "rec_map (filter (\<lambda>r. \<not> is_deleted r) rs) = rec_map rs"
  by (simp add: rec_map_def)

lemma keys_ascend_update: "keys_ascend rs \<Longrightarrow> i < length rs \<Longrightarrow> row_id r = row_id (rs ! i) \<Longrightarrow>
  keys_ascend (rs[i := r])"
  using list_update_id [of "map row_id rs" i] by (simp add: map_update)

lemma in_set_update_other:
  assumes "row_id r = row_id (rs ! i)" "row_id q \<noteq> row_id r"
  shows "q \<in> set (rs[i := r]) \<longleftrightarrow> q \<in> set rs"
proof
  assume "q \<in> set (rs[i := r])"
  then show "q \<in> set rs" using assms(2) set_update_subset_insert [of rs i r] by auto
next
  assume "q \<in> set rs"
  then obtain j where "j < length rs" "rs ! j = q" by (auto simp: in_set_conv_nth)
  with assms show "q \<in> set (rs[i := r])"
    by (metis length_list_update nth_list_update_neq nth_mem)
qed

lemma rec_map_update:
  assumes "keys_ascend rs" "i < length rs" "row_id r = row_id (rs ! i)"
  shows "rec_map (rs[i := r]) = (rec_map rs)(row_id r := if is_deleted r then None else Some (data r))"
proof
  fix k
  have asc: "keys_ascend (rs[i := r])" using assms by (rule keys_ascend_update)
  show "rec_map (rs[i := r]) k = ((rec_map rs)(row_id r := if is_deleted r then None else Some (data r))) k"
  proof (cases "k = row_id r")
    case True
    then show ?thesis using rec_map_nth [OF asc, of i] assms(2) by simp
  next
    case False
    then have "rec_map (rs[i := r]) k = Some d \<longleftrightarrow> rec_map rs k = Some d" for d
      using in_set_update_other [OF assms(3)] by (auto simp: rec_map_eq_Some asc assms(1))
    with False show ?thesis by (auto intro: option_eqI)
  qed
qed

lemma update_as_map:
  assumes "keys_ascend rs" "i < length rs"
  shows "rs[i := f (rs ! i)] = map (\<lambda>r. if row_id r = row_id (rs ! i) then f r else r) rs"
proof (rule nth_equalityI)
  fix j assume "j < length (rs[i := f (rs ! i)])"
  then have j: "j < length rs" by simp
  have "distinct (map row_id rs)" using assms(1) by (rule keys_ascend_distinct)
  then have "row_id (rs ! j) = row_id (rs ! i) \<longleftrightarrow> j = i"
    using j assms(2) by (metis length_map nth_eq_iff_index_eq nth_map)
  with j show "rs[i := f (rs ! i)] ! j = map (\<lambda>r. if row_id r = row_id (rs ! i) then f r else r) rs ! j"
    by (auto simp: nth_list_update)
qed simp

lemma keys_ascend_insert:
  assumes "keys_ascend rs"
    and "\<And>q. q \<in> set (take i rs) \<Longrightarrow> row_id q < row_id r"
    and "\<And>q. q \<in> set (drop i rs) \<Longrightarrow> row_id r < row_id q"
  shows "keys_ascend (take i rs @ r # drop i rs)"
proof -
  have "keys_ascend (take i rs @ drop i rs)" using assms(1) by simp
  then show ?thesis using assms(2,3) unfolding map_append sorted_wrt_append by auto
qed

lemma rec_map_insert:
  assumes "keys_ascend (take i rs @ r # drop i rs)" "keys_ascend rs" "\<not> is_deleted r"
  shows "rec_map (take i rs @ r # drop i rs) = (rec_map rs)(row_id r \<mapsto> data r)"
proof (rule rec_map_eqI [OF assms(1)])
  fix k d
  have set: "set rs = set (take i rs) \<union> set (drop i rs)" by (metis append_take_drop_id set_append)
  have "row_id r \<notin> row_id ` set rs"
    using keys_ascend_distinct [OF assms(1)] by (auto simp: set)
  then have "row_id q \<noteq> row_id r" if "q \<in> set rs" for q
    using that by (metis image_eqI)
  then show "((rec_map rs)(row_id r \<mapsto> data r)) k = Some d \<longleftrightarrow>
      (\<exists>q \<in> set (take i rs @ r # drop i rs). row_id q = k \<and> \<not> is_deleted q \<and> data q = d)"
    using assms(3) set by (auto simp: rec_map_eq_Some [OF assms(2)])
qed

lemma rec_map_append:
  assumes "keys_ascend (xs @ ys)"
  shows "rec_map (xs @ ys) = rec_map xs ++ rec_map ys"
proof (rule rec_map_eqI [OF assms])
  fix k d
  have asc: "keys_ascend xs" "keys_ascend ys" and
    sep: "\<And>x y. x \<in> set xs \<Longrightarrow> y \<in> set ys \<Longrightarrow> row_id x < row_id y"
    using assms by (auto simp: sorted_wrt_append)
  have "rec_map xs k = None" if "rec_map ys k = Some d'" for d'
    using that sep by (intro rec_map_absent) (force simp: rec_map_eq_Some asc)
  then show "(rec_map xs ++ rec_map ys) k = Some d \<longleftrightarrow>
      (\<exists>q \<in> set (xs @ ys). row_id q = k \<and> \<not> is_deleted q \<and> data q = d)"
    by (cases "rec_map ys k") (auto simp: map_add_Some_iff rec_map_eq_Some [OF asc(1), symmetric]
        rec_map_eq_Some [OF asc(2), symmetric] bex_Un)
qed

section \<open>The invariant and the abstraction\<close>

definition slot_records :: "leaf_node \<Rightarrow> db_record list" where
  "slot_records l = map (\<lambda>s. records l ! unat s) (slot_array l)"

definition leaf_map :: "leaf_node \<Rightarrow> u64 \<rightharpoonup> u8 list" where
  "leaf_map l = rec_map (slot_records l)"

definition slots_wf :: "leaf_node \<Rightarrow> bool" where
  "slots_wf l \<longleftrightarrow> mset (map unat (slot_array l)) = mset [0..<length (records l)]"

definition leaf_wf :: "leaf_node \<Rightarrow> bool" where
  "leaf_wf l \<longleftrightarrow> slots_wf l \<and> keys_ascend (slot_records l) \<and>
     (\<forall>r \<in> set (records l). length (data r) \<le> MAX_VALUE_SIZE)"

definition leaf_bytes :: "leaf_node \<Rightarrow> usize" where
  "leaf_bytes l = LEAF_NODE_HEADER_SIZE + sum_list (map rec_bytes (slot_records l))"

definition leaf_fits :: "leaf_node \<Rightarrow> bool" where
  "leaf_fits l \<longleftrightarrow> leaf_bytes l \<le> PAGE_SIZE"

text \<open>The exact free space the encoder computes, and \<open>compact\<close> stores.\<close>

definition free_size_exact :: "leaf_node \<Rightarrow> bool" where
  "free_size_exact l \<longleftrightarrow> unat (free_size l) = PAGE_SIZE - leaf_bytes l"

lemma slots_wfD:
  assumes "slots_wf l"
  shows "\<And>s. s \<in> set (slot_array l) \<Longrightarrow> unat s < length (records l)"
    and "distinct (slot_array l)"
    and "length (slot_array l) = length (records l)"
    and "mset (slot_records l) = mset (records l)"
    and "length (records l) \<le> 65536"
proof -
  have perm: "mset (map unat (slot_array l)) = mset [0..<length (records l)]"
    using assms by (simp add: slots_wf_def)
  note slot_permD [OF perm]
  then show range: "\<And>s. s \<in> set (slot_array l) \<Longrightarrow> unat s < length (records l)"
    and "distinct (slot_array l)" and "length (slot_array l) = length (records l)" by blast+
  show "mset (slot_records l) = mset (records l)"
    unfolding slot_records_def slot_permD(4) [OF perm] by (simp add: map_nth)
  have "{0..<length (records l)} = unat ` set (slot_array l)"
    using arg_cong [OF perm, of set_mset] by simp
  also have "\<dots> \<subseteq> {0..<65536}" using unat_word_bounds(2) by auto
  finally have "{0..<length (records l)} \<subseteq> {0..<65536}" .
  then show "length (records l) \<le> 65536" by (auto simp: atLeastLessThan_subset_iff)
qed

lemma slot_records_length [simp]: "length (slot_records l) = length (slot_array l)"
  by (simp add: slot_records_def)

lemma slots_wf_set: "slots_wf l \<Longrightarrow> set (slot_records l) = set (records l)"
  using slots_wfD(4) by (metis set_mset_mset)

lemma slot_records_nth: "i < length (slot_array l) \<Longrightarrow>
    slot_records l ! i = records l ! unat (slot_array l ! i)"
  by (simp add: slot_records_def)

lemma slots_wfI:
  assumes "distinct (slot_array l)" "length (slot_array l) = length (records l)"
    "\<And>s. s \<in> set (slot_array l) \<Longrightarrow> unat s < length (records l)"
  shows "slots_wf l"
proof -
  have d: "distinct (map unat (slot_array l))"
    using assms(1) by (auto simp: distinct_map inj_on_def word_unat_eq_iff)
  have "set (map unat (slot_array l)) = {0..<length (records l)}"
  proof (rule card_subset_eq)
    show "card (set (map unat (slot_array l))) = card {0..<length (records l)}"
      using distinct_card [OF d] assms(2) by simp
  qed (use assms(3) in auto)
  then show ?thesis
    unfolding slots_wf_def by (metis d atLeastLessThan_upt distinct_upt set_eq_iff_mset_eq_distinct)
qed

section \<open>Evaluation of the closures\<close>

lemma slot_key_Ok:
  "slots_wf l \<Longrightarrow> s \<in> set (slot_array l) \<Longrightarrow> slot_key l s = Ok (row_id (records l ! unat s))"
  by (simp add: slot_key_def run_simps slots_wfD(1))

lemma footer_sum:
  assumes "slots_wf l"
  shows "map_result (slot_size l) (slot_array l) =
    Ok (map (\<lambda>r. RECORD_META_SIZE + length (data r)) (slot_records l))"
  using map_result_all_Ok [of "slot_array l" "slot_size l"
      "\<lambda>s. RECORD_META_SIZE + length (data (records l ! unat s))"] assms
  by (simp add: slot_size_def run_simps slots_wfD(1) slot_records_def comp_def)

lemma leaf_bytes_eq:
  "leaf_bytes l = LEAF_NODE_HEADER_SIZE + length (slot_array l) * SLOT_ELEM_SIZE +
     sum_list (map (\<lambda>r. RECORD_META_SIZE + length (data r)) (slot_records l))"
proof -
  have "sum_list (map rec_bytes rs) =
      length rs * SLOT_ELEM_SIZE + sum_list (map (\<lambda>r. RECORD_META_SIZE + length (data r)) rs)" for rs
    by (induction rs) (simp_all add: rec_bytes_def)
  then show ?thesis by (simp add: leaf_bytes_def)
qed

lemma leaf_search:
  assumes "leaf_wf l"
  obtains (found) i where
      "binary_search_by_key k (slot_key l) (slot_array l) = Ok (Found i)"
      "i < length (slot_array l)" "row_id (slot_records l ! i) = k"
      "unat (slot_array l ! i) < length (records l)"
      "slot_records l ! i = records l ! unat (slot_array l ! i)"
  | (absent) i where
      "binary_search_by_key k (slot_key l) (slot_array l) = Ok (InsertAt i)"
      "i \<le> length (slot_array l)"
      "\<And>r. r \<in> set (take i (slot_records l)) \<Longrightarrow> row_id r < k"
      "\<And>r. r \<in> set (drop i (slot_records l)) \<Longrightarrow> k < row_id r"
      "k \<notin> row_id ` set (slot_records l)"
proof -
  let ?key = "\<lambda>s. row_id (records l ! unat s)"
  have wf: "slots_wf l" and "keys_ascend (slot_records l)" using assms by (auto simp: leaf_wf_def)
  then have asc: "sorted_wrt (<) (map ?key (slot_array l))"
    by (simp add: slot_records_def comp_def)
  show ?thesis
  proof (rule binary_search_by_key_spec [OF slot_key_Ok [OF wf] asc])
    fix i assume "binary_search_by_key k (slot_key l) (slot_array l) = Ok (Found i)"
      "i < length (slot_array l)" "?key (slot_array l ! i) = k"
    then show ?thesis using wf by (intro found [of i]) (auto simp: slot_records_nth slots_wfD(1))
  next
    fix i assume "binary_search_by_key k (slot_key l) (slot_array l) = Ok (InsertAt i)"
      "i \<le> length (slot_array l)" "\<And>s. s \<in> set (take i (slot_array l)) \<Longrightarrow> ?key s < k"
      "\<And>s. s \<in> set (drop i (slot_array l)) \<Longrightarrow> k < ?key s" "k \<notin> ?key ` set (slot_array l)"
    then show ?thesis
      by (intro absent [of i]) (auto simp: slot_records_def take_map drop_map)
  qed
qed

section \<open>Replacing and adding a record\<close>

lemma slot_records_replace:
  assumes "slots_wf l" "i < length (slot_array l)"
  shows "slot_records (l\<lparr>records := (records l)[unat (slot_array l ! i) := r]\<rparr>) = (slot_records l)[i := r]"
proof (rule nth_equalityI)
  fix j assume "j < length (slot_records (l\<lparr>records := (records l)[unat (slot_array l ! i) := r]\<rparr>))"
  then have j: "j < length (slot_array l)" by simp
  have "unat (slot_array l ! i) = unat (slot_array l ! j) \<longleftrightarrow> i = j"
    using j assms slots_wfD(2) [OF assms(1)] by (simp add: nth_eq_iff_index_eq flip: word_unat_eq_iff)
  with j assms slots_wfD(1) [OF assms(1)]
  show "slot_records (l\<lparr>records := (records l)[unat (slot_array l ! i) := r]\<rparr>) ! j = (slot_records l)[i := r] ! j"
    by (simp add: slot_records_def nth_list_update)
qed simp

lemma slots_wf_replace: "slots_wf l \<Longrightarrow> slots_wf (l\<lparr>records := (records l)[j := r]\<rparr>)"
  by (simp add: slots_wf_def)

lemma leaf_wf_replace:
  assumes "leaf_wf l" "i < length (slot_array l)"
    and "row_id r = row_id (slot_records l ! i)" "length (data r) \<le> MAX_VALUE_SIZE"
  shows "leaf_wf (l\<lparr>records := (records l)[unat (slot_array l ! i) := r]\<rparr>)"
proof -
  have wf: "slots_wf l" using assms(1) by (simp add: leaf_wf_def)
  have "set ((records l)[unat (slot_array l ! i) := r]) \<subseteq> insert r (set (records l))"
    by (rule set_update_subset_insert)
  with assms wf show ?thesis
    by (auto simp: leaf_wf_def slot_records_replace slots_wf_replace keys_ascend_update)
qed

lemma leaf_map_replace:
  assumes "leaf_wf l" "i < length (slot_array l)" "row_id r = row_id (slot_records l ! i)"
  shows "leaf_map (l\<lparr>records := (records l)[unat (slot_array l ! i) := r]\<rparr>) =
    (leaf_map l)(row_id r := if is_deleted r then None else Some (data r))"
  using assms by (simp add: leaf_map_def leaf_wf_def slot_records_replace rec_map_update)

lemma leaf_bytes_replace:
  assumes "leaf_wf l" "i < length (slot_array l)"
  shows "leaf_bytes (l\<lparr>records := (records l)[unat (slot_array l ! i) := r]\<rparr>) +
    rec_bytes (slot_records l ! i) = leaf_bytes l + rec_bytes r"
proof -
  have "sum_list ((map rec_bytes rs)[i := rec_bytes r]) + map rec_bytes rs ! i =
      sum_list (map rec_bytes rs) + rec_bytes r" if "i < length rs" for rs
    using that elem_le_sum_list [of i "map rec_bytes rs"] by (simp add: sum_list_update)
  from this [of "slot_records l"] assms show ?thesis
    by (simp add: leaf_bytes_def leaf_wf_def slot_records_replace map_update)
qed

lemma slot_records_add:
  assumes "slots_wf l" "i \<le> length (slot_array l)" "length (records l) < 65536"
    and "records l' = records l @ [r]"
    and "slot_array l' = take i (slot_array l) @ word_of_nat (length (records l)) # drop i (slot_array l)"
  shows "slot_records l' = take i (slot_records l) @ r # drop i (slot_records l)" and "slots_wf l'"
proof -
  have n: "unat (word_of_nat (length (records l)) :: u16) = length (records l)"
    using assms(3) by (rule unat_word_of_nat_u16)
  have "(records l @ [r]) ! unat s = records l ! unat s" if "s \<in> set (slot_array l)" for s
    using slots_wfD(1) [OF assms(1) that] by (simp add: nth_append)
  then show "slot_records l' = take i (slot_records l) @ r # drop i (slot_records l)"
    using n assms(2)
    by (auto simp: slot_records_def assms(4,5) take_map drop_map dest: in_set_takeD in_set_dropD)
  have "mset (take i xs @ x # drop i xs) = add_mset x (mset xs)" for x :: nat and xs
    using arg_cong [OF append_take_drop_id [of i xs], of mset] by (simp del: append_take_drop_id)
  from this [of "map unat (slot_array l)" "length (records l)"] assms(1) n
  show "slots_wf l'" by (simp add: slots_wf_def assms(4,5) take_map drop_map)
qed

section \<open>Compaction\<close>

abbreviation live :: "db_record list \<Rightarrow> db_record list" where
  "live rs \<equiv> filter (\<lambda>r. \<not> is_deleted r) rs"

definition live_bytes :: "db_record list \<Rightarrow> usize" where
  "live_bytes rs = LEAF_NODE_HEADER_SIZE + sum_list (map rec_bytes (live rs))"

text \<open>A leaf whose slots are the identity.\<close>

definition packed :: "db_record list \<Rightarrow> leaf_node \<Rightarrow> leaf_node" where
  "packed rs l = l\<lparr>records := rs, slot_array := map word_of_nat [0..<length rs]\<rparr>"

lemma slots_wf_packed: "length rs \<le> 65536 \<Longrightarrow> slots_wf (packed rs l)"
proof -
  assume "length rs \<le> 65536"
  then have "map (unat \<circ> (word_of_nat :: nat \<Rightarrow> u16)) [0..<length rs] = [0..<length rs]"
    by (intro map_idI) (auto simp: unat_word_of_nat_u16)
  then show ?thesis by (simp add: slots_wf_def packed_def)
qed

lemma slot_records_packed: "length rs \<le> 65536 \<Longrightarrow> slot_records (packed rs l) = rs"
proof -
  assume "length rs \<le> 65536"
  then have "map (\<lambda>i. rs ! unat (word_of_nat i :: u16)) [0..<length rs] = map ((!) rs) [0..<length rs]"
    by (intro map_cong) (auto simp: unat_word_of_nat_u16)
  then show ?thesis by (simp add: slot_records_def packed_def comp_def map_nth)
qed

lemma packed_fields [simp]:
  "records (packed rs l) = rs" "length (slot_array (packed rs l)) = length rs"
  "slot_array (packed rs l) = [] \<longleftrightarrow> rs = []"
  by (simp_all add: packed_def)

lemma compact_loop_spec:
  "(\<And>s. s \<in> set ss \<Longrightarrow> unat s < length recs) \<Longrightarrow>
   compact_loop recs ss clean slots used =
     (let rs = live (map (\<lambda>s. recs ! unat s) ss)
      in Ok (clean @ rs, slots @ map word_of_nat [length clean..<length clean + length rs],
             used + sum_list (map rec_bytes rs)))"
proof (induction ss arbitrary: clean slots used)
  case (Cons s ss)
  have s: "index recs (unat s) = Ok (recs ! unat s)" using Cons.prems by (simp add: run_simps)
  have IH: "compact_loop recs ss clean slots used =
     (let rs = live (map (\<lambda>s. recs ! unat s) ss)
      in Ok (clean @ rs, slots @ map word_of_nat [length clean..<length clean + length rs],
             used + sum_list (map rec_bytes rs)))" for clean slots used
    using Cons.prems by (intro Cons.IH) simp
  show ?case
    by (cases "is_deleted (recs ! unat s)")
      (simp_all add: s IH Let_def rec_bytes_def [of "recs ! unat s"] upt_conv_Cons del: upt_Suc)
qed simp

text \<open>What \<open>compact\<close> does to any leaf whose slots are in range.\<close>

lemma compact_eq:
  assumes "\<And>s. s \<in> set (slot_array l) \<Longrightarrow> unat s < length (records l)"
  shows "compact l =
    (let rs = live (slot_records l); b = live_bytes (slot_records l)
     in if b \<le> PAGE_SIZE then (Ok (), (packed rs l)\<lparr>free_size := word_of_nat (PAGE_SIZE - b)\<rparr>)
        else (Panic Unreachable, packed rs l))"
proof -
  define rs where "rs = live (slot_records l)"
  have loop: "compact_loop (records l) (slot_array l) [] [] 0 =
      Ok (rs, map word_of_nat [0..<length rs], sum_list (map rec_bytes rs))"
    using compact_loop_spec [OF assms, of "slot_array l" "[]" "[]" 0]
    by (simp add: rs_def slot_records_def Let_def)
  have b: "live_bytes (slot_records l) = LEAF_NODE_HEADER_SIZE + sum_list (map rec_bytes rs)"
    by (simp add: live_bytes_def rs_def)
  show ?thesis
    unfolding rs_def [symmetric] b compact_def loop by (simp add: Let_def packed_def del: of_nat_diff of_nat_add)
qed

lemma compacted_spec:
  assumes "keys_ascend rs" "\<forall>r \<in> set rs. length (data r) \<le> MAX_VALUE_SIZE" "length rs \<le> 65536"
    and "live_bytes rs \<le> PAGE_SIZE"
    and l': "l' = (packed (live rs) l)\<lparr>free_size := word_of_nat (PAGE_SIZE - live_bytes rs)\<rparr>"
  shows "leaf_wf l'" "leaf_fits l'" "free_size_exact l'" "leaf_map l' = rec_map rs"
    "slot_records l' = live rs" "leaf_bytes l' = live_bytes rs"
proof -
  have len: "length (live rs) \<le> 65536" using assms(3) le_trans length_filter_le by blast
  have sr: "slot_records l' = live rs"
    using slot_records_packed [OF len, of l] by (simp add: l' slot_records_def)
  have "slots_wf l'" using slots_wf_packed [OF len, of l] by (simp add: l' slots_wf_def)
  with assms(1,2) sr show "leaf_wf l'"
    by (auto simp: leaf_wf_def keys_ascend_filter l')
  show bytes: "leaf_bytes l' = live_bytes rs" by (simp add: leaf_bytes_def live_bytes_def sr)
  with assms(4) show "leaf_fits l'" by (simp add: leaf_fits_def)
  have "PAGE_SIZE - live_bytes rs < 65536" by (simp add: size_consts)
  then show "free_size_exact l'"
    unfolding free_size_exact_def bytes by (simp add: l' unat_word_of_nat_u16)
  show "leaf_map l' = rec_map rs" by (simp add: leaf_map_def sr rec_map_filter_live)
  show "slot_records l' = live rs" by (rule sr)
qed

lemma live_bytes_le: "live_bytes rs \<le> LEAF_NODE_HEADER_SIZE + sum_list (map rec_bytes rs)"
  by (simp add: live_bytes_def sum_list_filter_le)

lemma live_bytes_slot_records: "live_bytes (slot_records l) \<le> leaf_bytes l"
  by (simp add: leaf_bytes_def live_bytes_le)

lemma leaf_wf_length: "leaf_wf l \<Longrightarrow> length (slot_records l) \<le> 65536"
  using slots_wfD(3,5) [of l] by (simp add: leaf_wf_def)

lemma leaf_wf_sizes: "leaf_wf l \<Longrightarrow> \<forall>r \<in> set (slot_records l). length (data r) \<le> MAX_VALUE_SIZE"
  by (simp add: leaf_wf_def slots_wf_set)

lemma compact_spec:
  assumes "leaf_wf l" "live_bytes (slot_records l) \<le> PAGE_SIZE"
  obtains l' where "compact l = (Ok (), l')" "leaf_wf l'" "leaf_fits l'" "free_size_exact l'"
    "leaf_map l' = leaf_map l" "slot_records l' = live (slot_records l)"
    "leaf_bytes l' = live_bytes (slot_records l)"
    "l' = (packed (live (slot_records l)) l)\<lparr>free_size := free_size l'\<rparr>"
proof -
  let ?l = "(packed (live (slot_records l)) l)\<lparr>free_size := word_of_nat (PAGE_SIZE - live_bytes (slot_records l))\<rparr>"
  have wf: "slots_wf l" and asc: "keys_ascend (slot_records l)" using assms(1) by (simp_all add: leaf_wf_def)
  have run: "compact l = (Ok (), ?l)"
    using assms(2) by (simp add: compact_eq slots_wfD(1) [OF wf] Let_def)
  note spec = compacted_spec [OF asc leaf_wf_sizes [OF assms(1)] leaf_wf_length [OF assms(1)] assms(2) refl, of l]
  show ?thesis
    by (rule that [OF run spec(1-3) _ spec(5,6)]) (simp_all add: spec(4) leaf_map_def [of l])
qed

lemma compact_overflow:
  assumes "leaf_wf l" "PAGE_SIZE < live_bytes (slot_records l)"
  shows "compact l = (Panic Unreachable, packed (live (slot_records l)) l)"
proof -
  have wf: "slots_wf l" using assms(1) by (simp add: leaf_wf_def)
  show ?thesis using assms(2) by (simp add: compact_eq slots_wfD(1) [OF wf] Let_def)
qed

section \<open>Lookup\<close>

lemma get_record_eq:
  assumes "leaf_wf l"
  shows "get_record k l = Ok (leaf_map l k)"
  using assms
proof (cases rule: leaf_search [of l k])
  case (found i)
  have asc: "keys_ascend (slot_records l)" using assms by (simp add: leaf_wf_def)
  show ?thesis
    using found rec_map_nth [OF asc, of i] by (simp add: get_record_def run_simps leaf_map_def)
next
  case (absent i)
  then show ?thesis by (simp add: get_record_def leaf_map_def rec_map_absent)
qed

section \<open>Insertion\<close>

definition tombstoned :: "leaf_node \<Rightarrow> u64 \<Rightarrow> bool" where
  "tombstoned l k \<longleftrightarrow> (\<exists>r \<in> set (records l). row_id r = k \<and> is_deleted r)"

lemma row_ids_slot_records: "leaf_wf l \<Longrightarrow> row_id ` set (slot_records l) = row_id ` set (records l)"
  by (simp add: leaf_wf_def slots_wf_set)

lemma leaf_map_found:
  assumes "leaf_wf l" "i < length (slot_array l)"
  shows "leaf_map l (row_id (slot_records l ! i)) =
      (if is_deleted (slot_records l ! i) then None else Some (data (slot_records l ! i)))"
    and "tombstoned l (row_id (slot_records l ! i)) \<longleftrightarrow> is_deleted (slot_records l ! i)"
proof -
  have asc: "keys_ascend (slot_records l)" and set: "set (slot_records l) = set (records l)"
    using assms(1) by (auto simp: leaf_wf_def slots_wf_set)
  show "leaf_map l (row_id (slot_records l ! i)) =
      (if is_deleted (slot_records l ! i) then None else Some (data (slot_records l ! i)))"
    using rec_map_nth [OF asc, of i] assms(2) by (simp add: leaf_map_def)
  have i: "slot_records l ! i \<in> set (records l)" using assms(2) unfolding set [symmetric] by simp
  have "r = slot_records l ! i" if "r \<in> set (records l)" "row_id r = row_id (slot_records l ! i)" for r
    using keys_ascend_inject [OF asc, of r "slot_records l ! i"] that i by (simp add: set)
  with i show "tombstoned l (row_id (slot_records l ! i)) \<longleftrightarrow> is_deleted (slot_records l ! i)"
    unfolding tombstoned_def by blast
qed

lemma leaf_map_absent: "leaf_wf l \<Longrightarrow> k \<notin> row_id ` set (records l) \<Longrightarrow> leaf_map l k = None"
  by (simp add: leaf_map_def rec_map_absent row_ids_slot_records)

lemma leaf_map_None_cases:
  assumes "leaf_wf l" "leaf_map l k = None" "\<not> tombstoned l k"
  shows "k \<notin> row_id ` set (records l)"
proof
  assume "k \<in> row_id ` set (records l)"
  then obtain i where "i < length (slot_array l)" "k = row_id (slot_records l ! i)"
    unfolding row_ids_slot_records [OF assms(1), symmetric] by (auto simp: in_set_conv_nth)
  with leaf_map_found [OF assms(1)] assms(2,3) show False by (auto split: if_splits)
qed

lemma insert_too_large:
  "MAX_VALUE_SIZE < length v \<Longrightarrow> insert_record k v l = (Err (TupleTooLarge (length v)), l)"
  by (simp add: insert_record_def)

lemma insert_duplicate:
  assumes "leaf_wf l" "length v \<le> MAX_VALUE_SIZE" "leaf_map l k \<noteq> None"
  shows "insert_record k v l = (Err (DuplicateKey k), l)"
  using assms(1)
proof (cases rule: leaf_search [of l k])
  case (found i)
  then show ?thesis using assms leaf_map_found [OF assms(1), of i]
    by (auto simp: insert_record_def run_simps split: if_splits)
next
  case (absent i)
  then show ?thesis using assms(3) by (simp add: leaf_map_def rec_map_absent)
qed

lemma live_bytes_revive:
  assumes "i < length rs" "is_deleted (rs ! i)" "\<not> is_deleted r"
  shows "live_bytes (rs[i := r]) = live_bytes rs + rec_bytes r"
proof -
  have "live rs = live (take i rs) @ live (drop (Suc i) rs)"
    using assms(1,2) arg_cong [OF id_take_nth_drop [of i rs], of live] by simp
  moreover have "live (rs[i := r]) = live (take i rs) @ r # live (drop (Suc i) rs)"
    using assms(1,3) by (simp add: upd_conv_take_nth_drop)
  ultimately show ?thesis by (simp add: live_bytes_def)
qed

text \<open>Overwriting a tombstone compacts the leaf; the result fits, or the code panics.\<close>

lemma insert_tombstone:
  assumes wf: "leaf_wf l" and len: "length v \<le> MAX_VALUE_SIZE" and tomb: "tombstoned l k"
  defines "b \<equiv> live_bytes (slot_records l) + (SLOT_ELEM_SIZE + RECORD_META_SIZE + length v)"
  shows "b \<le> PAGE_SIZE \<Longrightarrow> \<exists>l'. insert_record k v l = (Ok (), l') \<and> leaf_wf l' \<and> leaf_fits l' \<and>
      free_size_exact l' \<and> leaf_map l' = (leaf_map l)(k \<mapsto> v) \<and> leaf_bytes l' = b"
    and "PAGE_SIZE < b \<Longrightarrow> fst (insert_record k v l) = Panic Unreachable"
proof -
  obtain i where i: "binary_search_by_key k (slot_key l) (slot_array l) = Ok (Found i)"
      "i < length (slot_array l)" "row_id (slot_records l ! i) = k"
      "unat (slot_array l ! i) < length (records l)"
      "slot_records l ! i = records l ! unat (slot_array l ! i)"
    using wf
  proof (cases rule: leaf_search [of l k])
    case (found i)
    then show ?thesis by (rule that)
  next
    case (absent i)
    then show ?thesis using tomb wf by (auto simp: tombstoned_def row_ids_slot_records)
  qed
  let ?r = "(slot_records l ! i)\<lparr>is_deleted := False, data := v\<rparr>"
  let ?m = "l\<lparr>records := (records l)[unat (slot_array l ! i) := ?r]\<rparr>"
  have del: "is_deleted (slot_records l ! i)" using leaf_map_found(2) [OF wf i(2)] tomb i(3) by simp
  then have run: "insert_record k v l = compact ?m"
    using i len by (simp add: insert_record_def run_simps)
  have sr: "slot_records ?m = (slot_records l)[i := ?r]"
    using slot_records_replace wf i(2) by (simp add: leaf_wf_def)
  have wf': "leaf_wf ?m" using leaf_wf_replace [OF wf i(2), of ?r] len by simp
  have b: "live_bytes (slot_records ?m) = b"
    using live_bytes_revive [of i "slot_records l" ?r] i(2) del by (simp add: sr b_def rec_bytes_def)
  have map: "leaf_map ?m = (leaf_map l)(k \<mapsto> v)"
    using leaf_map_replace [OF wf i(2), of ?r] i(3) by simp
  show "\<exists>l'. insert_record k v l = (Ok (), l') \<and> leaf_wf l' \<and> leaf_fits l' \<and>
      free_size_exact l' \<and> leaf_map l' = (leaf_map l)(k \<mapsto> v) \<and> leaf_bytes l' = b" if "b \<le> PAGE_SIZE"
    using compact_spec [OF wf'] that unfolding b map run by metis
  show "fst (insert_record k v l) = Panic Unreachable" if "PAGE_SIZE < b"
    using compact_overflow [OF wf'] that unfolding b run by simp
qed

text \<open>The cell limit never decides: the byte limit is reached first.\<close>

lemma leaf_bytes_ge: "LEAF_NODE_HEADER_SIZE + 15 * length (slot_array l) \<le> leaf_bytes l"
  using sum_list_ge_length [of "slot_records l" 15 rec_bytes]
  by (simp add: leaf_bytes_def rec_bytes_def size_consts)

lemma cell_limit_redundant:
  "length (slot_array l) > MAX_LEAF_NODE_CELLS \<Longrightarrow> PAGE_SIZE < leaf_bytes l"
  using leaf_bytes_ge [of l] by (simp add: size_consts)

lemma insert_absent:
  assumes wf: "leaf_wf l" and len: "length v \<le> MAX_VALUE_SIZE" and k: "k \<notin> row_id ` set (records l)"
  defines "b \<equiv> SLOT_ELEM_SIZE + RECORD_META_SIZE + length v"
  shows "PAGE_SIZE < leaf_bytes l + SLOT_ELEM_SIZE + b \<Longrightarrow> insert_record k v l = (Err PageFull, l)"
    and "leaf_bytes l + SLOT_ELEM_SIZE + b \<le> PAGE_SIZE \<Longrightarrow> \<exists>l'. insert_record k v l = (Ok (), l') \<and>
      leaf_wf l' \<and> leaf_fits l' \<and> (free_size_exact l \<longrightarrow> free_size_exact l') \<and>
      leaf_map l' = (leaf_map l)(k \<mapsto> v) \<and> leaf_bytes l' = leaf_bytes l + b \<and>
      set (records l') = insert \<lparr>row_id = k, data = v, is_deleted = False\<rparr> (set (records l))"
proof -
  let ?r = "\<lparr>row_id = k, data = v, is_deleted = False\<rparr>"
  have sl: "slots_wf l" and asc: "keys_ascend (slot_records l)" using wf by (auto simp: leaf_wf_def)
  obtain i where i: "binary_search_by_key k (slot_key l) (slot_array l) = Ok (InsertAt i)"
      "i \<le> length (slot_array l)"
      "\<And>r. r \<in> set (take i (slot_records l)) \<Longrightarrow> row_id r < k"
      "\<And>r. r \<in> set (drop i (slot_records l)) \<Longrightarrow> k < row_id r"
    using wf
  proof (cases rule: leaf_search [of l k])
    case (found i)
    then have "k \<in> row_id ` set (slot_records l)" by (metis imageI nth_mem slot_records_length)
    with k wf show ?thesis by (simp add: row_ids_slot_records)
  next
    case (absent i)
    then show ?thesis by (intro that [of i]) auto
  qed
  have check: "(LEAF_NODE_HEADER_SIZE + (length (slot_array l) + 1) * SLOT_ELEM_SIZE +
      sum_list (map (\<lambda>r. RECORD_META_SIZE + length (data r)) (slot_records l)) + b > PAGE_SIZE
      \<or> length (slot_array l) > MAX_LEAF_NODE_CELLS) \<longleftrightarrow> PAGE_SIZE < leaf_bytes l + SLOT_ELEM_SIZE + b"
    using cell_limit_redundant [of l] by (auto simp: leaf_bytes_eq)
  define l' where "l' = l\<lparr>records := records l @ [?r],
      slot_array := take i (slot_array l) @ word_of_nat (length (records l)) # drop i (slot_array l),
      free_size := if unat (free_size l) \<ge> b then free_size l - word_of_nat b else 0\<rparr>"
  have run: "insert_record k v l =
      (if PAGE_SIZE < leaf_bytes l + SLOT_ELEM_SIZE + b then (Err PageFull, l) else (Ok (), l'))"
    using len i(1) unfolding check [symmetric]
    by (simp add: insert_record_def footer_sum [OF sl] b_def [symmetric] l'_def Let_def)
  then show "PAGE_SIZE < leaf_bytes l + SLOT_ELEM_SIZE + b \<Longrightarrow> insert_record k v l = (Err PageFull, l)"
    by simp
  assume fits: "leaf_bytes l + SLOT_ELEM_SIZE + b \<le> PAGE_SIZE"
  have n: "length (records l) < 65536"
    using leaf_bytes_ge [of l] fits slots_wfD(3) [OF sl] by (simp add: size_consts)
  have add: "slot_records l' = take i (slot_records l) @ ?r # drop i (slot_records l)" "slots_wf l'"
    by (rule slot_records_add [OF sl i(2) n]; simp add: l'_def)+
  have asc': "keys_ascend (take i (slot_records l) @ ?r # drop i (slot_records l))"
    using i(3,4) by (intro keys_ascend_insert [OF asc]) auto
  have wf': "leaf_wf l'" using wf len add asc' by (auto simp: leaf_wf_def l'_def)
  have map: "leaf_map l' = (leaf_map l)(k \<mapsto> v)"
    using rec_map_insert [OF asc' asc] by (simp add: leaf_map_def add(1))
  have "sum_list (map rec_bytes (slot_records l)) =
      sum_list (map rec_bytes (take i (slot_records l))) + sum_list (map rec_bytes (drop i (slot_records l)))"
    by (simp flip: sum_list_append map_append)
  then have bytes: "leaf_bytes l' = leaf_bytes l + b"
    by (simp add: leaf_bytes_def add(1) rec_bytes_def b_def)
  have exact: "free_size_exact l'" if ex: "free_size_exact l"
  proof -
    have u: "unat (free_size l) = PAGE_SIZE - leaf_bytes l" using ex by (simp add: free_size_exact_def)
    with fits have le: "b \<le> unat (free_size l)" by simp
    have "b < 65536" using len by (simp add: b_def size_consts)
    then have "unat (free_size l - word_of_nat b) = unat (free_size l) - b"
      using le by (simp add: unat_sub word_le_nat_alt unat_word_of_nat_u16)
    moreover have "free_size l' = free_size l - word_of_nat b" using le by (simp add: l'_def)
    ultimately show ?thesis using u by (simp add: free_size_exact_def bytes)
  qed
  show "\<exists>l'. insert_record k v l = (Ok (), l') \<and> leaf_wf l' \<and> leaf_fits l' \<and>
      (free_size_exact l \<longrightarrow> free_size_exact l') \<and>
      leaf_map l' = (leaf_map l)(k \<mapsto> v) \<and> leaf_bytes l' = leaf_bytes l + b \<and>
      set (records l') = insert ?r (set (records l))"
    using run fits wf' exact map bytes by (intro exI [of _ l']) (auto simp: leaf_fits_def l'_def)
qed

section \<open>Update and deletion\<close>

definition key_present :: "leaf_node \<Rightarrow> u64 \<Rightarrow> bool" where
  "key_present l k \<longleftrightarrow> k \<in> row_id ` set (records l)"

lemma find_slot_cases:
  assumes "leaf_wf l"
  obtains (found) i where "find_slot k l = Ok (unat (slot_array l ! i))" "key_present l k"
      "i < length (slot_array l)" "row_id (slot_records l ! i) = k"
      "unat (slot_array l ! i) < length (records l)"
      "slot_records l ! i = records l ! unat (slot_array l ! i)"
  | (absent) "find_slot k l = Err (KeyNotFound k)" "\<not> key_present l k"
  using assms
proof (cases rule: leaf_search [of l k])
  case (found i)
  then have "slot_records l ! i \<in> set (slot_records l)" by (metis nth_mem slot_records_length)
  with found(3) have "key_present l k"
    unfolding key_present_def row_ids_slot_records [OF assms, symmetric] by blast
  with found show ?thesis by (intro that(1) [of i]) (simp_all add: find_slot_def run_simps)
next
  case (absent i)
  then show ?thesis
    using assms by (intro that(2)) (simp_all add: find_slot_def key_present_def row_ids_slot_records)
qed

lemma leaf_map_present:
  assumes "leaf_wf l"
  shows "leaf_map l k \<noteq> None \<longleftrightarrow> key_present l k \<and> \<not> tombstoned l k"
    and "tombstoned l k \<Longrightarrow> key_present l k"
    and "tombstoned l k \<Longrightarrow> leaf_map l k = None"
proof -
  have "(leaf_map l k \<noteq> None \<longleftrightarrow> key_present l k \<and> \<not> tombstoned l k) \<and>
      (tombstoned l k \<longrightarrow> key_present l k \<and> leaf_map l k = None)"
    using assms
  proof (cases rule: find_slot_cases [of l k])
    case (found i)
    then show ?thesis using leaf_map_found [OF assms found(3)] by auto
  next
    case absent
    then show ?thesis using leaf_map_absent [OF assms, of k] by (auto simp: tombstoned_def key_present_def)
  qed
  then show "leaf_map l k \<noteq> None \<longleftrightarrow> key_present l k \<and> \<not> tombstoned l k"
    and "tombstoned l k \<Longrightarrow> key_present l k" and "tombstoned l k \<Longrightarrow> leaf_map l k = None"
    by blast+
qed

text \<open>An update of a key that is present, live or not, replaces the payload of its record.\<close>

lemma update_present:
  assumes "leaf_wf l" "length v < MAX_VALUE_SIZE" "key_present l k"
  obtains l' i where "update_record k v l = (Ok (), l')" "leaf_wf l'"
    "leaf_map l' = (if tombstoned l k then leaf_map l else (leaf_map l)(k \<mapsto> v))"
    "i < length (slot_array l)" "row_id (slot_records l ! i) = k"
    "leaf_bytes l' + length (data (slot_records l ! i)) = leaf_bytes l + length v"
    "free_size l' = free_size l" "tombstoned l' k = tombstoned l k"
  using assms(1)
proof (cases rule: find_slot_cases [of l k])
  case (found i)
  let ?r = "(slot_records l ! i)\<lparr>data := v\<rparr>"
  let ?l = "l\<lparr>records := (records l)[unat (slot_array l ! i) := ?r]\<rparr>"
  have run: "update_record k v l = (Ok (), ?l)"
    using found assms(2) by (simp add: update_record_def run_simps)
  have del: "is_deleted (slot_records l ! i) = tombstoned l k"
    using leaf_map_found(2) [OF assms(1) found(3)] found(4) by simp
  have map: "leaf_map ?l = (leaf_map l)(k := if is_deleted ?r then None else Some v)"
    using leaf_map_replace [OF assms(1) found(3), of ?r] found(4) by simp
  have wf: "leaf_wf ?l"
    using leaf_wf_replace [OF assms(1) found(3), of ?r] assms(2) by simp
  have bytes: "leaf_bytes ?l + length (data (slot_records l ! i)) = leaf_bytes l + length v"
    using leaf_bytes_replace [OF assms(1) found(3), of ?r] by (simp add: rec_bytes_def)
  have sr: "slot_records ?l ! i = ?r"
    using slot_records_replace [of l i ?r] assms(1) found(3) by (simp add: leaf_wf_def)
  have tomb: "tombstoned ?l k = tombstoned l k"
    using leaf_map_found(2) [OF wf, of i] found(3,4) del unfolding sr by simp
  show ?thesis
    using leaf_map_present(3) [OF assms(1), of k] del map
    by (intro that [OF run wf _ found(3,4) bytes _ tomb]) auto
next
  case absent
  then show ?thesis using assms(3) by simp
qed

lemma update_absent:
  assumes "leaf_wf l" "length v < MAX_VALUE_SIZE" "\<not> key_present l k"
  shows "update_record k v l = (Err (KeyNotFound k), l)"
  using assms(1) by (cases rule: find_slot_cases [of l k]) (use assms in \<open>simp_all add: update_record_def\<close>)

lemma delete_present:
  assumes "leaf_wf l" "key_present l k"
  obtains l' where "delete_record k l = (Ok (), l')" "leaf_wf l'"
    "leaf_map l' = (leaf_map l)(k := None)" "tombstoned l' k"
    "leaf_bytes l' = leaf_bytes l" "free_size l' = free_size l"
    "slot_records l' = map (\<lambda>r. if row_id r = k then r\<lparr>is_deleted := True\<rparr> else r) (slot_records l)"
  using assms(1)
proof (cases rule: find_slot_cases [of l k])
  case (found i)
  let ?r = "(slot_records l ! i)\<lparr>is_deleted := True\<rparr>"
  let ?l = "l\<lparr>records := (records l)[unat (slot_array l ! i) := ?r]\<rparr>"
  have run: "delete_record k l = (Ok (), ?l)"
    using found by (simp add: delete_record_def run_simps)
  have len: "length (data (slot_records l ! i)) \<le> MAX_VALUE_SIZE"
    using leaf_wf_sizes [OF assms(1)] found(3) by simp
  have map: "leaf_map ?l = (leaf_map l)(k := None)"
    using leaf_map_replace [OF assms(1) found(3), of ?r] found(4) by simp
  have wf: "leaf_wf ?l" using leaf_wf_replace [OF assms(1) found(3), of ?r] len by simp
  have bytes: "leaf_bytes ?l = leaf_bytes l"
    using leaf_bytes_replace [OF assms(1) found(3), of ?r] by (simp add: rec_bytes_def)
  have sr: "slot_records ?l = (slot_records l)[i := ?r]"
    using slot_records_replace [of l i ?r] assms(1) found(3) by (simp add: leaf_wf_def)
  then have "slot_records ?l ! i = ?r" using found(3) by simp
  then have tomb: "tombstoned ?l k"
    using leaf_map_found(2) [OF wf, of i] found(3,4) by simp
  have "keys_ascend (slot_records l)" using assms(1) by (simp add: leaf_wf_def)
  from update_as_map [OF this, of i "\<lambda>r. r\<lparr>is_deleted := True\<rparr>"] found(3,4)
  have marked: "slot_records ?l = map (\<lambda>r. if row_id r = k then r\<lparr>is_deleted := True\<rparr> else r) (slot_records l)"
    unfolding sr by simp
  show ?thesis by (rule that [OF run wf map tomb bytes _ marked]) simp
next
  case absent
  then show ?thesis using assms(2) by simp
qed

lemma delete_absent:
  assumes "leaf_wf l" "\<not> key_present l k"
  shows "delete_record k l = (Err (KeyNotFound k), l)"
  using assms(1) by (cases rule: find_slot_cases [of l k]) (use assms in \<open>simp_all add: delete_record_def\<close>)

section \<open>Splitting\<close>

lemma split_loop_spec:
  "(\<And>s. s \<in> set ss \<Longrightarrow> unat s < length recs) \<Longrightarrow>
   split_loop recs ss sib = (Ok (), sib\<lparr>records := records sib @ map (\<lambda>s. recs ! unat s) ss,
     slot_array := slot_array sib @
       map word_of_nat [length (records sib)..<length (records sib) + length ss]\<rparr>)"
proof (induction ss arbitrary: sib)
  case (Cons s ss)
  then show ?case by (simp add: run_simps Let_def upt_conv_Cons del: upt_Suc)
qed simp

text \<open>A sibling as \<open>new_page(true)\<close> hands it out has no records yet.\<close>

definition fresh_leaf :: "leaf_node \<Rightarrow> bool" where
  "fresh_leaf l \<longleftrightarrow> records l = [] \<and> slot_array l = []"

text \<open>
  The two halves a split makes of a well-formed leaf: the live records of the lower and of
  the upper half of the slots.
\<close>

definition lower_half :: "leaf_node \<Rightarrow> db_record list" where
  "lower_half l = take (length (slot_array l) div 2) (slot_records l)"

definition upper_half :: "leaf_node \<Rightarrow> db_record list" where
  "upper_half l = drop (length (slot_array l) div 2) (slot_records l)"

lemma halves_append: "lower_half l @ upper_half l = slot_records l"
  by (simp add: lower_half_def upper_half_def)

lemma halves_bytes: "live_bytes (lower_half l) \<le> leaf_bytes l" "live_bytes (upper_half l) \<le> leaf_bytes l"
proof -
  have "sum_list (map rec_bytes (slot_records l)) =
      sum_list (map rec_bytes (lower_half l)) + sum_list (map rec_bytes (upper_half l))"
    by (simp flip: halves_append)
  then show "live_bytes (lower_half l) \<le> leaf_bytes l" "live_bytes (upper_half l) \<le> leaf_bytes l"
    using live_bytes_le [of "lower_half l"] live_bytes_le [of "upper_half l"]
    by (simp_all add: leaf_bytes_def)
qed

lemma split_spec:
  assumes wf: "leaf_wf l" and fits: "leaf_fits l" and fresh: "fresh_leaf sib"
  obtains l' sib' where
    "split (l, sib) =
       (if live (upper_half l) = [] then Err (CorruptPage EmptyRightSibling)
        else Ok (row_id (hd (live (upper_half l)))), (l', sib'))"
    "leaf_wf l'" "leaf_fits l'" "leaf_wf sib'" "leaf_fits sib'"
    "slot_records l' = live (lower_half l)" "slot_records sib' = live (upper_half l)"
    "leaf_bytes l' = live_bytes (lower_half l)" "leaf_bytes sib' = live_bytes (upper_half l)"
    "free_size_exact l'" "free_size_exact sib'"
    "l' = l\<lparr>records := records l', slot_array := slot_array l', free_size := free_size l'\<rparr>"
    "sib' = sib\<lparr>records := records sib', slot_array := slot_array sib', free_size := free_size sib'\<rparr>"
proof -
  let ?mid = "length (slot_array l) div 2"
  have sl: "slots_wf l" and asc: "keys_ascend (slot_records l)" using wf by (auto simp: leaf_wf_def)
  have asc2: "keys_ascend (lower_half l)" "keys_ascend (upper_half l)"
    using asc by (simp_all add: sorted_wrt_append flip: halves_append)
  have set2: "set (lower_half l) \<subseteq> set (slot_records l)" "set (upper_half l) \<subseteq> set (slot_records l)"
    by (auto simp flip: halves_append)
  have sizes: "\<forall>r \<in> set (lower_half l). length (data r) \<le> MAX_VALUE_SIZE"
      "\<forall>r \<in> set (upper_half l). length (data r) \<le> MAX_VALUE_SIZE"
    using leaf_wf_sizes [OF wf] set2 by blast+
  have len: "length (lower_half l) \<le> 65536" "length (upper_half l) \<le> 65536"
    using leaf_wf_length [OF wf] by (simp_all add: lower_half_def upper_half_def)
  have small: "live_bytes (lower_half l) \<le> PAGE_SIZE" "live_bytes (upper_half l) \<le> PAGE_SIZE"
    using halves_bytes [of l] fits by (auto simp: leaf_fits_def)
  have upper: "map (\<lambda>s. records l ! unat s) (drop ?mid (slot_array l)) = upper_half l"
    by (simp add: upper_half_def slot_records_def drop_map)
  let ?sib = "packed (upper_half l) sib"
  have loop: "split_loop (records l) (drop ?mid (slot_array l)) sib = (Ok (), ?sib)"
    using slots_wfD(1) [OF sl] fresh split_loop_spec [of "drop ?mid (slot_array l)" "records l" sib]
    by (auto simp: upper packed_def fresh_leaf_def upper_half_def dest: in_set_dropD)
  let ?low = "l\<lparr>slot_array := take ?mid (slot_array l)\<rparr>"
  have srl: "slot_records ?low = lower_half l"
    by (simp add: slot_records_def lower_half_def take_map)
  let ?l' = "(packed (live (lower_half l)) l)\<lparr>free_size := word_of_nat (PAGE_SIZE - live_bytes (lower_half l))\<rparr>"
  let ?s' = "(packed (live (upper_half l)) sib)\<lparr>free_size := word_of_nat (PAGE_SIZE - live_bytes (upper_half l))\<rparr>"
  have cl: "compact ?low = (Ok (), ?l')"
    using compact_eq [of ?low] slots_wfD(1) [OF sl] small(1)
    by (auto simp: srl Let_def packed_def dest: in_set_takeD)
  have cs: "compact ?sib = (Ok (), ?s')"
    using compact_eq [of ?sib] slots_wfD(1) [OF slots_wf_packed [OF len(2)], of _ sib] small(2)
    by (simp add: slot_records_packed [OF len(2)] Let_def) (simp add: packed_def)
  note spec = compacted_spec [OF asc2(1) sizes(1) len(1) small(1) refl, of l]
    compacted_spec [OF asc2(2) sizes(2) len(2) small(2) refl, of sib]
  have run: "split (l, sib) =
       (if live (upper_half l) = [] then Err (CorruptPage EmptyRightSibling)
        else Ok (row_id (hd (live (upper_half l)))), (?l', ?s'))"
  proof (cases "live (upper_half l)")
    case Nil
    then show ?thesis using loop cl cs by (simp add: split_def on_fst_def on_snd_def Let_def packed_def)
  next
    case (Cons r rs)
    have ne: "slot_array ?s' \<noteq> []" using Cons by simp
    have "slot_array ?s' ! 0 = 0" using Cons by (simp add: packed_def upt_conv_Cons del: upt_Suc)
    with ne Cons show ?thesis
      using loop cl cs by (simp add: split_def on_fst_def on_snd_def Let_def run_simps)
  qed
  show ?thesis
    by (rule that [OF run spec(1,2) spec(7,8) spec(5) spec(11) spec(6) spec(12) spec(3) spec(9)])
      (simp_all add: packed_def)
qed

end
