(* ===== verification/Btree_Node.thy ===== *)
theory Btree_Node
  imports Leaf_Spec
begin

text \<open>
  Internal routing pages (\<open>InternalNode\<close>, \<open>route_key\<close>) and the sum of both page kinds
  (\<open>BTreeNode\<close>) with its dirty flag and log sequence number, from \<open>src/storage/page.rs\<close>.
\<close>

section \<open>Internal nodes\<close>

record index_entry =
  key :: u64
  child_page_id :: u64

record internal_node =
  inner_page_id :: page_id
  inner_last_lsn :: u64
  rightmost_child_id :: page_id
  inner_slot_array :: "u16 list"
  entries :: "index_entry list"
  inner_free_size :: u16
  inner_is_dirty :: bool

definition index_entry_default :: index_entry where
  "index_entry_default = \<lparr>key = 0, child_page_id = 0\<rparr>"

definition internal_default :: internal_node where
  "internal_default = \<lparr>inner_page_id = 0, inner_last_lsn = 0, rightmost_child_id = 0,
     inner_slot_array = [], entries = [], inner_free_size = 0, inner_is_dirty = False\<rparr>"

definition route_key :: "internal_node \<Rightarrow> u64 \<Rightarrow> page_id result" where
  "route_key self target_key =
     and_then (partition_point (\<lambda>slot_idx.
         and_then (index (entries self) (unat slot_idx)) (\<lambda>entry. Ok (key entry \<le> target_key)))
       (inner_slot_array self)) (\<lambda>partition_idx.
     if partition_idx = length (inner_slot_array self) then Ok (rightmost_child_id self)
     else and_then (index (inner_slot_array self) partition_idx) (\<lambda>s.
          and_then (index (entries self) (unat s)) (\<lambda>entry. Ok (child_page_id entry))))"

section \<open>Nodes\<close>

datatype node_type = InternalTag | LeafTag

text \<open>The discriminants of \<open>NodeType\<close> as the encoder casts them.\<close>

primrec node_type_u8 :: "node_type \<Rightarrow> u8" where
  "node_type_u8 InternalTag = 0"
| "node_type_u8 LeafTag = 1"

datatype btree_node = Internal internal_node | Leaf leaf_node

definition new_empty :: "page_id \<Rightarrow> bool \<Rightarrow> btree_node" where
  "new_empty pid is_leaf =
     (if is_leaf then Leaf (leaf_default\<lparr>page_id := pid\<rparr>)
      else Internal (internal_default\<lparr>inner_page_id := pid\<rparr>))"

fun node_is_dirty :: "btree_node \<Rightarrow> bool" where
  "node_is_dirty (Internal node) = inner_is_dirty node"
| "node_is_dirty (Leaf node) = is_dirty node"

fun clear_dirty :: "btree_node \<Rightarrow> btree_node" where
  "clear_dirty (Internal node) = Internal (node\<lparr>inner_is_dirty := False\<rparr>)"
| "clear_dirty (Leaf node) = Leaf (node\<lparr>is_dirty := False\<rparr>)"

fun mark_dirty :: "u64 \<Rightarrow> btree_node \<Rightarrow> btree_node" where
  "mark_dirty lsn (Internal node) = Internal (node\<lparr>inner_last_lsn := lsn, inner_is_dirty := True\<rparr>)"
| "mark_dirty lsn (Leaf node) = Leaf (node\<lparr>last_lsn := lsn, is_dirty := True\<rparr>)"

fun get_last_lsn :: "btree_node \<Rightarrow> u64" where
  "get_last_lsn (Internal node) = inner_last_lsn node"
| "get_last_lsn (Leaf node) = last_lsn node"

fun set_last_lsn :: "u64 \<Rightarrow> btree_node \<Rightarrow> btree_node" where
  "set_last_lsn lsn (Internal node) = Internal (node\<lparr>inner_last_lsn := lsn\<rparr>)"
| "set_last_lsn lsn (Leaf node) = Leaf (node\<lparr>last_lsn := lsn\<rparr>)"

lemma node_flag_simps [simp]:
  "get_last_lsn (mark_dirty lsn n) = lsn" "node_is_dirty (mark_dirty lsn n)"
  "get_last_lsn (clear_dirty n) = get_last_lsn n" "\<not> node_is_dirty (clear_dirty n)"
  "get_last_lsn (set_last_lsn lsn n) = lsn" "node_is_dirty (set_last_lsn lsn n) = node_is_dirty n"
  "get_last_lsn (new_empty pid b) = 0" "\<not> node_is_dirty (new_empty pid b)"
  by (cases n; simp add: new_empty_def internal_default_def leaf_default_def)+

section \<open>Well-formed internal nodes and routing\<close>

definition slot_entries :: "internal_node \<Rightarrow> index_entry list" where
  "slot_entries n = map (\<lambda>s. entries n ! unat s) (inner_slot_array n)"

definition inner_wf :: "internal_node \<Rightarrow> bool" where
  "inner_wf n \<longleftrightarrow> mset (map unat (inner_slot_array n)) = mset [0..<length (entries n)] \<and>
     sorted (map key (slot_entries n))"

lemma inner_wf_range: "inner_wf n \<Longrightarrow> s \<in> set (inner_slot_array n) \<Longrightarrow> unat s < length (entries n)"
  unfolding inner_wf_def using slot_permD(1) by blast

text \<open>
  The specification of routing: the child of the first entry whose key is above the target,
  or the rightmost child.
\<close>

definition routed_child :: "index_entry list \<Rightarrow> page_id \<Rightarrow> u64 \<Rightarrow> page_id" where
  "routed_child es rightmost k =
     (case filter (\<lambda>e. k < key e) es of [] \<Rightarrow> rightmost | e # _ \<Rightarrow> child_page_id e)"

lemma filter_split_at:
  assumes "i \<le> length xs" "\<And>j. j < i \<Longrightarrow> \<not> P (xs ! j)" "\<And>j. i \<le> j \<Longrightarrow> j < length xs \<Longrightarrow> P (xs ! j)"
  shows "filter P xs = drop i xs"
proof -
  have "filter P (take i xs) = []" using assms(1,2) by (auto simp: filter_empty_conv in_set_conv_nth)
  moreover have "filter P (drop i xs) = drop i xs"
    using assms(3) by (auto simp: filter_id_conv in_set_conv_nth)
  moreover have "filter P xs = filter P (take i xs) @ filter P (drop i xs)"
    by (metis append_take_drop_id filter_append)
  ultimately show ?thesis by simp
qed

lemma route_key_eq:
  assumes "inner_wf n"
  shows "route_key n k = Ok (routed_child (slot_entries n) (rightmost_child_id n) k)"
proof -
  let ?xs = "inner_slot_array n" and ?f = "\<lambda>s. key (entries n ! unat s) \<le> k"
  have pred: "and_then (index (entries n) (unat s)) (\<lambda>entry. Ok (key entry \<le> k)) = Ok (?f s)"
    if "s \<in> set ?xs" for s
    using inner_wf_range [OF assms that] by (simp add: run_simps)
  have mono: "sorted_wrt (\<lambda>x y. ?f y \<longrightarrow> ?f x) ?xs"
  proof (rule sorted_wrt_mapI)
    show "sorted_wrt (\<lambda>x y. key (entries n ! unat x) \<le> key (entries n ! unat y)) ?xs"
      using assms by (simp add: inner_wf_def slot_entries_def sorted_wrt_map)
  qed (auto intro: order_trans)
  show ?thesis
  proof (rule partition_point_spec [OF pred mono])
    fix i assume i: "partition_point (\<lambda>s. and_then (index (entries n) (unat s))
        (\<lambda>entry. Ok (key entry \<le> k))) ?xs = Ok i"
      "i \<le> length ?xs" "\<And>j. j < i \<Longrightarrow> ?f (?xs ! j)" "\<And>j. i \<le> j \<Longrightarrow> j < length ?xs \<Longrightarrow> \<not> ?f (?xs ! j)"
    have "filter (\<lambda>e. k < key e) (slot_entries n) = drop i (slot_entries n)"
      using i(2-4) by (intro filter_split_at) (auto simp: slot_entries_def not_le not_less)
    moreover have "drop i (slot_entries n) = slot_entries n ! i # drop (Suc i) (slot_entries n)"
      if "i < length ?xs"
      using that Cons_nth_drop_Suc [of i "slot_entries n"] by (simp add: slot_entries_def)
    ultimately show ?thesis
      using i(1,2) inner_wf_range [OF assms, of "?xs ! i"]
      by (auto simp: route_key_def routed_child_def run_simps slot_entries_def)
  qed
qed

section \<open>Properties\<close>

text \<open>
  C31: \<open>route_key\<close> on a well-formed internal node never panics and returns the child of the
  first entry (in key order) whose key is above the target, or the rightmost child when there
  is none: every skipped entry has a key at or below the target.
\<close>

theorem route_key_correct:
  assumes "inner_wf n" "slot_entries n = lo @ hi"
    and "\<forall>e \<in> set lo. key e \<le> k" "\<forall>e \<in> set hi. k < key e"
  shows "route_key n k = Ok (if hi = [] then rightmost_child_id n else child_page_id (hd hi))"
proof -
  have "filter (\<lambda>e. k < key e) lo = []" using assms(3) by (auto simp: filter_empty_conv not_less)
  moreover have "filter (\<lambda>e. k < key e) hi = hi" using assms(4) by (simp add: filter_id_conv)
  ultimately show ?thesis
    using route_key_eq [OF assms(1)] by (simp add: assms(2) routed_child_def split: list.split)
qed

definition sample_inner :: internal_node where
  "sample_inner = internal_default\<lparr>inner_slot_array := [1, 0], rightmost_child_id := 8192,
     entries := [\<lparr>key = 20, child_page_id = 12288\<rparr>, \<lparr>key = 10, child_page_id = 4096\<rparr>]\<rparr>"

lemma sample_inner_facts: "inner_wf sample_inner"
  "slot_entries sample_inner =
     [\<lparr>key = 10, child_page_id = 4096\<rparr>, \<lparr>key = 20, child_page_id = 12288\<rparr>]"
  "rightmost_child_id sample_inner = 8192"
  by (simp_all add: sample_inner_def internal_default_def inner_wf_def slot_entries_def upt_rec)

theorem route_key_correct_witness:
  "route_key sample_inner 15 = Ok 12288 \<and> route_key sample_inner 20 = Ok 8192"
  using route_key_correct [OF sample_inner_facts(1),
      of "[\<lparr>key = 10, child_page_id = 4096\<rparr>]" "[\<lparr>key = 20, child_page_id = 12288\<rparr>]" 15]
    route_key_correct [OF sample_inner_facts(1), of "slot_entries sample_inner" "[]" 20]
  by (simp add: sample_inner_facts(2,3))

end
