(* ===== verification/Byte_Cursor.thy ===== *)
theory Byte_Cursor
  imports Smol_Prelude
begin

text \<open>
  Little-endian integers and \<open>ByteCursor\<close>, the sequential reader and writer over a byte
  buffer with which \<open>src/storage/page.rs\<close> lays out its pages. Reads and writes past the end
  of the buffer panic. Reads are described by the bytes that remain in front of the cursor
  (\<open>rest\<close>), writes by the bytes they append behind it.
\<close>

section \<open>Little-endian bytes\<close>

primrec le_bytes :: "nat \<Rightarrow> nat \<Rightarrow> u8 list" where
  "le_bytes 0 n = []"
| "le_bytes (Suc k) n = word_of_nat (n mod 256) # le_bytes k (n div 256)"

primrec le_nat :: "u8 list \<Rightarrow> nat" where
  "le_nat [] = 0"
| "le_nat (b # bs) = unat b + 256 * le_nat bs"

definition u16_to_le :: "u16 \<Rightarrow> u8 list" where "u16_to_le w = le_bytes 2 (unat w)"
definition u32_to_le :: "u32 \<Rightarrow> u8 list" where "u32_to_le w = le_bytes 4 (unat w)"
definition u64_to_le :: "u64 \<Rightarrow> u8 list" where "u64_to_le w = le_bytes 8 (unat w)"

definition u16_from_le :: "u8 list \<Rightarrow> u16" where "u16_from_le bs = word_of_nat (le_nat bs)"
definition u32_from_le :: "u8 list \<Rightarrow> u32" where "u32_from_le bs = word_of_nat (le_nat bs)"
definition u64_from_le :: "u8 list \<Rightarrow> u64" where "u64_from_le bs = word_of_nat (le_nat bs)"

lemma length_le_bytes [simp]: "length (le_bytes k n) = k"
  by (induction k arbitrary: n) auto

lemma le_nat_le_bytes: "le_nat (le_bytes k n) = n mod 256 ^ k"
proof (induction k arbitrary: n)
  case (Suc k)
  have "unat (word_of_nat (n mod 256) :: u8) = n mod 256"
    by (simp add: unat_of_nat)
  with Suc show ?case by (simp add: mod_mult2_eq)
qed simp

lemma le_nat_bound: "le_nat bs < 256 ^ length bs"
proof (induction bs)
  case (Cons b bs)
  have "unat b < 256" by (rule unat_word_bounds)
  with Cons show ?case by simp
qed simp

lemma le_bytes_le_nat: "le_bytes (length bs) (le_nat bs) = bs"
proof (induction bs)
  case (Cons b bs)
  have "unat b < 256" by (rule unat_word_bounds)
  then have "(unat b + 256 * le_nat bs) mod 256 = unat b" "(unat b + 256 * le_nat bs) div 256 = le_nat bs"
    by simp_all
  with Cons show ?case by simp
qed simp

lemma length_to_le [simp]:
  "length (u16_to_le a) = 2" "length (u32_to_le b) = 4" "length (u64_to_le c) = 8"
  by (simp_all add: u16_to_le_def u32_to_le_def u64_to_le_def)

lemma from_le_to_le [simp]:
  "u16_from_le (u16_to_le a) = a" "u32_from_le (u32_to_le b) = b" "u64_from_le (u64_to_le c) = c"
  using unat_word_bounds(2) [of a] unat_word_bounds(3) [of b] unat_word_bounds(4) [of c]
  by (simp_all add: u16_from_le_def u16_to_le_def u32_from_le_def u32_to_le_def
      u64_from_le_def u64_to_le_def le_nat_le_bytes)

lemma u32_to_le_from_le: "length bs = 4 \<Longrightarrow> u32_to_le (u32_from_le bs) = bs"
  using le_nat_bound [of bs] le_bytes_le_nat [of bs]
  by (simp add: u32_to_le_def u32_from_le_def unat_of_nat)

lemma u64_to_le_from_le: "length bs = 8 \<Longrightarrow> u64_to_le (u64_from_le bs) = bs"
  using le_nat_bound [of bs] le_bytes_le_nat [of bs]
  by (simp add: u64_to_le_def u64_from_le_def unat_of_nat)

section \<open>Slices\<close>

text \<open>\<open>buf[p..p + n]\<close>, and \<open>buf[p..p + n].copy_from_slice(bs)\<close>.\<close>

definition slice :: "u8 list \<Rightarrow> usize \<Rightarrow> usize \<Rightarrow> u8 list result" where
  "slice buf p n = (if p + n \<le> length buf then Ok (take n (drop p buf)) else Panic OutOfBounds)"

definition copy_into :: "u8 list \<Rightarrow> usize \<Rightarrow> u8 list \<Rightarrow> u8 list result" where
  "copy_into buf p bs =
     (if p + length bs \<le> length buf then Ok (take p buf @ bs @ drop (p + length bs) buf)
      else Panic OutOfBounds)"

section \<open>The cursor\<close>

record byte_cursor =
  buffer :: "u8 list"
  pos :: usize

definition cursor_new :: "u8 list \<Rightarrow> byte_cursor" where
  "cursor_new buf = \<lparr>buffer = buf, pos = 0\<rparr>"

text \<open>The direct assignment \<open>cursor.pos += n\<close>.\<close>

definition advance :: "usize \<Rightarrow> byte_cursor \<Rightarrow> byte_cursor" where
  "advance n c = c\<lparr>pos := pos c + n\<rparr>"

definition write_u8 :: "u8 \<Rightarrow> byte_cursor \<Rightarrow> byte_cursor result" where
  "write_u8 v c = and_then (update_index (buffer c) (pos c) v)
     (\<lambda>buf. Ok (c\<lparr>buffer := buf, pos := pos c + 1\<rparr>))"

definition write_u16 :: "u16 \<Rightarrow> byte_cursor \<Rightarrow> byte_cursor result" where
  "write_u16 v c = and_then (copy_into (buffer c) (pos c) (u16_to_le v))
     (\<lambda>buf. Ok (c\<lparr>buffer := buf, pos := pos c + 2\<rparr>))"

definition write_u32 :: "u32 \<Rightarrow> byte_cursor \<Rightarrow> byte_cursor result" where
  "write_u32 v c = and_then (copy_into (buffer c) (pos c) (u32_to_le v))
     (\<lambda>buf. Ok (c\<lparr>buffer := buf, pos := pos c + 4\<rparr>))"

definition write_u64 :: "u64 \<Rightarrow> byte_cursor \<Rightarrow> byte_cursor result" where
  "write_u64 v c = and_then (copy_into (buffer c) (pos c) (u64_to_le v))
     (\<lambda>buf. Ok (c\<lparr>buffer := buf, pos := pos c + 8\<rparr>))"

definition write_bytes :: "u8 list \<Rightarrow> byte_cursor \<Rightarrow> byte_cursor result" where
  "write_bytes bs c = and_then (copy_into (buffer c) (pos c) bs)
     (\<lambda>buf. Ok (c\<lparr>buffer := buf, pos := pos c + length bs\<rparr>))"

definition read_u8 :: "byte_cursor \<Rightarrow> (u8 \<times> byte_cursor) result" where
  "read_u8 c = and_then (index (buffer c) (pos c)) (\<lambda>v. Ok (v, c\<lparr>pos := pos c + 1\<rparr>))"

definition read_u16 :: "byte_cursor \<Rightarrow> (u16 \<times> byte_cursor) result" where
  "read_u16 c = and_then (slice (buffer c) (pos c) 2)
     (\<lambda>bs. Ok (u16_from_le bs, c\<lparr>pos := pos c + 2\<rparr>))"

definition read_u32 :: "byte_cursor \<Rightarrow> (u32 \<times> byte_cursor) result" where
  "read_u32 c = and_then (slice (buffer c) (pos c) 4)
     (\<lambda>bs. Ok (u32_from_le bs, c\<lparr>pos := pos c + 4\<rparr>))"

definition read_u64 :: "byte_cursor \<Rightarrow> (u64 \<times> byte_cursor) result" where
  "read_u64 c = and_then (slice (buffer c) (pos c) 8)
     (\<lambda>bs. Ok (u64_from_le bs, c\<lparr>pos := pos c + 8\<rparr>))"

definition read_bytes :: "usize \<Rightarrow> byte_cursor \<Rightarrow> (u8 list \<times> byte_cursor) result" where
  "read_bytes n c = and_then (slice (buffer c) (pos c) n)
     (\<lambda>bs. Ok (bs, c\<lparr>pos := pos c + n\<rparr>))"

section \<open>Writing\<close>

text \<open>Every write is \<open>write_bytes\<close> of an encoding, and consecutive writes concatenate.\<close>

lemma write_u8_eq: "write_u8 v = write_bytes [v]"
  by (rule ext) (simp add: write_u8_def write_bytes_def copy_into_def update_index_def
      upd_conv_take_nth_drop)

lemma write_word_eq:
  "write_u16 a = write_bytes (u16_to_le a)"
  "write_u32 b = write_bytes (u32_to_le b)"
  "write_u64 c = write_bytes (u64_to_le c)"
  by (rule ext, simp add: write_u16_def write_u32_def write_u64_def write_bytes_def)+

lemma write_bytes_append:
  "and_then (write_bytes bs c) (write_bytes cs) = write_bytes (bs @ cs) c"
proof (cases "bs = [] \<and> cs = []")
  case False
  then have "0 < length bs + length cs" by simp
  then have "length (buffer c) \<le> pos c \<Longrightarrow> \<not> pos c + (length bs + length cs) \<le> length (buffer c)"
    by linarith
  then show ?thesis by (auto simp: write_bytes_def copy_into_def min_def add_ac)
qed (auto simp: write_bytes_def copy_into_def)

lemma write_bytes_append_then:
  "and_then (write_bytes bs c) (\<lambda>d. and_then (write_bytes cs d) f) = and_then (write_bytes (bs @ cs) c) f"
  unfolding write_bytes_append [symmetric] by (cases "write_bytes bs c") simp_all

lemmas write_eqs = write_u8_eq write_word_eq write_bytes_append_then

lemma write_bytes_Ok:
  "pos c + length bs \<le> length (buffer c) \<Longrightarrow>
   write_bytes bs c = Ok \<lparr>buffer = take (pos c) (buffer c) @ bs @ drop (pos c + length bs) (buffer c),
                          pos = pos c + length bs\<rparr>"
  by (cases c) (simp add: write_bytes_def copy_into_def)

section \<open>Reading\<close>

definition rest :: "byte_cursor \<Rightarrow> u8 list" where
  "rest c = drop (pos c) (buffer c)"

lemma rest_cursor_new [simp]: "rest (cursor_new buf) = buf"
  by (simp add: rest_def cursor_new_def)

lemma cursor_fields [simp]:
  "pos (cursor_new buf) = 0" "buffer (cursor_new buf) = buf"
  "pos (advance n c) = pos c + n" "buffer (advance n c) = buffer c"
  by (simp_all add: cursor_new_def advance_def)

lemma rest_advance [simp]: "rest (advance n c) = drop n (rest c)"
  by (simp add: rest_def advance_def add.commute)

lemma advance_advance [simp]: "advance m (advance n c) = advance (n + m) c"
  by (simp add: advance_def add.assoc)

lemma read_Ok [run_simps]:
  "rest c \<noteq> [] \<Longrightarrow> read_u8 c = Ok (hd (rest c), advance 1 c)"
  "2 \<le> length (rest c) \<Longrightarrow> read_u16 c = Ok (u16_from_le (take 2 (rest c)), advance 2 c)"
  "4 \<le> length (rest c) \<Longrightarrow> read_u32 c = Ok (u32_from_le (take 4 (rest c)), advance 4 c)"
  "8 \<le> length (rest c) \<Longrightarrow> read_u64 c = Ok (u64_from_le (take 8 (rest c)), advance 8 c)"
  "n \<le> length (rest c) \<Longrightarrow> pos c \<le> length (buffer c) \<Longrightarrow>
     read_bytes n c = Ok (take n (rest c), advance n c)"
  by (auto simp: read_u8_def read_u16_def read_u32_def read_u64_def read_bytes_def slice_def
      index_def rest_def advance_def hd_drop_conv_nth)

text \<open>What a sequence of writes put down, the reads in the same order get back.\<close>

lemma cursor_primitives_roundtrip:
  assumes "write_bytes (v # u16_to_le a @ u32_to_le b @ u64_to_le d @ bs) (cursor_new buf) = Ok w"
  shows "and_then (read_u8 (cursor_new (buffer w))) (\<lambda>(x1, c1).
         and_then (read_u16 c1) (\<lambda>(x2, c2).
         and_then (read_u32 c2) (\<lambda>(x3, c3).
         and_then (read_u64 c3) (\<lambda>(x4, c4).
         and_then (read_bytes (length bs) c4) (\<lambda>(x5, c5). Ok (x1, x2, x3, x4, x5))))))
         = Ok (v, a, b, d, bs)"
proof -
  have w: "buffer w = v # u16_to_le a @ u32_to_le b @ u64_to_le d @ bs @ drop (15 + length bs) buf"
    using assms by (auto simp: write_bytes_def copy_into_def cursor_new_def split: if_splits)
  show ?thesis by (simp add: run_simps w)
qed

end
