(* ===== verification/Page_Codec.thy ===== *)
theory Page_Codec
  imports Btree_Node Byte_Cursor
begin

text \<open>
  The page format: \<open>BTreeNode::encode\<close> and \<open>BTreeNode::decode\<close> of \<open>src/storage/page.rs\<close>, over
  the byte cursor. A page is a header, the slot array, the free-space count, a gap of that
  many bytes that the encoder leaves as they were, and the cells in slot order up to the end.
\<close>

type_synonym page = "u8 list"

definition page_new :: page where
  "page_new = replicate PAGE_SIZE 0"

section \<open>Decoding\<close>

fun read_indices :: "nat \<Rightarrow> byte_cursor \<Rightarrow> (u16 list \<times> byte_cursor) result" where
  "read_indices 0 cursor = Ok ([], cursor)"
| "read_indices (Suc n) cursor =
     and_then (read_u16 cursor) (\<lambda>(i, cursor).
     and_then (read_indices n cursor) (\<lambda>(indices, cursor). Ok (i # indices, cursor)))"

fun read_cells :: "u16 list \<Rightarrow> db_record list \<Rightarrow> byte_cursor \<Rightarrow> (db_record list \<times> byte_cursor) result" where
  "read_cells [] cells cursor = Ok (cells, cursor)"
| "read_cells (cell_idx # indices) cells cursor =
     and_then (read_u64 cursor) (\<lambda>(k, cursor).
     and_then (read_u8 cursor) (\<lambda>(deleted, cursor).
     and_then (read_u32 cursor) (\<lambda>(n, cursor).
     and_then (read_bytes (unat n) cursor) (\<lambda>(v, cursor).
     and_then (update_index cells (unat cell_idx)
         \<lparr>row_id = k, data = v, is_deleted = (deleted \<noteq> 0)\<rparr>) (\<lambda>cells.
       read_cells indices cells cursor)))))"

fun read_entries :: "u16 list \<Rightarrow> index_entry list \<Rightarrow> byte_cursor \<Rightarrow>
    (index_entry list \<times> byte_cursor) result" where
  "read_entries [] es cursor = Ok (es, cursor)"
| "read_entries (entry_idx # indices) es cursor =
     and_then (read_u64 cursor) (\<lambda>(k, cursor).
     and_then (read_u64 cursor) (\<lambda>(child_index, cursor).
     and_then (update_index es (unat entry_idx) \<lparr>key = k, child_page_id = child_index\<rparr>) (\<lambda>es.
       read_entries indices es cursor)))"

definition decode_leaf :: "byte_cursor \<Rightarrow> btree_node result" where
  "decode_leaf cursor =
     and_then (read_u64 cursor) (\<lambda>(file_index, cursor).
     and_then (read_u64 cursor) (\<lambda>(lsn, cursor).
     and_then (read_u8 cursor) (\<lambda>(has_lsib, cursor).
     and_then (read_u8 cursor) (\<lambda>(has_rsib, cursor).
     and_then (read_u64 cursor) (\<lambda>(lsib_index, cursor).
     and_then (read_u64 cursor) (\<lambda>(rsib_index, cursor).
     and_then (read_u32 cursor) (\<lambda>(cell_count, cursor).
     and_then (read_indices (unat cell_count) cursor) (\<lambda>(indices, cursor).
     and_then (read_u16 cursor) (\<lambda>(free, cursor).
     and_then (read_cells indices (replicate (unat cell_count) db_record_default)
         (advance (unat free) cursor)) (\<lambda>(cells, cursor).
       Ok (Leaf \<lparr>page_id = file_index, last_lsn = lsn, has_prev = (has_lsib \<noteq> 0),
         has_next = (has_rsib \<noteq> 0), prev_page_id = lsib_index, next_page_id = rsib_index,
         slot_array = indices, records = cells, free_size = free, is_dirty = False\<rparr>)))))))))))"

definition decode_internal :: "byte_cursor \<Rightarrow> btree_node result" where
  "decode_internal cursor =
     and_then (read_u64 cursor) (\<lambda>(file_index, cursor).
     and_then (read_u64 cursor) (\<lambda>(lsn, cursor).
     and_then (read_u64 cursor) (\<lambda>(right_index, cursor).
     and_then (read_u32 cursor) (\<lambda>(entry_count, cursor).
     and_then (read_indices (unat entry_count) cursor) (\<lambda>(indices, cursor).
     and_then (read_u16 cursor) (\<lambda>(free, cursor).
     and_then (read_entries indices (replicate (unat entry_count) index_entry_default)
         (advance (unat free) cursor)) (\<lambda>(es, cursor).
       Ok (Internal \<lparr>inner_page_id = file_index, inner_last_lsn = lsn,
         rightmost_child_id = right_index, inner_slot_array = indices, entries = es,
         inner_free_size = free, inner_is_dirty = False\<rparr>))))))))"

definition decode :: "page \<Rightarrow> btree_node result" where
  "decode page =
     and_then (read_u8 (cursor_new page)) (\<lambda>(tag, cursor).
       if tag = 1 then decode_leaf cursor
       else if tag = 0 then decode_internal cursor
       else Err (CorruptPage (UnknownNodeType tag)))"

section \<open>Encoding\<close>

definition bool_u8 :: "bool \<Rightarrow> u8" where
  "bool_u8 b = (if b then 1 else 0)"

fun write_indices :: "u16 list \<Rightarrow> byte_cursor \<Rightarrow> byte_cursor result" where
  "write_indices [] cursor = Ok cursor"
| "write_indices (i # indices) cursor = and_then (write_u16 i cursor) (write_indices indices)"

fun write_cells :: "db_record list \<Rightarrow> u16 list \<Rightarrow> byte_cursor \<Rightarrow> byte_cursor result" where
  "write_cells recs [] cursor = Ok cursor"
| "write_cells recs (i # indices) cursor =
     and_then (index recs (unat i)) (\<lambda>cell.
     and_then (write_u64 (row_id cell) cursor) (\<lambda>cursor.
     and_then (write_u8 (bool_u8 (is_deleted cell)) cursor) (\<lambda>cursor.
     and_then (write_u32 (word_of_nat (length (data cell))) cursor) (\<lambda>cursor.
     and_then (write_bytes (data cell) cursor) (write_cells recs indices)))))"

fun write_entries :: "index_entry list \<Rightarrow> u16 list \<Rightarrow> byte_cursor \<Rightarrow> byte_cursor result" where
  "write_entries es [] cursor = Ok cursor"
| "write_entries es (i # indices) cursor =
     and_then (index es (unat i)) (\<lambda>cell.
     and_then (write_u64 (key cell) cursor) (\<lambda>cursor.
     and_then (write_u64 (child_page_id cell) cursor) (write_entries es indices)))"

definition encode_leaf :: "leaf_node \<Rightarrow> page \<Rightarrow> page result" where
  "encode_leaf node page =
     (let header_len = LEAF_NODE_HEADER_SIZE + length (slot_array node) * SLOT_ELEM_SIZE
      in and_then (map_result (slot_size node) (slot_array node)) (\<lambda>sizes.
         let footer_len = sum_list sizes
         in if header_len + footer_len > PAGE_SIZE then Err PageFull
            else let free = word_of_nat (PAGE_SIZE - header_len - footer_len) in
              and_then (write_u8 (node_type_u8 LeafTag) (cursor_new page)) (\<lambda>cursor.
              and_then (write_u64 (page_id node) cursor) (\<lambda>cursor.
              and_then (write_u64 (last_lsn node) cursor) (\<lambda>cursor.
              and_then (write_u8 (bool_u8 (has_prev node)) cursor) (\<lambda>cursor.
              and_then (write_u8 (bool_u8 (has_next node)) cursor) (\<lambda>cursor.
              and_then (write_u64 (prev_page_id node) cursor) (\<lambda>cursor.
              and_then (write_u64 (next_page_id node) cursor) (\<lambda>cursor.
              and_then (write_u32 (word_of_nat (length (slot_array node))) cursor) (\<lambda>cursor.
              and_then (write_indices (slot_array node) cursor) (\<lambda>cursor.
              and_then (write_u16 free cursor) (\<lambda>cursor.
              and_then (write_cells (records node) (slot_array node) (advance (unat free) cursor)) (\<lambda>cursor.
                Ok (buffer cursor))))))))))))))"

definition encode_internal :: "internal_node \<Rightarrow> page \<Rightarrow> page result" where
  "encode_internal node page =
     (let header_len = INTERNAL_NODE_HEADER_SIZE + length (inner_slot_array node) * SLOT_ELEM_SIZE;
          footer_len = length (inner_slot_array node) * INDEX_ENTRY_SIZE
      in if header_len + footer_len > PAGE_SIZE then Err PageFull
         else let free = word_of_nat (PAGE_SIZE - header_len - footer_len) in
           and_then (write_u8 (node_type_u8 InternalTag) (cursor_new page)) (\<lambda>cursor.
           and_then (write_u64 (inner_page_id node) cursor) (\<lambda>cursor.
           and_then (write_u64 (inner_last_lsn node) cursor) (\<lambda>cursor.
           and_then (write_u64 (rightmost_child_id node) cursor) (\<lambda>cursor.
           and_then (write_u32 (word_of_nat (length (inner_slot_array node))) cursor) (\<lambda>cursor.
           and_then (write_indices (inner_slot_array node) cursor) (\<lambda>cursor.
           and_then (write_u16 free cursor) (\<lambda>cursor.
           and_then (write_entries (entries node) (inner_slot_array node) (advance (unat free) cursor)) (\<lambda>cursor.
             Ok (buffer cursor))))))))))"

fun encode :: "btree_node \<Rightarrow> page \<Rightarrow> page result" where
  "encode (Leaf node) page = encode_leaf node page"
| "encode (Internal node) page = encode_internal node page"

end
