(* ===== verification/Disk_Manager.thy ===== *)
theory Disk_Manager
  imports Os_File Page_Codec
begin

text \<open>
  \<open>FileHeader\<close> and \<open>DiskManager\<close> of \<open>src/storage/page.rs\<close>: pages at byte offsets of one
  database file, a 28-byte header at offset 0, and an allocator that hands out the next free
  offset.
\<close>

record file_header =
  last_row_id :: u32
  page_root_offset :: u64
  next_lsn :: u64
  next_free_offset :: u64

definition file_header_default :: file_header where
  "file_header_default = \<lparr>last_row_id = 0, page_root_offset = 0, next_lsn = 0,
     next_free_offset = word_of_nat PAGE_SIZE\<rparr>"

record disk_manager =
  db_file :: os_file
  header :: file_header

text \<open>The four fields read from the first 28 bytes, and written to them.\<close>

definition header_from_bytes :: "u8 list \<Rightarrow> file_header" where
  "header_from_bytes buf =
     \<lparr>last_row_id = u32_from_le (take 4 buf),
      page_root_offset = u64_from_le (take 8 (drop 4 buf)),
      next_lsn = u64_from_le (take 8 (drop 12 buf)),
      next_free_offset = u64_from_le (take 8 (drop 20 buf))\<rparr>"

definition header_to_bytes :: "file_header \<Rightarrow> u8 list" where
  "header_to_bytes h = u32_to_le (last_row_id h) @ u64_to_le (page_root_offset h) @
     u64_to_le (next_lsn h) @ u64_to_le (next_free_offset h)"

definition disk_open :: "os_file \<Rightarrow> disk_manager result \<times> os_file" where
  "disk_open f =
     then_do (io_call f) (\<lambda>_ f.
     then_do (io_call f) (\<lambda>_ f.
       if length (content f) > 0
       then then_do (read_exact_at 28 0 f) (\<lambda>buf f.
              (Ok \<lparr>db_file = f, header = header_from_bytes buf\<rparr>, f))
       else (Ok \<lparr>db_file = f, header = file_header_default\<rparr>, f)))"

definition read_page :: "page_id \<Rightarrow> disk_manager \<Rightarrow> page result \<times> disk_manager" where
  "read_page pid self =
     (case read_exact_at PAGE_SIZE pid (db_file self) of (r, f) \<Rightarrow> (r, self\<lparr>db_file := f\<rparr>))"

definition write_page :: "page_id \<Rightarrow> page \<Rightarrow> disk_manager \<Rightarrow> unit result \<times> disk_manager" where
  "write_page pid page self =
     (case write_all_at page pid (db_file self) of (r, f) \<Rightarrow> (r, self\<lparr>db_file := f\<rparr>))"

text \<open>The addition overflows with a panic, as in a build with overflow checks.\<close>

definition allocate_page :: "disk_manager \<Rightarrow> page_id result \<times> disk_manager" where
  "allocate_page self =
     (let new_page_id = next_free_offset (header self)
      in if unat new_page_id + PAGE_SIZE < 2 ^ 64
         then (Ok new_page_id,
               self\<lparr>header := (header self)\<lparr>next_free_offset := new_page_id + word_of_nat PAGE_SIZE\<rparr>\<rparr>)
         else (Panic ArithmeticOverflow, self))"

definition save_header :: "disk_manager \<Rightarrow> unit result \<times> disk_manager" where
  "save_header self =
     (case then_do (write_all_at (header_to_bytes (header self)) 0 (db_file self)) (\<lambda>_ f.
           then_do (sync_all f) (\<lambda>_ f. (Ok (), f)))
      of (r, f) \<Rightarrow> (r, self\<lparr>db_file := f\<rparr>))"

section \<open>What the file holds\<close>

definition page_at :: "u8 list \<Rightarrow> page_id \<Rightarrow> page option" where
  "page_at c pid =
     (if unat pid + PAGE_SIZE \<le> length c then Some (take PAGE_SIZE (drop (unat pid) c)) else None)"

definition disk_page :: "disk_manager \<Rightarrow> page_id \<Rightarrow> page option" where
  "disk_page dm pid = page_at (content (db_file dm)) pid"

text \<open>Page offsets are multiples of the page size above the header page.\<close>

definition page_offset :: "page_id \<Rightarrow> bool" where
  "page_offset pid \<longleftrightarrow> PAGE_SIZE dvd unat pid \<and> PAGE_SIZE \<le> unat pid"

lemma page_offset_disjoint:
  assumes "page_offset p" "page_offset q" "p \<noteq> q"
  shows "unat p + PAGE_SIZE \<le> unat q \<or> unat q + PAGE_SIZE \<le> unat p"
proof -
  obtain a b where ab: "unat p = PAGE_SIZE * a" "unat q = PAGE_SIZE * b"
    using assms(1,2) unfolding page_offset_def by (elim conjE dvdE)
  with assms(3) have "a \<noteq> b" by (auto simp: word_unat_eq_iff)
  then have "a + 1 \<le> b \<or> b + 1 \<le> a" by linarith
  then show ?thesis unfolding ab by (metis add_mult_distrib2 mult.right_neutral mult_le_mono2)
qed

lemma page_at_length: "page_at c pid = Some p \<Longrightarrow> length p = PAGE_SIZE"
  by (auto simp: page_at_def split: if_splits)

lemma page_at_pwrite_same:
  assumes "length p = PAGE_SIZE"
  shows "page_at (pwrite c (unat pid) p) pid = Some p"
proof -
  have "p \<noteq> []" using assms by (auto simp: size_consts)
  then show ?thesis
    using pwrite_same [of p "unat pid" c] assms by (simp add: page_at_def length_pwrite)
qed

lemma page_at_pwrite_other:
  assumes "page_at c q = Some x"
    and "unat q + PAGE_SIZE \<le> off \<or> off + length bs \<le> unat q"
  shows "page_at (pwrite c off bs) q = Some x"
  using assms length_pwrite_ge [of c off bs] pwrite_other [of "unat q" PAGE_SIZE c off bs]
  by (auto simp: page_at_def split: if_splits)

lemma read_page_Ok:
  "read_page pid dm = (Ok p, dm') \<Longrightarrow>
   disk_page dm pid = Some p \<and> content (db_file dm') = content (db_file dm) \<and> header dm' = header dm"
  by (auto simp: read_page_def read_exact_at_def disk_page_def page_at_def dest!: io_step_frame
      split: if_splits prod.splits option.splits)

lemma read_page_frame:
  "read_page pid dm = (r, dm') \<Longrightarrow>
   content (db_file dm') = content (db_file dm) \<and> header dm' = header dm"
  by (auto simp: read_page_def read_exact_at_def dest!: io_step_frame
      split: if_splits prod.splits option.splits)

lemma write_page_Ok:
  "write_page pid p dm = (Ok (), dm') \<Longrightarrow>
   content (db_file dm') = pwrite (content (db_file dm)) (unat pid) p \<and> header dm' = header dm"
  by (auto simp: write_page_def write_all_at_def dest!: io_step_frame
      split: if_splits prod.splits option.splits)

lemma write_page_any:
  "write_page pid p dm = (r, dm') \<Longrightarrow> \<exists>n. content (db_file dm') =
     pwrite (content (db_file dm)) (unat pid) (take n p) \<and> header dm' = header dm"
proof -
  assume w: "write_page pid p dm = (r, dm')"
  have "content (db_file dm') = content (db_file dm) \<and> header dm' = header dm \<or> (\<exists>n. content (db_file dm') =
     pwrite (content (db_file dm)) (unat pid) (take n p) \<and> header dm' = header dm)"
    using w by (auto simp: write_page_def write_all_at_def dest!: io_step_frame
      split: if_splits prod.splits option.splits intro: exI [of _ "length p"])
  moreover have "pwrite c off (take 0 p) = c" for c off by (simp add: pwrite_def)
  ultimately show ?thesis by metis
qed

lemma save_header_any:
  "save_header dm = (r, dm') \<Longrightarrow> \<exists>n. content (db_file dm') =
     pwrite (content (db_file dm)) 0 (take n (header_to_bytes (header dm))) \<and> header dm' = header dm"
proof -
  assume s: "save_header dm = (r, dm')"
  obtain r1 f1 where w: "write_all_at (header_to_bytes (header dm)) 0 (db_file dm) = (r1, f1)" by fastforce
  have ok: "offset_ok 0 (length (header_to_bytes (header dm)))"
    by (simp add: offset_ok_def header_to_bytes_def)
  have "\<exists>n. content f1 = pwrite (content (db_file dm)) 0 (take n (header_to_bytes (header dm)))"
    using w ok by (auto simp: write_all_at_def dest!: io_step_frame
      split: if_splits prod.splits option.splits intro: exI [of _ "length (header_to_bytes (header dm))"])
  moreover have "content (db_file dm') = content f1 \<and> header dm' = header dm"
    using s w by (cases r1) (auto simp: save_header_def sync_all_def dest!: io_step_frame
        split: prod.splits option.splits)
  ultimately show ?thesis by simp
qed

lemma length_header_to_bytes [simp]: "length (header_to_bytes h) = 28"
  by (simp add: header_to_bytes_def)

lemma header_bytes_roundtrip [simp]: "header_from_bytes (header_to_bytes h) = h"
  by (cases h) (simp add: header_from_bytes_def header_to_bytes_def)

end
