(* ===== verification/Codec_Spec.thy ===== *)
theory Codec_Spec
  imports Page_Codec
begin

text \<open>
  The page format as a concatenation of encodings, the round trip of both page kinds, and the
  errors and panics of the codec.
\<close>

section \<open>Cursors inside a buffer\<close>

definition cursor_at :: "u8 list \<Rightarrow> u8 list \<Rightarrow> byte_cursor" where
  "cursor_at pre post = \<lparr>buffer = pre @ post, pos = length pre\<rparr>"

lemma cursor_at_simps [simp]:
  "buffer (cursor_at pre post) = pre @ post" "rest (cursor_at pre post) = post"
  "pos (cursor_at pre post) = length pre"
  by (simp_all add: cursor_at_def rest_def)

lemma cursor_new_at: "cursor_new page = cursor_at [] page"
  by (simp add: cursor_new_def cursor_at_def)

lemma write_bytes_at:
  "length bs \<le> length post \<Longrightarrow>
   write_bytes bs (cursor_at pre post) = Ok (cursor_at (pre @ bs) (drop (length bs) post))"
  by (simp add: cursor_at_def write_bytes_Ok)

lemma advance_at:
  "n \<le> length post \<Longrightarrow> advance n (cursor_at pre post) = cursor_at (pre @ take n post) (drop n post)"
  by (simp add: cursor_at_def advance_def)

definition indices_enc :: "u16 list \<Rightarrow> u8 list" where
  "indices_enc is = concat (map u16_to_le is)"

definition rec_enc :: "db_record \<Rightarrow> u8 list" where
  "rec_enc r = u64_to_le (row_id r) @ [bool_u8 (is_deleted r)] @
     u32_to_le (word_of_nat (length (data r))) @ data r"

definition entry_enc :: "index_entry \<Rightarrow> u8 list" where
  "entry_enc e = u64_to_le (key e) @ u64_to_le (child_page_id e)"

lemma length_encs [simp]:
  "length (indices_enc is) = 2 * length is"
  "length (rec_enc r) = RECORD_META_SIZE + length (data r)"
  "length (entry_enc e) = INDEX_ENTRY_SIZE"
  by (induction "is") (simp_all add: indices_enc_def rec_enc_def entry_enc_def size_consts)

lemma length_concat_encs [simp]:
  "length (concat (map rec_enc rs)) = sum_list (map (\<lambda>r. RECORD_META_SIZE + length (data r)) rs)"
  "length (concat (map entry_enc es)) = length es * INDEX_ENTRY_SIZE"
proof -
  show "length (concat (map rec_enc rs)) = sum_list (map (\<lambda>r. RECORD_META_SIZE + length (data r)) rs)"
    by (induction rs) simp_all
  show "length (concat (map entry_enc es)) = length es * INDEX_ENTRY_SIZE"
    by (induction es) simp_all
qed

lemma record_eta [simp]:
  "\<lparr>row_id = row_id r, data = data r, is_deleted = is_deleted r\<rparr> = r"
  "\<lparr>key = key e, child_page_id = child_page_id e\<rparr> = e"
  by simp_all

lemma indices_enc_simps [simp]:
  "indices_enc [] = []" "indices_enc (i # is) = u16_to_le i @ indices_enc is"
  by (simp_all add: indices_enc_def)

section \<open>Writing the parts\<close>

lemma write_indices_at:
  "2 * length is \<le> length post \<Longrightarrow> write_indices is (cursor_at pre post) =
     Ok (cursor_at (pre @ indices_enc is) (drop (2 * length is) post))"
proof (induction "is" arbitrary: pre post)
  case (Cons i "is")
  then show ?case by (simp add: write_word_eq write_bytes_at)
qed simp

lemma write_cells_at:
  "(\<And>i. i \<in> set is \<Longrightarrow> unat i < length recs) \<Longrightarrow>
   rs = map (\<lambda>i. recs ! unat i) is \<Longrightarrow> length (concat (map rec_enc rs)) \<le> length post \<Longrightarrow>
   write_cells recs is (cursor_at pre post) =
     Ok (cursor_at (pre @ concat (map rec_enc rs)) (drop (length (concat (map rec_enc rs))) post))"
proof (induction "is" arbitrary: pre post rs)
  case (Cons i "is")
  let ?r = "recs ! unat i"
  have "and_then (write_bytes (rec_enc ?r) (cursor_at pre post)) (write_cells recs is) =
      write_cells recs is (cursor_at (pre @ rec_enc ?r) (drop (length (rec_enc ?r)) post))"
    using Cons.prems by (simp add: write_bytes_at del: length_encs)
  moreover have "write_cells recs (i # is) (cursor_at pre post) =
      and_then (write_bytes (rec_enc ?r) (cursor_at pre post)) (write_cells recs is)"
    using Cons.prems(1) by (simp add: run_simps write_eqs rec_enc_def)
  ultimately show ?case using Cons.prems by (simp add: Cons.IH add.commute)
qed simp

lemma write_entries_at:
  "(\<And>i. i \<in> set is \<Longrightarrow> unat i < length ents) \<Longrightarrow>
   es = map (\<lambda>i. ents ! unat i) is \<Longrightarrow> length (concat (map entry_enc es)) \<le> length post \<Longrightarrow>
   write_entries ents is (cursor_at pre post) =
     Ok (cursor_at (pre @ concat (map entry_enc es)) (drop (length (concat (map entry_enc es))) post))"
proof (induction "is" arbitrary: pre post es)
  case (Cons i "is")
  let ?e = "ents ! unat i"
  have "and_then (write_bytes (entry_enc ?e) (cursor_at pre post)) (write_entries ents is) =
      write_entries ents is (cursor_at (pre @ entry_enc ?e) (drop (length (entry_enc ?e)) post))"
    using Cons.prems by (simp add: write_bytes_at del: length_encs)
  moreover have "write_entries ents (i # is) (cursor_at pre post) =
      and_then (write_bytes (entry_enc ?e) (cursor_at pre post)) (write_entries ents is)"
    using Cons.prems(1) by (simp add: run_simps write_eqs entry_enc_def)
  ultimately show ?case using Cons.prems by (simp add: Cons.IH add.commute)
qed simp

section \<open>Reading the parts\<close>

lemma read_indices_rest:
  "rest c = indices_enc is @ post \<Longrightarrow>
   read_indices (length is) c = Ok (is, advance (2 * length is) c)"
proof (induction "is" arbitrary: c)
  case Nil
  then show ?case by (simp add: advance_def)
next
  case (Cons i "is")
  from Cons.prems have "read_u16 c = Ok (i, advance 2 c)" by (simp add: run_simps)
  with Cons.IH [of "advance 2 c"] Cons.prems show ?case by simp
qed

lemma fold_updates_nth:
  "j < length xs \<Longrightarrow> length (fold (\<lambda>s xs. xs[unat s := f (unat s)]) ss xs) = length xs \<and>
   fold (\<lambda>s xs. xs[unat s := f (unat s)]) ss xs ! j = (if j \<in> unat ` set ss then f j else xs ! j)"
proof (induction ss arbitrary: xs)
  case (Cons s ss)
  then show ?case using Cons.IH [of "xs[unat s := f (unat s)]"] by (auto simp: nth_list_update)
qed simp

lemma fold_updates_perm:
  assumes "mset (map unat ss) = mset [0..<length xs]" "length ys = length xs"
  shows "fold (\<lambda>s ys. ys[unat s := xs ! unat s]) ss ys = xs"
proof (cases "xs = []")
  case True
  then show ?thesis using assms slot_permD(3) [OF assms(1)] by simp
next
  case False
  have set: "unat ` set ss = {0..<length xs}" using arg_cong [OF assms(1), of set_mset] by simp
  show ?thesis
  proof (rule nth_equalityI)
    show "length (fold (\<lambda>s ys. ys[unat s := xs ! unat s]) ss ys) = length xs"
      using fold_updates_nth [of 0 ys "(!) xs" ss] False assms(2) by simp
    then show "fold (\<lambda>s ys. ys[unat s := xs ! unat s]) ss ys ! j = xs ! j"
      if "j < length (fold (\<lambda>s ys. ys[unat s := xs ! unat s]) ss ys)" for j
      using that fold_updates_nth [of j ys "(!) xs" ss] assms(2) set by auto
  qed
qed

lemma bool_u8_roundtrip [simp]: "(bool_u8 b \<noteq> 0) = b" "(bool_u8 b = 0) = (\<not> b)"
  by (simp_all add: bool_u8_def)

lemma read_cells_rest:
  "(\<And>s. s \<in> set ss \<Longrightarrow> unat s < length cells \<and> length (data (recs ! unat s)) < 2 ^ 32) \<Longrightarrow>
   rest c = concat (map (\<lambda>s. rec_enc (recs ! unat s)) ss) @ post \<Longrightarrow> pos c \<le> length (buffer c) \<Longrightarrow>
   \<exists>c'. read_cells ss cells c = Ok (fold (\<lambda>s cs. cs[unat s := recs ! unat s]) ss cells, c')"
proof (induction ss arbitrary: c cells)
  case (Cons s ss)
  let ?r = "recs ! unat s" and ?n = "13 + length (data (recs ! unat s))"
  have n: "unat (word_of_nat (length (data ?r)) :: u32) = length (data ?r)"
    using Cons.prems(1) by (intro unat_word_of_nat_u32) simp
  have rest: "rest c = rec_enc ?r @ concat (map (\<lambda>s. rec_enc (recs ! unat s)) ss) @ post"
    using Cons.prems(2) by simp
  have bound: "pos c + ?n \<le> length (buffer c)"
    using arg_cong [OF rest, of length] Cons.prems(3) by (simp add: rest_def size_consts)
  have "read_cells (s # ss) cells c = read_cells ss (cells[unat s := ?r]) (advance ?n c)"
    using n bound Cons.prems(1) by (simp add: run_simps rest rec_enc_def add.assoc)
  moreover have "\<exists>c'. read_cells ss (cells[unat s := ?r]) (advance ?n c) =
      Ok (fold (\<lambda>s cs. cs[unat s := recs ! unat s]) ss (cells[unat s := ?r]), c')"
    using Cons.prems(1) bound by (intro Cons.IH) (auto simp: rest size_consts)
  ultimately show ?case by simp
qed simp

lemma read_entries_rest:
  "(\<And>s. s \<in> set ss \<Longrightarrow> unat s < length es) \<Longrightarrow>
   rest c = concat (map (\<lambda>s. entry_enc (ents ! unat s)) ss) @ post \<Longrightarrow>
   \<exists>c'. read_entries ss es c = Ok (fold (\<lambda>s es. es[unat s := ents ! unat s]) ss es, c')"
proof (induction ss arbitrary: c es)
  case (Cons s ss)
  let ?e = "ents ! unat s"
  have rest: "rest c = entry_enc ?e @ concat (map (\<lambda>s. entry_enc (ents ! unat s)) ss) @ post"
    using Cons.prems(2) by simp
  have "read_entries (s # ss) es c = read_entries ss (es[unat s := ?e]) (advance 16 c)"
    using Cons.prems(1) by (simp add: run_simps rest entry_enc_def)
  moreover have "\<exists>c'. read_entries ss (es[unat s := ?e]) (advance 16 c) =
      Ok (fold (\<lambda>s es. es[unat s := ents ! unat s]) ss (es[unat s := ?e]), c')"
    using Cons.prems(1) by (intro Cons.IH) (auto simp: rest size_consts)
  ultimately show ?case by simp
qed simp

section \<open>Leaf pages\<close>

definition leaf_image :: "leaf_node \<Rightarrow> u16 \<Rightarrow> u8 list \<Rightarrow> page" where
  "leaf_image l free gap =
     [1] @ u64_to_le (page_id l) @ u64_to_le (last_lsn l) @
     [bool_u8 (has_prev l)] @ [bool_u8 (has_next l)] @
     u64_to_le (prev_page_id l) @ u64_to_le (next_page_id l) @
     u32_to_le (word_of_nat (length (slot_array l))) @ indices_enc (slot_array l) @
     u16_to_le free @ gap @ concat (map rec_enc (slot_records l))"

text \<open>The free space of a page that holds \<open>n\<close> bytes of header, slots and cells.\<close>

abbreviation free_for :: "usize \<Rightarrow> u16" where
  "free_for n \<equiv> word_of_nat (PAGE_SIZE - n)"

lemma unat_free_for: "unat (free_for n) = PAGE_SIZE - n"
  by (rule unat_word_of_nat_u16) (simp add: size_consts)

lemma encode_leaf_full:
  assumes "slots_wf l" "\<not> leaf_fits l"
  shows "encode_leaf l page = Err PageFull"
  using assms by (simp add: encode_leaf_def footer_sum leaf_fits_def leaf_bytes_eq Let_def)

lemma encode_leaf_eq:
  assumes wf: "slots_wf l" and fits: "leaf_fits l" and page: "length page = PAGE_SIZE"
  shows "encode_leaf l page = Ok (leaf_image l (free_for (leaf_bytes l))
    (take (PAGE_SIZE - leaf_bytes l) (drop (41 + 2 * length (slot_array l)) page)))"
proof -
  let ?n = "length (slot_array l)" and ?cells = "concat (map rec_enc (slot_records l))"
  let ?free = "PAGE_SIZE - leaf_bytes l"
  have bytes: "leaf_bytes l = 41 + 2 * ?n + length ?cells"
    by (simp add: leaf_bytes_eq) (simp add: size_consts)
  have sizes: "map_result (slot_size l) (slot_array l) =
      Ok (map (\<lambda>r. RECORD_META_SIZE + length (data r)) (slot_records l))"
    by (rule footer_sum [OF wf])
  have le: "41 + 2 * ?n + length ?cells \<le> 4096"
    using fits bytes by (simp add: leaf_fits_def size_consts)
  have free: "PAGE_SIZE - (LEAF_NODE_HEADER_SIZE + ?n * SLOT_ELEM_SIZE) - length ?cells = ?free"
    by (simp only: bytes) (simp add: size_consts)
  have ok: "\<not> PAGE_SIZE < LEAF_NODE_HEADER_SIZE + ?n * SLOT_ELEM_SIZE + length ?cells"
    using le by (simp add: size_consts)
  let ?pre = "[1] @ u64_to_le (page_id l) @ u64_to_le (last_lsn l) @
     [bool_u8 (has_prev l)] @ [bool_u8 (has_next l)] @
     u64_to_le (prev_page_id l) @ u64_to_le (next_page_id l) @ u32_to_le (word_of_nat ?n)"
  have cells: "write_cells (records l) (slot_array l) (cursor_at pre post) =
      Ok (cursor_at (pre @ ?cells) (drop (length ?cells) post))" if "length ?cells \<le> length post" for pre post
    using slots_wfD(1) [OF wf] that by (intro write_cells_at) (auto simp: slot_records_def)
  have run: "encode_leaf l page =
      and_then (write_bytes ?pre (cursor_at [] page)) (\<lambda>c.
      and_then (write_indices (slot_array l) c) (\<lambda>c.
      and_then (write_u16 (word_of_nat ?free) c) (\<lambda>c.
      and_then (write_cells (records l) (slot_array l) (advance ?free c)) (\<lambda>c. Ok (buffer c)))))"
    using ok unfolding encode_leaf_def sizes and_then.simps Let_def length_concat_encs(1) [symmetric] free
    by (simp add: cursor_new_at write_u8_eq write_word_eq(2,3) write_bytes_append_then
        unat_free_for del: length_concat_encs of_nat_diff)
  have pos: "length (drop (39 + 2 * ?n + 2) page) = 4096 - (41 + 2 * ?n)"
    using page by (simp add: size_consts)
  show ?thesis
    unfolding run using le page bytes
    by (simp add: write_bytes_at write_indices_at write_word_eq advance_at cells leaf_image_def
        size_consts add.commute del: length_concat_encs of_nat_diff)
qed

lemma leaf_rebuild:
  "l\<lparr>slot_array := ss, records := rs, free_size := f, is_dirty := d\<rparr> =
     \<lparr>page_id = page_id l, last_lsn = last_lsn l, has_prev = has_prev l, has_next = has_next l,
      prev_page_id = prev_page_id l, next_page_id = next_page_id l, slot_array = ss, records = rs,
      free_size = f, is_dirty = d\<rparr>"
  by (cases l) simp

lemma decode_leaf_image:
  assumes wf: "slots_wf l" and small: "\<forall>r \<in> set (records l). length (data r) < 2 ^ 32"
    and gap: "length gap = unat free"
  shows "decode (leaf_image l free gap) = Ok (Leaf (l\<lparr>free_size := free, is_dirty := False\<rparr>))"
proof -
  let ?n = "length (slot_array l)"
  have n: "unat (word_of_nat ?n :: u32) = ?n"
    using slots_wfD(3,5) [OF wf] by (intro unat_word_of_nat_u32) simp
  define img where "img = leaf_image l free gap"
  define c where "c = advance 39 (cursor_new img)"
  have start: "rest (cursor_new img) = leaf_image l free gap" by (simp add: img_def)
  have head: "decode img = and_then (read_indices ?n c) (\<lambda>(indices, cursor).
     and_then (read_u16 cursor) (\<lambda>(free, cursor).
     and_then (read_cells indices (replicate ?n db_record_default) (advance (unat free) cursor))
       (\<lambda>(cells, cursor). Ok (Leaf (l\<lparr>slot_array := indices, records := cells,
          free_size := free, is_dirty := False\<rparr>)))))"
    by (simp add: decode_def decode_leaf_def run_simps start leaf_image_def n c_def leaf_rebuild
        del: rest_cursor_new)
  have rest_c: "rest c = indices_enc (slot_array l) @ u16_to_le free @ gap @ concat (map rec_enc (slot_records l))"
    by (simp add: c_def img_def leaf_image_def)
  have idx: "read_indices ?n c = Ok (slot_array l, advance (2 * ?n) c)"
    by (rule read_indices_rest [OF rest_c])
  have fr: "read_u16 (advance (2 * ?n) c) = Ok (free, advance 2 (advance (2 * ?n) c))"
    by (simp add: run_simps rest_c)
  define d where "d = advance (unat free) (advance 2 (advance (2 * ?n) c))"
  have rest_d: "rest d = concat (map (\<lambda>s. rec_enc (records l ! unat s)) (slot_array l)) @ []"
    by (simp add: d_def rest_c gap slot_records_def comp_def)
  have "\<exists>c'. read_cells (slot_array l) (replicate ?n db_record_default) d =
      Ok (fold (\<lambda>s cs. cs[unat s := records l ! unat s]) (slot_array l) (replicate ?n db_record_default), c')"
  proof (rule read_cells_rest [OF _ rest_d])
    show "unat s < length (replicate ?n db_record_default) \<and> length (data (records l ! unat s)) < 2 ^ 32"
      if "s \<in> set (slot_array l)" for s
      using slots_wfD(1,3) [OF wf] that small by auto
    show "pos d \<le> length (buffer d)" by (simp add: d_def c_def img_def leaf_image_def gap)
  qed
  moreover have "fold (\<lambda>s cs. cs[unat s := records l ! unat s]) (slot_array l)
      (replicate ?n db_record_default) = records l"
    using wf slots_wfD(3) [OF wf] by (intro fold_updates_perm) (simp_all add: slots_wf_def)
  ultimately obtain c' where cells:
    "read_cells (slot_array l) (replicate ?n db_record_default) d = Ok (records l, c')" by auto
  show ?thesis
    using head cells by (simp add: idx fr d_def flip: img_def)
qed

section \<open>Internal pages\<close>

definition inner_bytes :: "internal_node \<Rightarrow> usize" where
  "inner_bytes n = INTERNAL_NODE_HEADER_SIZE +
     length (inner_slot_array n) * (SLOT_ELEM_SIZE + INDEX_ENTRY_SIZE)"

definition inner_fits :: "internal_node \<Rightarrow> bool" where
  "inner_fits n \<longleftrightarrow> inner_bytes n \<le> PAGE_SIZE"

definition inner_slots_wf :: "internal_node \<Rightarrow> bool" where
  "inner_slots_wf n \<longleftrightarrow> mset (map unat (inner_slot_array n)) = mset [0..<length (entries n)]"

definition inner_image :: "internal_node \<Rightarrow> u16 \<Rightarrow> u8 list \<Rightarrow> page" where
  "inner_image n free gap =
     [0] @ u64_to_le (inner_page_id n) @ u64_to_le (inner_last_lsn n) @
     u64_to_le (rightmost_child_id n) @ u32_to_le (word_of_nat (length (inner_slot_array n))) @
     indices_enc (inner_slot_array n) @ u16_to_le free @ gap @ concat (map entry_enc (slot_entries n))"

lemma encode_internal_full: "\<not> inner_fits n \<Longrightarrow> encode_internal n page = Err PageFull"
  by (simp add: encode_internal_def inner_fits_def inner_bytes_def size_consts Let_def)

lemma encode_internal_eq:
  assumes wf: "inner_slots_wf n" and fits: "inner_fits n" and page: "length page = PAGE_SIZE"
  shows "encode_internal n page = Ok (inner_image n (free_for (inner_bytes n))
    (take (PAGE_SIZE - inner_bytes n) (drop (31 + 2 * length (inner_slot_array n)) page)))"
proof -
  let ?n = "length (inner_slot_array n)" and ?cells = "concat (map entry_enc (slot_entries n))"
  let ?free = "PAGE_SIZE - inner_bytes n"
  have "length (slot_entries n) = ?n" by (simp add: slot_entries_def)
  then have len: "length ?cells = ?n * 16" by (simp add: size_consts)
  have bytes: "inner_bytes n = 31 + 2 * ?n + length ?cells"
    by (simp only: len) (simp add: inner_bytes_def size_consts)
  have le: "31 + 2 * ?n + length ?cells \<le> 4096"
    using fits bytes by (simp add: inner_fits_def size_consts)
  have foot: "?n * INDEX_ENTRY_SIZE = length ?cells" by (simp only: len) (simp add: size_consts)
  have free: "PAGE_SIZE - (INTERNAL_NODE_HEADER_SIZE + ?n * SLOT_ELEM_SIZE) - length ?cells = ?free"
    by (simp only: bytes) (simp add: size_consts)
  have ok: "\<not> PAGE_SIZE < INTERNAL_NODE_HEADER_SIZE + ?n * SLOT_ELEM_SIZE + length ?cells"
    using le by (simp add: size_consts)
  let ?pre = "[0] @ u64_to_le (inner_page_id n) @ u64_to_le (inner_last_lsn n) @
     u64_to_le (rightmost_child_id n) @ u32_to_le (word_of_nat ?n)"
  have cells: "write_entries (entries n) (inner_slot_array n) (cursor_at pre post) =
      Ok (cursor_at (pre @ ?cells) (drop (length ?cells) post))" if "length ?cells \<le> length post" for pre post
    using slot_permD(1) wf that
    by (intro write_entries_at) (auto simp: slot_entries_def inner_slots_wf_def)
  have run: "encode_internal n page =
      and_then (write_bytes ?pre (cursor_at [] page)) (\<lambda>c.
      and_then (write_indices (inner_slot_array n) c) (\<lambda>c.
      and_then (write_u16 (word_of_nat ?free) c) (\<lambda>c.
      and_then (write_entries (entries n) (inner_slot_array n) (advance ?free c)) (\<lambda>c. Ok (buffer c)))))"
    using ok unfolding encode_internal_def Let_def foot free
    by (simp add: cursor_new_at write_u8_eq write_word_eq(2,3) write_bytes_append_then
        unat_free_for del: length_concat_encs of_nat_diff)
  show ?thesis
    unfolding run using le page bytes
    by (simp add: write_bytes_at write_indices_at write_word_eq advance_at cells inner_image_def
        size_consts add.commute del: length_concat_encs of_nat_diff)
qed

lemma inner_rebuild:
  "n\<lparr>inner_slot_array := ss, entries := es, inner_free_size := f, inner_is_dirty := d\<rparr> =
     \<lparr>inner_page_id = inner_page_id n, inner_last_lsn = inner_last_lsn n,
      rightmost_child_id = rightmost_child_id n, inner_slot_array = ss, entries = es,
      inner_free_size = f, inner_is_dirty = d\<rparr>"
  by (cases n) simp

lemma decode_inner_image:
  assumes wf: "inner_slots_wf n" and fits: "inner_fits n" and gap: "length gap = unat free"
  shows "decode (inner_image n free gap) =
    Ok (Internal (n\<lparr>inner_free_size := free, inner_is_dirty := False\<rparr>))"
proof -
  let ?n = "length (inner_slot_array n)"
  have perm: "mset (map unat (inner_slot_array n)) = mset [0..<length (entries n)]"
    using wf by (simp add: inner_slots_wf_def)
  have n: "unat (word_of_nat ?n :: u32) = ?n"
    using fits by (intro unat_word_of_nat_u32) (simp add: inner_fits_def inner_bytes_def size_consts)
  define img where "img = inner_image n free gap"
  define c where "c = advance 29 (cursor_new img)"
  have start: "rest (cursor_new img) = inner_image n free gap" by (simp add: img_def)
  have head: "decode img = and_then (read_indices ?n c) (\<lambda>(indices, cursor).
     and_then (read_u16 cursor) (\<lambda>(free, cursor).
     and_then (read_entries indices (replicate ?n index_entry_default) (advance (unat free) cursor))
       (\<lambda>(es, cursor). Ok (Internal (n\<lparr>inner_slot_array := indices, entries := es,
          inner_free_size := free, inner_is_dirty := False\<rparr>)))))"
    by (simp add: decode_def decode_internal_def run_simps start inner_image_def n c_def inner_rebuild
        del: rest_cursor_new)
  have rest_c: "rest c = indices_enc (inner_slot_array n) @ u16_to_le free @ gap @ concat (map entry_enc (slot_entries n))"
    by (simp add: c_def img_def inner_image_def)
  have idx: "read_indices ?n c = Ok (inner_slot_array n, advance (2 * ?n) c)"
    by (rule read_indices_rest [OF rest_c])
  have fr: "read_u16 (advance (2 * ?n) c) = Ok (free, advance 2 (advance (2 * ?n) c))"
    by (simp add: run_simps rest_c)
  define d where "d = advance (unat free) (advance 2 (advance (2 * ?n) c))"
  have rest_d: "rest d = concat (map (\<lambda>s. entry_enc (entries n ! unat s)) (inner_slot_array n)) @ []"
    by (simp add: d_def rest_c gap slot_entries_def comp_def)
  have "\<exists>c'. read_entries (inner_slot_array n) (replicate ?n index_entry_default) d =
      Ok (fold (\<lambda>s es. es[unat s := entries n ! unat s]) (inner_slot_array n) (replicate ?n index_entry_default), c')"
    using slot_permD(1,3) [OF perm] by (intro read_entries_rest [OF _ rest_d]) simp
  moreover have "fold (\<lambda>s es. es[unat s := entries n ! unat s]) (inner_slot_array n)
      (replicate ?n index_entry_default) = entries n"
    using slot_permD(3) [OF perm] by (intro fold_updates_perm [OF perm]) simp
  ultimately obtain c' where cells:
    "read_entries (inner_slot_array n) (replicate ?n index_entry_default) d = Ok (entries n, c')" by auto
  show ?thesis
    using head cells by (simp add: idx fr d_def flip: img_def)
qed

end
