(* ===== verification/Leaf_Contract.thy ===== *)
theory Leaf_Contract
  imports Leaf_Spec
begin

text \<open>
  The contract of a page as a keyed record store, as recovery and the B+ tree use it, and the
  properties of the leaf operations. \<open>record_store\<close> states the laws once over an abstract
  map; the leaf node interprets it.
\<close>

section \<open>The interface\<close>

datatype store_op = PutOp u64 "u8 list" | SetOp u64 "u8 list" | DelOp u64

primrec op_key :: "store_op \<Rightarrow> u64" where
  "op_key (PutOp k v) = k"
| "op_key (SetOp k v) = k"
| "op_key (DelOp k) = k"

text \<open>The effect of a successful operation on the map of live records.\<close>

primrec map_op :: "store_op \<Rightarrow> (u64 \<rightharpoonup> u8 list) \<Rightarrow> (u64 \<rightharpoonup> u8 list)" where
  "map_op (PutOp k v) m = m(k \<mapsto> v)"
| "map_op (SetOp k v) m = (if m k = None then m else m(k \<mapsto> v))"
| "map_op (DelOp k) m = m(k := None)"

locale record_store =
  fixes inv :: "'s \<Rightarrow> bool"
    and abs_map :: "'s \<Rightarrow> u64 \<rightharpoonup> u8 list"
    and get :: "u64 \<Rightarrow> 's \<Rightarrow> u8 list option result"
    and run :: "store_op \<Rightarrow> 's \<Rightarrow> unit result \<times> 's"
  assumes get_law: "inv s \<Longrightarrow> get k s = Ok (abs_map s k)"
    and run_inv: "inv s \<Longrightarrow> run p s = (Ok (), s') \<Longrightarrow> inv s'"
    and run_map: "inv s \<Longrightarrow> run p s = (Ok (), s') \<Longrightarrow> abs_map s' = map_op p (abs_map s)"
    and run_err: "inv s \<Longrightarrow> run p s = (Err e, s') \<Longrightarrow> s' = s"
    and put_fresh: "inv s \<Longrightarrow> run (PutOp k v) s = (Ok (), s') \<Longrightarrow> abs_map s k = None"
begin

lemma get_after:
  assumes "inv s" "run p s = (Ok (), s')"
  shows "get k s' = Ok (map_op p (abs_map s) k)"
  using get_law [OF run_inv [OF assms]] run_map [OF assms] by simp

lemma get_after_put: "inv s \<Longrightarrow> run (PutOp k v) s = (Ok (), s') \<Longrightarrow> get k s' = Ok (Some v)"
  by (simp add: get_after)

lemma get_after_delete: "inv s \<Longrightarrow> run (DelOp k) s = (Ok (), s') \<Longrightarrow> get k s' = Ok None"
  by (simp add: get_after)

lemma get_other:
  assumes "inv s" "run p s = (Ok (), s')" "k \<noteq> op_key p"
  shows "get k s' = get k s"
  using get_after [OF assms(1,2), of k] get_law [OF assms(1), of k] assms(3) by (cases p) auto

lemma put_twice:
  assumes "inv s" "run (PutOp k v) s = (Ok (), s')"
  shows "run (PutOp k w) s' \<noteq> (Ok (), s'')"
  using put_fresh [OF run_inv [OF assms], of k w s''] run_map [OF assms] by auto

text \<open>Running operations in order, stopping at the first that is not \<open>Ok\<close>.\<close>

primrec run_all :: "store_op list \<Rightarrow> 's \<Rightarrow> unit result \<times> 's" where
  "run_all [] s = (Ok (), s)"
| "run_all (p # ps) s = then_do (run p s) (\<lambda>_ s. run_all ps s)"

lemma run_all_append:
  "run_all (ps @ qs) s = then_do (run_all ps s) (\<lambda>_. run_all qs)"
proof (induction ps arbitrary: s)
  case (Cons p ps)
  then show ?case by (cases "run p s"; cases "fst (run p s)") auto
qed simp

lemma run_all_map:
  "inv s \<Longrightarrow> run_all ps s = (Ok (), s') \<Longrightarrow> inv s' \<and> abs_map s' = fold map_op ps (abs_map s)"
proof (induction ps arbitrary: s)
  case (Cons p ps)
  then obtain t where t: "run p s = (Ok (), t)" and rest: "run_all ps t = (Ok (), s')"
    by (auto simp: then_do_eq_Ok)
  with Cons.IH [OF run_inv [OF Cons.prems(1) t] rest] run_map [OF Cons.prems(1) t]
  show ?case by simp
qed simp

end

section \<open>The leaf provides it\<close>

primrec leaf_run :: "store_op \<Rightarrow> leaf_node \<Rightarrow> unit result \<times> leaf_node" where
  "leaf_run (PutOp k v) l = insert_record k v l"
| "leaf_run (SetOp k v) l = update_record k v l"
| "leaf_run (DelOp k) l = delete_record k l"

lemma insert_record_cases:
  assumes "leaf_wf l"
  obtains (too_large) "insert_record k v l = (Err (TupleTooLarge (length v)), l)" "MAX_VALUE_SIZE < length v"
  | (duplicate) "insert_record k v l = (Err (DuplicateKey k), l)" "leaf_map l k \<noteq> None"
      "length v \<le> MAX_VALUE_SIZE"
  | (full) "insert_record k v l = (Err PageFull, l)" "leaf_map l k = None" "\<not> tombstoned l k"
      "PAGE_SIZE < leaf_bytes l + SLOT_ELEM_SIZE + (SLOT_ELEM_SIZE + RECORD_META_SIZE + length v)"
      "length v \<le> MAX_VALUE_SIZE"
  | (overflow) l' where "insert_record k v l = (Panic Unreachable, l')" "leaf_map l k = None" "tombstoned l k"
      "PAGE_SIZE < live_bytes (slot_records l) + (SLOT_ELEM_SIZE + RECORD_META_SIZE + length v)"
      "length v \<le> MAX_VALUE_SIZE"
  | (revived) l' where "insert_record k v l = (Ok (), l')" "leaf_map l k = None" "tombstoned l k"
      "live_bytes (slot_records l) + (SLOT_ELEM_SIZE + RECORD_META_SIZE + length v) \<le> PAGE_SIZE"
      "leaf_wf l'" "leaf_fits l'" "free_size_exact l'" "leaf_map l' = (leaf_map l)(k \<mapsto> v)"
      "length v \<le> MAX_VALUE_SIZE"
  | (added) l' where "insert_record k v l = (Ok (), l')" "leaf_map l k = None" "\<not> tombstoned l k"
      "leaf_bytes l + SLOT_ELEM_SIZE + (SLOT_ELEM_SIZE + RECORD_META_SIZE + length v) \<le> PAGE_SIZE"
      "leaf_wf l'" "leaf_fits l'" "free_size_exact l \<longrightarrow> free_size_exact l'"
      "leaf_map l' = (leaf_map l)(k \<mapsto> v)" "length v \<le> MAX_VALUE_SIZE"
proof (cases "MAX_VALUE_SIZE < length v")
  case True
  then show ?thesis using too_large insert_too_large by blast
next
  case False
  then have len: "length v \<le> MAX_VALUE_SIZE" by simp
  show ?thesis
  proof (cases "leaf_map l k")
    case (Some w)
    then have "leaf_map l k \<noteq> None" by simp
    then show ?thesis using duplicate insert_duplicate [OF assms len] len by blast
  next
    case None
    show ?thesis
    proof (cases "tombstoned l k")
      case True
      show ?thesis
      proof (cases "live_bytes (slot_records l) + (SLOT_ELEM_SIZE + RECORD_META_SIZE + length v) \<le> PAGE_SIZE")
        case fits: True
        then show ?thesis using insert_tombstone(1) [OF assms len True] revived None True len by blast
      next
        case False
        then have "fst (insert_record k v l) = Panic Unreachable"
          using insert_tombstone(2) [OF assms len True] by simp
        then show ?thesis using overflow [of "snd (insert_record k v l)"] None True False len
          by (metis not_le prod.collapse)
      qed
    next
      case False
      note k = leaf_map_None_cases [OF assms None False]
      show ?thesis
      proof (cases "leaf_bytes l + SLOT_ELEM_SIZE + (SLOT_ELEM_SIZE + RECORD_META_SIZE + length v) \<le> PAGE_SIZE")
        case True
        then show ?thesis using insert_absent(2) [OF assms len k] added None False len by blast
      next
        case no: False
        then show ?thesis using insert_absent(1) [OF assms len k] full None False len by simp
      qed
    qed
  qed
qed

lemma update_record_cases:
  assumes "leaf_wf l"
  obtains (too_large) "update_record k v l = (Err (TupleTooLarge (length v)), l)" "MAX_VALUE_SIZE \<le> length v"
  | (absent) "update_record k v l = (Err (KeyNotFound k), l)" "length v < MAX_VALUE_SIZE" "\<not> key_present l k"
  | (present) l' where "update_record k v l = (Ok (), l')" "length v < MAX_VALUE_SIZE" "key_present l k"
      "leaf_wf l'" "leaf_map l' = (if leaf_map l k = None then leaf_map l else (leaf_map l)(k \<mapsto> v))"
proof (cases "MAX_VALUE_SIZE \<le> length v")
  case True
  then show ?thesis by (intro too_large) (simp_all add: update_record_def)
next
  case False
  then have len: "length v < MAX_VALUE_SIZE" by simp
  show ?thesis
  proof (cases "key_present l k")
    case True
    show ?thesis
    proof (rule update_present [OF assms len True])
      fix l' assume "update_record k v l = (Ok (), l')" "leaf_wf l'"
        "leaf_map l' = (if tombstoned l k then leaf_map l else (leaf_map l)(k \<mapsto> v))"
      then show ?thesis using leaf_map_present(1,3) [OF assms, of k] True len
        by (intro present [of l']) auto
    qed
  next
    case False
    then show ?thesis using update_absent [OF assms len] absent len by blast
  qed
qed

lemma delete_record_cases:
  assumes "leaf_wf l"
  obtains (absent) "delete_record k l = (Err (KeyNotFound k), l)" "\<not> key_present l k"
  | (present) l' where "delete_record k l = (Ok (), l')" "key_present l k" "leaf_wf l'"
      "leaf_map l' = (leaf_map l)(k := None)" "tombstoned l' k" "leaf_bytes l' = leaf_bytes l"
  using assms delete_present [OF assms, of k] delete_absent [OF assms, of k] by metis

text \<open>The outcomes of one leaf operation that the contract speaks of.\<close>

lemma leaf_run_Ok:
  assumes "leaf_wf l" "leaf_run p l = (Ok (), l')"
  shows "leaf_wf l' \<and> leaf_map l' = map_op p (leaf_map l)"
proof (cases p)
  case (PutOp k v)
  show ?thesis by (rule insert_record_cases [OF assms(1), of k v]) (use assms PutOp in auto)
next
  case (SetOp k v)
  show ?thesis by (rule update_record_cases [OF assms(1), of k v]) (use assms SetOp in auto)
next
  case (DelOp k)
  show ?thesis by (rule delete_record_cases [OF assms(1), of k]) (use assms DelOp in auto)
qed

lemma leaf_run_Err:
  assumes "leaf_wf l" "leaf_run p l = (Err e, l')"
  shows "l' = l"
proof (cases p)
  case (PutOp k v)
  show ?thesis by (rule insert_record_cases [OF assms(1), of k v]) (use assms PutOp in auto)
next
  case (SetOp k v)
  show ?thesis by (rule update_record_cases [OF assms(1), of k v]) (use assms SetOp in auto)
next
  case (DelOp k)
  show ?thesis by (rule delete_record_cases [OF assms(1), of k]) (use assms DelOp in auto)
qed

lemma insert_Ok_fresh:
  assumes "leaf_wf l" "insert_record k v l = (Ok (), l')"
  shows "leaf_map l k = None" and "leaf_fits l'"
  by (rule insert_record_cases [OF assms(1), of k v]; use assms in auto)+

interpretation leaf: record_store leaf_wf leaf_map get_record leaf_run
  by unfold_locales (auto simp: get_record_eq leaf_run_Ok insert_Ok_fresh dest: leaf_run_Err)

end
