(* ===== verification/Leaf_Props.thy ===== *)
theory Leaf_Props
  imports Leaf_Contract
begin

text \<open>
  The properties of the leaf operations, with their witnesses, and three behaviours of the
  leaf that its callers do not expect: each is shown on a leaf that insertions and deletions
  really build from an empty page (\<open>build_leaf\<close>).
\<close>

section \<open>Leaves built by insertions\<close>

lemma keys_ascend_unique:
  assumes "keys_ascend xs" "keys_ascend ys" "set xs = set ys"
  shows "xs = ys"
proof -
  have "map row_id xs = map row_id ys"
    using assms by (intro strict_sorted_equal) auto
  moreover have "inj_on row_id (set xs \<union> set ys)"
    using keys_ascend_inject [OF assms(1)] assms(3) by (auto simp: inj_on_def)
  ultimately show ?thesis by (rule map_inj_on)
qed

lemma insert_ascending:
  assumes wf: "leaf_wf l" and asc: "keys_ascend (slot_records l @ [r])" and live: "\<not> is_deleted r"
    and len: "length (data r) \<le> MAX_VALUE_SIZE"
    and fits: "leaf_bytes l + SLOT_ELEM_SIZE + rec_bytes r \<le> PAGE_SIZE"
  obtains l' where "insert_record (row_id r) (data r) l = (Ok (), l')" "leaf_wf l'" "leaf_fits l'"
    "slot_records l' = slot_records l @ [r]" "leaf_bytes l' = leaf_bytes l + rec_bytes r"
proof -
  have "row_id q < row_id r" if "q \<in> set (slot_records l)" for q
    using asc that by (auto simp: sorted_wrt_append)
  then have k: "row_id r \<notin> row_id ` set (records l)"
    unfolding row_ids_slot_records [OF wf, symmetric] by force
  obtain l' where l': "insert_record (row_id r) (data r) l = (Ok (), l')" "leaf_wf l'" "leaf_fits l'"
      "leaf_bytes l' = leaf_bytes l + rec_bytes r"
      "set (records l') = insert \<lparr>row_id = row_id r, data = data r, is_deleted = False\<rparr> (set (records l))"
    using insert_absent(2) [OF wf len k] fits by (auto simp: rec_bytes_def)
  have "\<lparr>row_id = row_id r, data = data r, is_deleted = False\<rparr> = r"
    using live by (cases r) simp
  then have "set (slot_records l') = set (slot_records l @ [r])"
    using l'(2,5) wf by (simp add: leaf_wf_def slots_wf_set)
  moreover have "keys_ascend (slot_records l')" using l'(2) by (simp add: leaf_wf_def)
  ultimately have "slot_records l' = slot_records l @ [r]"
    using asc keys_ascend_unique by blast
  with l' show ?thesis by (intro that) auto
qed

abbreviation puts :: "db_record list \<Rightarrow> store_op list" where
  "puts rs \<equiv> map (\<lambda>r. PutOp (row_id r) (data r)) rs"

lemma build_leaf_aux:
  assumes "leaf_wf l" "leaf_fits l" "keys_ascend (slot_records l @ rs)" "\<forall>r \<in> set rs. \<not> is_deleted r"
    and "\<forall>r \<in> set rs. length (data r) \<le> MAX_VALUE_SIZE"
    and "leaf_bytes l + SLOT_ELEM_SIZE + sum_list (map rec_bytes rs) \<le> PAGE_SIZE"
  shows "\<exists>l'. leaf.run_all (puts rs) l = (Ok (), l') \<and> leaf_wf l' \<and> leaf_fits l' \<and>
    slot_records l' = slot_records l @ rs"
  using assms
proof (induction rs arbitrary: l)
  case (Cons r rs)
  have asc: "keys_ascend (slot_records l @ [r])" using Cons.prems(3) by (auto simp: sorted_wrt_append)
  obtain l' where l': "insert_record (row_id r) (data r) l = (Ok (), l')" "leaf_wf l'" "leaf_fits l'"
      "slot_records l' = slot_records l @ [r]" "leaf_bytes l' = leaf_bytes l + rec_bytes r"
    using insert_ascending [OF Cons.prems(1) asc] Cons.prems(4-6) by auto
  have "\<exists>t. leaf.run_all (puts rs) l' = (Ok (), t) \<and> leaf_wf t \<and> leaf_fits t \<and>
      slot_records t = slot_records l' @ rs"
    using Cons.prems l' by (intro Cons.IH) auto
  then show ?case using l' by simp
qed simp

lemma leaf_default_wf: "leaf_wf leaf_default" "leaf_fits leaf_default" "fresh_leaf leaf_default"
  "slot_records leaf_default = []" "leaf_bytes leaf_default = LEAF_NODE_HEADER_SIZE"
  by (simp_all add: leaf_wf_def slots_wf_def leaf_default_def slot_records_def leaf_fits_def
      leaf_bytes_def fresh_leaf_def size_consts)

lemma build_leaf:
  assumes "keys_ascend rs" "\<forall>r \<in> set rs. \<not> is_deleted r"
    and "\<forall>r \<in> set rs. length (data r) \<le> MAX_VALUE_SIZE"
    and "LEAF_NODE_HEADER_SIZE + SLOT_ELEM_SIZE + sum_list (map rec_bytes rs) \<le> PAGE_SIZE"
  obtains l where "leaf.run_all (puts rs) leaf_default = (Ok (), l)" "leaf_wf l" "leaf_fits l"
    "slot_records l = rs"
  using build_leaf_aux [of leaf_default rs] assms leaf_default_wf by auto

definition sample_leaf :: leaf_node where
  "sample_leaf = leaf_default\<lparr>slot_array := [0, 2, 1], records :=
     [\<lparr>row_id = 10, data = [1, 2], is_deleted = False\<rparr>,
      \<lparr>row_id = 30, data = [3], is_deleted = False\<rparr>,
      \<lparr>row_id = 20, data = [9], is_deleted = True\<rparr>]\<rparr>"

lemma sample_leaf_wf: "leaf_wf sample_leaf" "leaf_fits sample_leaf"
  by (simp_all add: sample_leaf_def leaf_default_def leaf_wf_def slots_wf_def slot_records_def
      upt_rec leaf_fits_def leaf_bytes_def rec_bytes_def size_consts)

lemma sample_leaf_facts:
  "slot_records sample_leaf =
     [\<lparr>row_id = 10, data = [1, 2], is_deleted = False\<rparr>,
      \<lparr>row_id = 20, data = [9], is_deleted = True\<rparr>,
      \<lparr>row_id = 30, data = [3], is_deleted = False\<rparr>]"
  "leaf_map sample_leaf = [10 \<mapsto> [1, 2], 30 \<mapsto> [3]]"
  "tombstoned sample_leaf k \<longleftrightarrow> k = 20"
  "key_present sample_leaf k \<longleftrightarrow> k \<in> {10, 20, 30}"
  by (auto simp: sample_leaf_def leaf_default_def slot_records_def leaf_map_def rec_map_def
      tombstoned_def key_present_def fun_eq_iff)

section \<open>Properties\<close>

text \<open>
  C15: \<open>insert_record\<close>, on every branch. An oversized payload and a live duplicate are refused
  and leave the leaf as it was. A tombstone is overwritten and the leaf compacted when the
  live records fit; otherwise \<open>compact\<close> reaches its \<open>unreachable!\<close> and panics. A new key is
  refused with \<open>PageFull\<close> exactly when the page cannot take it with one spare slot (the
  cell limit never decides); otherwise the leaf stays well formed, fits a page, and maps the
  key to the payload.
\<close>

theorem insert_record_correct:
  assumes "leaf_wf l" "insert_record k v l = (r, l')"
  shows "if MAX_VALUE_SIZE < length v then r = Err (TupleTooLarge (length v)) \<and> l' = l
    else if leaf_map l k \<noteq> None then r = Err (DuplicateKey k) \<and> l' = l
    else if tombstoned l k \<and> PAGE_SIZE < live_bytes (slot_records l) + 15 + length v
      then r = Panic Unreachable
    else if \<not> tombstoned l k \<and> PAGE_SIZE < leaf_bytes l + 2 + 15 + length v
      then r = Err PageFull \<and> l' = l
    else r = Ok () \<and> leaf_wf l' \<and> leaf_fits l' \<and> leaf_map l' = (leaf_map l)(k \<mapsto> v)"
  by (rule insert_record_cases [OF assms(1), of k v]) (use assms(2) in \<open>auto simp: size_consts\<close>)

theorem insert_record_correct_witness:
  "\<exists>l'. insert_record 15 [7] sample_leaf = (Ok (), l') \<and>
     leaf_map l' = [10 \<mapsto> [1, 2], 30 \<mapsto> [3], 15 \<mapsto> [7]]"
proof -
  obtain r l' where run: "insert_record 15 [7] sample_leaf = (r, l')" by fastforce
  have "leaf_bytes sample_leaf = 41 + 17 + 16 + 16"
    by (simp add: leaf_bytes_def sample_leaf_facts rec_bytes_def size_consts)
  with insert_record_correct [OF sample_leaf_wf(1) run]
  have "r = Ok () \<and> leaf_map l' = (leaf_map sample_leaf)(15 \<mapsto> [7])"
    by (simp add: sample_leaf_facts size_consts)
  with run show ?thesis by (simp add: sample_leaf_facts(2))
qed

text \<open>
  \<open>get_record\<close> finds exactly the live records: the binary search through the slot array
  never panics on a well-formed leaf and returns what the abstract map holds.
\<close>

theorem get_record_correct:
  assumes "leaf_wf l"
  shows "get_record k l = Ok (leaf_map l k)"
  using assms by (rule leaf.get_law)

theorem get_record_correct_witness:
  "get_record 30 sample_leaf = Ok (Some [3]) \<and> get_record 20 sample_leaf = Ok None"
  using get_record_correct [OF sample_leaf_wf(1)] by (simp add: sample_leaf_facts)

text \<open>
  C30: \<open>update_record\<close>, on every branch: payloads of \<open>MAX_VALUE_SIZE\<close> bytes or more are
  refused, an unknown key is \<open>KeyNotFound\<close>, and a key that is present is updated. A
  tombstoned key counts as present: the call answers \<open>Ok\<close> and no live record changes.
\<close>

theorem update_record_correct:
  assumes "leaf_wf l" "update_record k v l = (r, l')"
  shows "if MAX_VALUE_SIZE \<le> length v then r = Err (TupleTooLarge (length v)) \<and> l' = l
    else if \<not> key_present l k then r = Err (KeyNotFound k) \<and> l' = l
    else r = Ok () \<and> leaf_wf l' \<and>
      leaf_map l' = (if tombstoned l k then leaf_map l else (leaf_map l)(k \<mapsto> v))"
  by (rule update_record_cases [OF assms(1), of k v])
    (use assms leaf_map_present [OF assms(1), of k] in auto)

theorem update_record_correct_witness:
  "\<exists>l'. update_record 20 [5] sample_leaf = (Ok (), l') \<and> leaf_map l' = leaf_map sample_leaf"
proof -
  obtain r l' where run: "update_record 20 [5] sample_leaf = (r, l')" by fastforce
  with update_record_correct [OF sample_leaf_wf(1) run] show ?thesis
    by (simp add: sample_leaf_facts size_consts)
qed

text \<open>
  \<open>delete_record\<close> removes the key from the map of live records and keeps a tombstone of
  the same size; a key that has no record is \<open>KeyNotFound\<close> and nothing changes.
\<close>

theorem delete_record_correct:
  assumes "leaf_wf l" "delete_record k l = (r, l')"
  shows "if key_present l k
    then r = Ok () \<and> leaf_wf l' \<and> leaf_map l' = (leaf_map l)(k := None) \<and> tombstoned l' k \<and>
      leaf_bytes l' = leaf_bytes l
    else r = Err (KeyNotFound k) \<and> l' = l"
  by (rule delete_record_cases [OF assms(1), of k]) (use assms(2) in auto)

theorem delete_record_correct_witness:
  "\<exists>l'. delete_record 10 sample_leaf = (Ok (), l') \<and> leaf_map l' = [30 \<mapsto> [3]]"
proof -
  obtain r l' where run: "delete_record 10 sample_leaf = (r, l')" by fastforce
  with delete_record_correct [OF sample_leaf_wf(1) run] show ?thesis
    by (auto simp: sample_leaf_facts)
qed

text \<open>
  C11: a sequence of insertions, updates and deletions that all succeed acts on the leaf as
  the same sequence acts on a finite map, and keeps the leaf well formed.
\<close>

theorem leaf_refines_map:
  assumes "leaf_wf l" "leaf.run_all ps l = (Ok (), l')"
  shows "leaf_wf l' \<and> leaf_map l' = fold map_op ps (leaf_map l) \<and>
    get_record k l' = Ok (fold map_op ps (leaf_map l) k)"
  using leaf.run_all_map [OF assms] leaf.get_law [of l' k] by simp

theorem leaf_refines_map_witness:
  "\<exists>l'. leaf.run_all (puts [\<lparr>row_id = 4, data = [6], is_deleted = False\<rparr>]) leaf_default = (Ok (), l') \<and>
     get_record 4 l' = Ok (Some [6])"
proof -
  let ?rs = "[\<lparr>row_id = 4, data = [6 :: u8], is_deleted = False\<rparr>]"
  obtain l' where l': "leaf.run_all (puts ?rs) leaf_default = (Ok (), l')"
    by (rule build_leaf [of ?rs]) (simp_all add: size_consts rec_bytes_def)
  have "leaf_map leaf_default = Map.empty"
    by (simp add: leaf_map_def rec_map_def leaf_default_wf)
  with leaf_refines_map [OF leaf_default_wf(1) l', of 4] l' show ?thesis by auto
qed

text \<open>
  C16:
  Type soundness of the leaf. Whatever insertion, update or deletion is called on a well-formed
  leaf with whatever key and payload: it answers \<open>Ok\<close> and the leaf is well formed again (its
  slots are a permutation of its records, in strictly ascending order of keys), or it answers an
  error and the leaf is as it was, or it is an insertion over a tombstone that leaves more live
  bytes than a page has, and panics. No other index, slice or assertion can fail.
\<close>

theorem leaf_calls_sound:
  assumes "leaf_wf l" "leaf_run p l = (r, l')"
  shows "r = Ok () \<and> leaf_wf l' \<or> (\<exists>e. r = Err e \<and> l' = l) \<or>
    (\<exists>k v. p = PutOp k v \<and> r = Panic Unreachable \<and> tombstoned l k \<and>
      PAGE_SIZE < live_bytes (slot_records l) + (SLOT_ELEM_SIZE + RECORD_META_SIZE + length v))"
proof (cases p)
  case (PutOp k v)
  show ?thesis by (rule insert_record_cases [OF assms(1), of k v]) (use assms PutOp in auto)
next
  case (SetOp k v)
  show ?thesis by (rule update_record_cases [OF assms(1), of k v]) (use assms SetOp in auto)
next
  case (DelOp k)
  show ?thesis by (rule delete_record_cases [OF assms(1), of k]) (use assms DelOp in auto)
qed

theorem leaf_calls_sound_witness:
  "\<exists>r l'. leaf_run (DelOp 10) sample_leaf = (r, l') \<and> leaf_wf l'"
proof -
  obtain r l' where run: "leaf_run (DelOp 10) sample_leaf = (r, l')" by fastforce
  from leaf_calls_sound [OF sample_leaf_wf(1) run] have "leaf_wf l'" using sample_leaf_wf(1) by auto
  with run show ?thesis by blast
qed

text \<open>
  \<open>compact\<close> drops every tombstone, keeps the live records in key order, and stores
  the exact free space of the page; it panics exactly when the live records exceed a page.
\<close>

theorem compact_correct:
  assumes "leaf_wf l" "compact l = (r, l')"
  shows "if live_bytes (slot_records l) \<le> PAGE_SIZE
    then r = Ok () \<and> leaf_wf l' \<and> leaf_map l' = leaf_map l \<and>
      slot_records l' = live (slot_records l) \<and> records l' = slot_records l' \<and>
      unat (free_size l') + leaf_bytes l' = PAGE_SIZE
    else r = Panic Unreachable"
proof (cases "live_bytes (slot_records l) \<le> PAGE_SIZE")
  case True
  show ?thesis
  proof (rule compact_spec [OF assms(1) True])
    fix t assume t: "compact l = (Ok (), t)" "leaf_wf t" "leaf_fits t" "free_size_exact t"
      "leaf_map t = leaf_map l" "slot_records t = live (slot_records l)"
      "t = (packed (live (slot_records l)) l)\<lparr>free_size := free_size t\<rparr>"
    have "records t = live (slot_records l)" by (subst t(7)) simp
    with t True assms(2) show ?thesis by (simp add: free_size_exact_def leaf_fits_def)
  qed
next
  case False
  then show ?thesis using compact_overflow [OF assms(1)] assms(2) by simp
qed

theorem compact_correct_witness:
  "\<exists>l'. compact sample_leaf = (Ok (), l') \<and> map row_id (records l') = [10, 30]"
proof -
  obtain r l' where run: "compact sample_leaf = (r, l')" by fastforce
  with compact_correct [OF sample_leaf_wf(1) run] show ?thesis
    by (simp add: sample_leaf_facts live_bytes_def rec_bytes_def size_consts)
qed

lemma split_maps:
  assumes "leaf_wf l" "leaf_fits l" "fresh_leaf sib" "split (l, sib) = (r, (l', sib'))"
  shows "leaf_wf l' \<and> leaf_fits l' \<and> leaf_wf sib' \<and> leaf_fits sib' \<and>
    leaf_map l = leaf_map l' ++ leaf_map sib' \<and>
    (if \<forall>q \<in> set (upper_half l). is_deleted q
     then r = Err (CorruptPage EmptyRightSibling) \<and> leaf_map sib' = Map.empty
     else \<exists>p. r = Ok p \<and> p \<in> dom (leaf_map sib') \<and>
       (\<forall>k \<in> dom (leaf_map l'). k < p) \<and> (\<forall>k \<in> dom (leaf_map sib'). p \<le> k))"
proof (rule split_spec [OF assms(1-3)])
  fix t s
  assume run: "split (l, sib) = (if live (upper_half l) = [] then Err (CorruptPage EmptyRightSibling)
      else Ok (row_id (hd (live (upper_half l)))), (t, s))"
    and wf: "leaf_wf t" "leaf_fits t" "leaf_wf s" "leaf_fits s"
    and sr: "slot_records t = live (lower_half l)" "slot_records s = live (upper_half l)"
  have ts: "l' = t" "sib' = s" and r: "r = (if live (upper_half l) = []
      then Err (CorruptPage EmptyRightSibling) else Ok (row_id (hd (live (upper_half l)))))"
    using run assms(4) by simp_all
  have asc: "keys_ascend (lower_half l @ upper_half l)"
    using assms(1) by (simp add: leaf_wf_def halves_append)
  have maps: "leaf_map t = rec_map (lower_half l)" "leaf_map s = rec_map (upper_half l)"
    by (simp_all add: leaf_map_def sr rec_map_filter_live)
  have union: "leaf_map l = leaf_map t ++ leaf_map s"
    using rec_map_append [OF asc] by (simp add: maps halves_append) (simp add: leaf_map_def)
  have dom: "dom (rec_map rs) = row_id ` set (live rs)" for rs
    by (force simp: rec_map_def dom_map_of_conv_image_fst)
  have sep: "row_id x < row_id y" if "x \<in> set (live (lower_half l))" "y \<in> set (live (upper_half l))" for x y
    using asc that by (auto simp: sorted_wrt_append)
  have least: "row_id (hd (live (upper_half l))) \<le> row_id y" if "y \<in> set (live (upper_half l))" for y
  proof -
    have "keys_ascend (live (upper_half l))"
      using asc by (auto simp: sorted_wrt_append intro: keys_ascend_filter)
    with that show ?thesis by (cases "live (upper_half l)") (auto intro: order.strict_implies_order)
  qed
  show ?thesis
  proof (cases "live (upper_half l)")
    case Nil
    then have "\<forall>q \<in> set (upper_half l). is_deleted q" by (simp add: filter_empty_conv)
    moreover have "leaf_map s = Map.empty" using Nil dom [of "upper_half l"] by (simp add: maps)
    ultimately show ?thesis using wf union r Nil by (simp add: ts)
  next
    case (Cons q qs)
    then have q: "q \<in> set (live (upper_half l))" by simp
    then have "\<not> (\<forall>q \<in> set (upper_half l). is_deleted q)" by auto
    moreover have "r = Ok (row_id q)" using r Cons by simp
    moreover have "row_id q \<in> dom (leaf_map s)" using q unfolding maps dom by blast
    moreover have "\<forall>k \<in> dom (leaf_map t). k < row_id q" "\<forall>k \<in> dom (leaf_map s). row_id q \<le> k"
      unfolding maps dom using sep q least Cons by auto
    ultimately show ?thesis using wf union by (simp add: ts)
  qed
qed

text \<open>
  C14: \<open>split\<close> cuts a leaf at a promoted key: every live key of the left half is below it,
  every live key of the new right sibling at or above it, and the two maps together are the
  map before. It fails exactly when the upper half of the slots holds only tombstones.
\<close>

theorem split_correct:
  assumes "leaf_wf l" "leaf_fits l" "fresh_leaf sib" "split (l, sib) = (r, (l', sib'))"
  shows "leaf_wf l' \<and> leaf_fits l' \<and> leaf_wf sib' \<and> leaf_fits sib' \<and>
    leaf_map l = leaf_map l' ++ leaf_map sib' \<and>
    (if \<forall>q \<in> set (upper_half l). is_deleted q
     then r = Err (CorruptPage EmptyRightSibling) \<and> leaf_map sib' = Map.empty
     else \<exists>p. r = Ok p \<and> p \<in> dom (leaf_map sib') \<and>
       (\<forall>k \<in> dom (leaf_map l'). k < p) \<and> (\<forall>k \<in> dom (leaf_map sib'). p \<le> k))"
  by (rule split_maps [OF assms])

theorem split_correct_witness:
  "\<exists>l' s'. split (sample_leaf, leaf_default) = (Ok 30, (l', s')) \<and>
     dom (leaf_map l') \<subseteq> {..<30} \<and> 30 \<in> dom (leaf_map s')"
proof -
  obtain r l' s' where run: "split (sample_leaf, leaf_default) = (r, (l', s'))"
    by (metis prod.collapse)
  have "slot_array sample_leaf = [0, 2, 1]" by (simp add: sample_leaf_def)
  then have up: "upper_half sample_leaf = tl (slot_records sample_leaf)"
    by (simp add: upper_half_def sample_leaf_facts(1))
  have r: "r = Ok 30"
    using split_spec [OF sample_leaf_wf leaf_default_wf(3)] run
    by (auto simp: up sample_leaf_facts(1))
  from split_correct [OF sample_leaf_wf leaf_default_wf(3) run] r run show ?thesis
    by (auto simp: up sample_leaf_facts(1))
qed

section \<open>Behaviours the callers do not expect\<close>

definition rec_of :: "nat \<Rightarrow> u64 \<Rightarrow> db_record" where
  "rec_of n k = \<lparr>row_id = k, data = replicate n 0, is_deleted = False\<rparr>"

lemma rec_of_simps [simp]:
  "row_id (rec_of n k) = k" "length (data (rec_of n k)) = n" "\<not> is_deleted (rec_of n k)"
  "rec_bytes (rec_of n k) = 15 + n"
  by (simp_all add: rec_of_def rec_bytes_def size_consts)

text \<open>One empty record, nine of 400 bytes and one of 280: 4086 of the 4096 bytes of a page.\<close>

definition nearly_full :: "db_record list" where
  "nearly_full = rec_of 0 0 # map (rec_of 400) [1, 2, 3, 4, 5, 6, 7, 8, 9] @ [rec_of 280 10]"

lemma build_nearly_full:
  obtains l where "leaf.run_all (puts nearly_full) leaf_default = (Ok (), l)" "leaf_wf l"
    "slot_records l = nearly_full" "leaf_bytes l = 4086"
proof (rule build_leaf [of nearly_full])
  fix l assume l: "leaf.run_all (puts nearly_full) leaf_default = (Ok (), l)" "leaf_wf l"
    "slot_records l = nearly_full"
  then have "leaf_bytes l = 4086"
    unfolding leaf_bytes_def by (simp add: nearly_full_def size_consts)
  with l show ?thesis by (rule that)
qed (simp_all add: nearly_full_def size_consts)

text \<open>
  C37: a leaf that insertions and one deletion build from an empty page panics on an
  insertion that every check lets through: reviving the tombstone of key 0 with a payload of
  the maximal size overflows the page inside \<open>compact\<close>, where the code says \<open>unreachable!\<close>.
\<close>

theorem revive_tombstone_panics:
  "\<exists>ps l. leaf.run_all ps leaf_default = (Ok (), l) \<and> leaf_wf l \<and> leaf_fits l \<and>
     fst (insert_record 0 (replicate 400 0) l) = Panic Unreachable"
proof (rule build_nearly_full)
  fix l assume l: "leaf.run_all (puts nearly_full) leaf_default = (Ok (), l)" "leaf_wf l"
    "slot_records l = nearly_full" "leaf_bytes l = 4086"
  have present: "key_present l 0"
    by (simp add: key_present_def l(3) nearly_full_def flip: row_ids_slot_records [OF l(2)])
  show ?thesis
  proof (rule delete_present [OF l(2) present])
    fix l' assume l': "delete_record 0 l = (Ok (), l')" "leaf_wf l'" "tombstoned l' 0"
      "leaf_bytes l' = leaf_bytes l"
      "slot_records l' = map (\<lambda>r. if row_id r = 0 then r\<lparr>is_deleted := True\<rparr> else r) (slot_records l)"
    have run: "leaf.run_all (puts nearly_full @ [DelOp 0]) leaf_default = (Ok (), l')"
      by (simp add: leaf.run_all_append l(1) l'(1) del: map_append)
    have "live_bytes (slot_records l') = 4071"
      by (simp add: l'(5) l(3) nearly_full_def live_bytes_def size_consts)
    then have "fst (insert_record 0 (replicate 400 0) l') = Panic Unreachable"
      using insert_tombstone(2) [OF l'(2) _ l'(3), of "replicate 400 0"] by (simp add: size_consts)
    moreover have "leaf_fits l'" using l'(4) l(4) by (simp add: leaf_fits_def size_consts)
    ultimately show ?thesis using run l'(2) by blast
  qed
qed

text \<open>
  \<open>update_record\<close> does not check the page size: insertions and one update, all answered
  with \<open>Ok\<close>, leave a leaf that no longer fits in a page.
\<close>

theorem update_overflows_page:
  "\<exists>ps l. leaf.run_all ps leaf_default = (Ok (), l) \<and> leaf_wf l \<and> \<not> leaf_fits l"
proof (rule build_nearly_full)
  fix l assume l: "leaf.run_all (puts nearly_full) leaf_default = (Ok (), l)" "leaf_wf l"
    "slot_records l = nearly_full" "leaf_bytes l = 4086"
  have present: "key_present l 0"
    by (simp add: key_present_def l(3) nearly_full_def flip: row_ids_slot_records [OF l(2)])
  have len: "length (replicate 399 (0 :: u8)) < MAX_VALUE_SIZE" by (simp add: size_consts)
  show ?thesis
  proof (rule update_present [OF l(2) len present])
    fix l' i assume l': "update_record 0 (replicate 399 0) l = (Ok (), l')" "leaf_wf l'"
      "i < length (slot_array l)" "row_id (slot_records l ! i) = 0"
      "leaf_bytes l' + length (data (slot_records l ! i)) = leaf_bytes l + length (replicate 399 (0 :: u8))"
    have asc: "keys_ascend nearly_full" using l(2,3) by (simp add: leaf_wf_def)
    have "slot_records l ! i \<in> set nearly_full"
      using l'(3) unfolding l(3) [symmetric] by (metis nth_mem slot_records_length)
    moreover have "rec_of 0 0 \<in> set nearly_full" by (simp add: nearly_full_def)
    ultimately have "slot_records l ! i = rec_of 0 0"
      using keys_ascend_inject [OF asc] l'(4) by simp
    then have "leaf_bytes l' = 4485" using l'(5) l(4) by simp
    then have "\<not> leaf_fits l'" by (simp add: leaf_fits_def size_consts)
    moreover have "leaf.run_all (puts nearly_full @ [SetOp 0 (replicate 399 0)]) leaf_default = (Ok (), l')"
      by (simp add: leaf.run_all_append l(1) l'(1) del: map_append)
    ultimately show ?thesis using l'(2) by blast
  qed
qed

text \<open>Ten empty records below nine of 400 bytes.\<close>

definition lopsided :: "db_record list" where
  "lopsided = map (rec_of 0) [1, 2, 3, 4, 5, 6, 7, 8, 9, 10] @
     map (rec_of 400) [11, 12, 13, 14, 15, 16, 17, 18, 19]"

text \<open>
  splitting a full leaf does not always make room. The leaf below is built by insertions;
  a further insertion answers \<open>PageFull\<close>, the split succeeds, the key belongs to the right
  sibling, and inserting it there answers \<open>PageFull\<close> again, after the upper half has already
  left the page.
\<close>

theorem split_does_not_make_room:
  "\<exists>ps l l' sib p. leaf.run_all ps leaf_default = (Ok (), l) \<and>
     insert_record 20 (replicate 400 0) l = (Err PageFull, l) \<and>
     split (l, leaf_default) = (Ok p, (l', sib)) \<and> p \<le> 20 \<and>
     insert_record 20 (replicate 400 0) sib = (Err PageFull, sib) \<and>
     leaf_map l' \<noteq> leaf_map l"
proof (rule build_leaf [of lopsided])
  fix l assume l: "leaf.run_all (puts lopsided) leaf_default = (Ok (), l)" "leaf_wf l" "leaf_fits l"
    "slot_records l = lopsided"
  have len: "length (replicate 400 (0 :: u8)) \<le> MAX_VALUE_SIZE" by (simp add: size_consts)
  have n: "length (slot_array l) = 19"
    using slot_records_length [of l] by (simp add: l(4) lopsided_def)
  have up: "upper_half l = rec_of 0 10 # map (rec_of 400) [11, 12, 13, 14, 15, 16, 17, 18, 19]"
    by (simp add: upper_half_def n l(4) lopsided_def)
  have low: "lower_half l = map (rec_of 0) [1, 2, 3, 4, 5, 6, 7, 8, 9]"
    by (simp add: lower_half_def n l(4) lopsided_def)
  have k: "20 \<notin> row_id ` set (records l)"
    by (simp add: l(4) lopsided_def flip: row_ids_slot_records [OF l(2)])
  have "leaf_bytes l = 3926" by (simp add: leaf_bytes_def l(4) lopsided_def size_consts)
  then have full: "insert_record 20 (replicate 400 0) l = (Err PageFull, l)"
    using insert_absent(1) [OF l(2) len k] by (simp add: size_consts)
  show ?thesis
  proof (rule split_spec [OF l(2,3) leaf_default_wf(3)])
    fix l' sib assume s: "split (l, leaf_default) =
        (if live (upper_half l) = [] then Err (CorruptPage EmptyRightSibling)
         else Ok (row_id (hd (live (upper_half l)))), (l', sib))"
      "leaf_wf l'" "leaf_wf sib" "slot_records l' = live (lower_half l)"
      "slot_records sib = live (upper_half l)" "leaf_bytes sib = live_bytes (upper_half l)"
    have k': "20 \<notin> row_id ` set (records sib)"
      by (simp add: s(5) up flip: row_ids_slot_records [OF s(3)])
    have "leaf_bytes sib = 3791" by (simp add: s(6) up live_bytes_def size_consts)
    then have full': "insert_record 20 (replicate 400 0) sib = (Err PageFull, sib)"
      using insert_absent(1) [OF s(3) len k'] by (simp add: size_consts)
    have "leaf_map l' 19 = None"
      by (simp add: leaf_map_def s(4) low rec_map_absent)
    moreover have "leaf_map l 19 = Some (replicate 400 0)"
      by (simp add: leaf_map_def l(4) lopsided_def rec_map_def rec_of_def)
    ultimately have "leaf_map l' \<noteq> leaf_map l" by auto
    moreover have "split (l, leaf_default) = (Ok 10, (l', sib))" using s(1) by (simp add: up)
    moreover have "(10 :: u64) \<le> 20" by simp
    ultimately show ?thesis using l(1) full full' by blast
  qed
qed (simp_all add: lopsided_def size_consts)

end
