(* ===== verification/Codec_Props.thy ===== *)
theory Codec_Props
  imports Codec_Spec Leaf_Props
begin

text \<open>
  The contract of the page codec, stated as the locale \<open>page_codec\<close> and interpreted on
  \<open>encode\<close> and \<open>decode\<close>, and the properties of the codec: round trip, the size error, the
  corruption error, and the panics of \<open>decode\<close> on corrupt bytes.
\<close>

section \<open>Nodes of either kind\<close>

fun node_wf :: "btree_node \<Rightarrow> bool" where
  "node_wf (Leaf l) = leaf_wf l"
| "node_wf (Internal n) = inner_wf n"

fun node_fits :: "btree_node \<Rightarrow> bool" where
  "node_fits (Leaf l) = leaf_fits l"
| "node_fits (Internal n) = inner_fits n"

text \<open>What a trip to disk makes of a node: the free space is recomputed, the dirty flag cleared.\<close>

fun disk_form :: "btree_node \<Rightarrow> btree_node" where
  "disk_form (Leaf l) = Leaf (l\<lparr>free_size := free_for (leaf_bytes l), is_dirty := False\<rparr>)"
| "disk_form (Internal n) =
     Internal (n\<lparr>inner_free_size := free_for (inner_bytes n), inner_is_dirty := False\<rparr>)"

lemma slot_records_flags [simp]:
  "slot_records (l\<lparr>free_size := f\<rparr>) = slot_records l" "slot_records (l\<lparr>is_dirty := d\<rparr>) = slot_records l"
  "slot_records (l\<lparr>last_lsn := n\<rparr>) = slot_records l"
  "slot_entries (i\<lparr>inner_free_size := f\<rparr>) = slot_entries i"
  "slot_entries (i\<lparr>inner_is_dirty := d\<rparr>) = slot_entries i"
  "slot_entries (i\<lparr>inner_last_lsn := n\<rparr>) = slot_entries i"
  by (simp_all add: slot_records_def slot_entries_def)

lemma leaf_flags [simp]:
  "leaf_wf (l\<lparr>free_size := f\<rparr>) = leaf_wf l" "leaf_wf (l\<lparr>is_dirty := d\<rparr>) = leaf_wf l"
  "leaf_wf (l\<lparr>last_lsn := n\<rparr>) = leaf_wf l"
  "leaf_bytes (l\<lparr>free_size := f\<rparr>) = leaf_bytes l" "leaf_bytes (l\<lparr>is_dirty := d\<rparr>) = leaf_bytes l"
  "leaf_bytes (l\<lparr>last_lsn := n\<rparr>) = leaf_bytes l"
  "leaf_map (l\<lparr>free_size := f\<rparr>) = leaf_map l" "leaf_map (l\<lparr>is_dirty := d\<rparr>) = leaf_map l"
  "leaf_map (l\<lparr>last_lsn := n\<rparr>) = leaf_map l"
  by (simp_all add: leaf_wf_def slots_wf_def leaf_bytes_def leaf_map_def)

lemma inner_flags [simp]:
  "inner_wf (i\<lparr>inner_free_size := f\<rparr>) = inner_wf i" "inner_wf (i\<lparr>inner_is_dirty := d\<rparr>) = inner_wf i"
  "inner_wf (i\<lparr>inner_last_lsn := n\<rparr>) = inner_wf i"
  "inner_bytes (i\<lparr>inner_free_size := f\<rparr>) = inner_bytes i" "inner_bytes (i\<lparr>inner_is_dirty := d\<rparr>) = inner_bytes i"
  "inner_bytes (i\<lparr>inner_last_lsn := n\<rparr>) = inner_bytes i"
  by (simp_all add: inner_wf_def inner_bytes_def)

lemma disk_form_simps [simp]:
  "disk_form (disk_form n) = disk_form n" "node_wf (disk_form n) = node_wf n"
  "node_fits (disk_form n) = node_fits n" "get_last_lsn (disk_form n) = get_last_lsn n"
  "\<not> node_is_dirty (disk_form n)"
  "disk_form (clear_dirty n) = disk_form n" "node_wf (clear_dirty n) = node_wf n"
  "node_fits (clear_dirty n) = node_fits n"
  "node_wf (mark_dirty lsn n) = node_wf n" "node_fits (mark_dirty lsn n) = node_fits n"
  by (cases n; simp add: leaf_fits_def inner_fits_def)+

section \<open>The interface\<close>

locale page_codec =
  fixes enc :: "'n \<Rightarrow> page \<Rightarrow> page result"
    and dec :: "page \<Rightarrow> 'n result"
    and ok :: "'n \<Rightarrow> bool"
    and norm :: "'n \<Rightarrow> 'n"
  assumes enc_dec: "ok n \<Longrightarrow> length page = PAGE_SIZE \<Longrightarrow>
      \<exists>img. enc n page = Ok img \<and> length img = PAGE_SIZE \<and> dec img = Ok (norm n)"
    and norm_ok: "ok n \<Longrightarrow> ok (norm n)"
    and norm_idem: "norm (norm n) = norm n"
begin

lemma enc_Ok: "ok n \<Longrightarrow> length page = PAGE_SIZE \<Longrightarrow> enc n page = Ok img \<Longrightarrow>
    length img = PAGE_SIZE \<and> dec img = Ok (norm n)"
  using enc_dec by fastforce

text \<open>A page that was read back can be written again, and reads back as the same node.\<close>

lemma reencode_stable:
  assumes "ok n" "length page = PAGE_SIZE" "enc n page = Ok img" "dec img = Ok m"
    and "length page' = PAGE_SIZE"
  shows "\<exists>img'. enc m page' = Ok img' \<and> dec img' = Ok m"
proof -
  have "m = norm n" using enc_Ok [OF assms(1-3)] assms(4) by simp
  then show ?thesis using enc_dec [OF norm_ok [OF assms(1)] assms(5)] by (auto simp: norm_idem)
qed

end

lemma codec_roundtrip:
  assumes "node_wf n" "node_fits n" "length page = PAGE_SIZE"
  shows "\<exists>img. encode n page = Ok img \<and> length img = PAGE_SIZE \<and> decode img = Ok (disk_form n)"
proof (cases n)
  case (Leaf l)
  have wf: "slots_wf l" and fits: "leaf_fits l" using assms Leaf by (auto simp: leaf_wf_def)
  let ?n = "length (slot_array l)" and ?cells = "concat (map rec_enc (slot_records l))"
  let ?gap = "take (PAGE_SIZE - leaf_bytes l) (drop (41 + 2 * ?n) page)"
  have bytes: "leaf_bytes l = 41 + 2 * ?n + length ?cells"
    by (simp add: leaf_bytes_eq) (simp add: size_consts)
  have gap: "length ?gap = unat (free_for (leaf_bytes l))"
    unfolding unat_free_for using assms(3) bytes fits by (simp add: leaf_fits_def size_consts)
  have small: "\<forall>r \<in> set (records l). length (data r) < 2 ^ 32"
    using assms(1) Leaf by (auto simp: leaf_wf_def size_consts)
  have "length (leaf_image l (free_for (leaf_bytes l)) ?gap) =
      41 + 2 * ?n + unat (free_for (leaf_bytes l)) + length ?cells"
    by (simp only: leaf_image_def length_append gap) simp
  then have "length (leaf_image l (free_for (leaf_bytes l)) ?gap) = PAGE_SIZE"
    unfolding unat_free_for using bytes fits by (simp add: leaf_fits_def del: length_concat_encs)
  with encode_leaf_eq [OF wf fits assms(3)] decode_leaf_image [OF wf small gap] Leaf
  show ?thesis by simp
next
  case (Internal i)
  have wf: "inner_slots_wf i" and fits: "inner_fits i"
    using assms Internal by (auto simp: inner_wf_def inner_slots_wf_def)
  let ?n = "length (inner_slot_array i)" and ?cells = "concat (map entry_enc (slot_entries i))"
  let ?gap = "take (PAGE_SIZE - inner_bytes i) (drop (31 + 2 * ?n) page)"
  have "length (slot_entries i) = ?n" by (simp add: slot_entries_def)
  then have bytes: "inner_bytes i = 31 + 2 * ?n + length ?cells" by (simp add: inner_bytes_def size_consts)
  have gap: "length ?gap = unat (free_for (inner_bytes i))"
    unfolding unat_free_for using assms(3) bytes fits by (simp add: inner_fits_def size_consts)
  have "length (inner_image i (free_for (inner_bytes i)) ?gap) =
      31 + 2 * ?n + unat (free_for (inner_bytes i)) + length ?cells"
    by (simp only: inner_image_def length_append gap) simp
  then have "length (inner_image i (free_for (inner_bytes i)) ?gap) = PAGE_SIZE"
    unfolding unat_free_for using bytes fits by (simp add: inner_fits_def del: length_concat_encs)
  with encode_internal_eq [OF wf fits assms(3)] decode_inner_image [OF wf fits gap] Internal
  show ?thesis by simp
qed

interpretation codec: page_codec encode decode "\<lambda>n. node_wf n \<and> node_fits n" disk_form
  by unfold_locales (auto intro: codec_roundtrip)

section \<open>Where decoding fails\<close>

lemma reads_no_Err [simp]:
  "read_u8 c \<noteq> Err e" "read_u16 c \<noteq> Err e" "read_u32 c \<noteq> Err e" "read_u64 c \<noteq> Err e"
  "read_bytes n c \<noteq> Err e" "update_index xs i x \<noteq> Err e" "index xs i \<noteq> Err e"
  by (auto simp: read_u8_def read_u16_def read_u32_def read_u64_def read_bytes_def slice_def
      index_def update_index_def)

lemma and_then_eq_Err:
  "and_then r f = Err e \<longleftrightarrow> r = Err e \<or> (\<exists>x. r = Ok x \<and> f x = Err e)"
  by (cases r) auto

lemma read_loops_no_Err [simp]:
  "read_indices n c \<noteq> Err e" "read_cells ss cs c \<noteq> Err e" "read_entries ss es c \<noteq> Err e"
proof -
  show "read_indices n c \<noteq> Err e"
    by (induction n arbitrary: c) (auto simp: and_then_eq_Err split: prod.splits)
  show "read_cells ss cs c \<noteq> Err e"
    by (induction ss arbitrary: cs c) (auto simp: and_then_eq_Err split: prod.splits)
  show "read_entries ss es c \<noteq> Err e"
    by (induction ss arbitrary: es c) (auto simp: and_then_eq_Err split: prod.splits)
qed

lemma decode_parts_no_Err: "decode_leaf c \<noteq> Err e" "decode_internal c \<noteq> Err e"
  unfolding decode_leaf_def decode_internal_def
  by (auto simp: and_then_eq_Err split: prod.splits)

lemma read_indices_short:
  "length (rest c) < 2 * n \<Longrightarrow> read_indices n c = Panic OutOfBounds"
proof (induction n arbitrary: c)
  case (Suc n)
  show ?case
  proof (cases "2 \<le> length (rest c)")
    case True
    with Suc show ?thesis by (simp add: run_simps)
  next
    case False
    then have "read_u16 c = Panic OutOfBounds"
      by (simp add: read_u16_def slice_def rest_def)
    then show ?thesis by simp
  qed
qed simp

lemma encode_full: "node_wf n \<Longrightarrow> \<not> node_fits n \<Longrightarrow> encode n page = Err PageFull"
  using encode_leaf_full encode_internal_full by (cases n) (auto simp: leaf_wf_def)

section \<open>Properties\<close>

text \<open>
  C13: writing a well-formed node that fits into any page buffer and reading the bytes back
  gives the same node, with every record at its position, up to the recomputed free space and
  the cleared dirty flag. Both page kinds.
\<close>

theorem encode_decode_roundtrip:
  assumes "node_wf n" "node_fits n" "length page = PAGE_SIZE"
  shows "\<exists>img. encode n page = Ok img \<and> length img = PAGE_SIZE \<and> decode img = Ok (disk_form n)"
  using assms by (intro codec.enc_dec) auto

theorem encode_decode_roundtrip_witness:
  "\<exists>img. encode (Leaf sample_leaf) page_new = Ok img \<and>
     decode img = Ok (Leaf (sample_leaf\<lparr>free_size := 4006\<rparr>))"
proof -
  have "leaf_bytes sample_leaf = 90"
    by (simp add: leaf_bytes_def sample_leaf_facts rec_bytes_def size_consts)
  moreover have "sample_leaf\<lparr>free_size := f, is_dirty := False\<rparr> = sample_leaf\<lparr>free_size := f\<rparr>" for f
    by (simp add: sample_leaf_def leaf_default_def)
  ultimately show ?thesis
    using encode_decode_roundtrip [of "Leaf sample_leaf" page_new] sample_leaf_wf
    by (auto simp: page_new_def size_consts)
qed

text \<open>
  a node larger than a page is refused with \<open>PageFull\<close>, whatever the page held; so a leaf
  that updates have grown beyond a page can no longer be written.
\<close>

theorem encode_refuses_oversized:
  assumes "node_wf n" "\<not> node_fits n"
  shows "encode n page = Err PageFull"
  by (rule encode_full [OF assms])

theorem encode_refuses_oversized_witness:
  "\<exists>l. leaf_wf l \<and> encode (Leaf l) page_new = Err PageFull"
proof -
  let ?l = "packed (map (rec_of 400) [1, 2, 3, 4, 5, 6, 7, 8, 9, 10]) leaf_default"
  have sr: "slot_records ?l = map (rec_of 400) [1, 2, 3, 4, 5, 6, 7, 8, 9, 10]"
    by (rule slot_records_packed) simp
  have "slots_wf ?l" by (rule slots_wf_packed) simp
  then have wf: "leaf_wf ?l" unfolding leaf_wf_def sr by (simp add: size_consts)
  have "\<not> leaf_fits ?l" unfolding leaf_fits_def leaf_bytes_def sr by (simp add: size_consts)
  then show ?thesis using wf encode_refuses_oversized [of "Leaf ?l" page_new] by auto
qed

text \<open>
  the only error \<open>decode\<close> ever returns is \<open>CorruptPage\<close> for an unknown node type byte,
  and it returns it for every page with such a byte.
\<close>

theorem decode_error_iff:
  assumes "length page = PAGE_SIZE"
  shows "decode page = Err e \<longleftrightarrow>
    hd page \<notin> {0, 1} \<and> e = CorruptPage (UnknownNodeType (hd page))"
proof -
  have "page \<noteq> []" using assms by (auto simp: size_consts)
  then have "read_u8 (cursor_new page) = Ok (hd page, advance 1 (cursor_new page))"
    by (simp add: run_simps)
  then show ?thesis by (auto simp: decode_def decode_parts_no_Err)
qed

theorem decode_error_iff_witness:
  "decode (99 # replicate 4095 0) = Err (CorruptPage (UnknownNodeType 99))"
  using decode_error_iff [of "99 # replicate 4095 0"] by (simp add: size_consts)

lemma read_u16_short: "length (rest c) < 2 \<Longrightarrow> read_u16 c = Panic OutOfBounds"
  by (simp add: read_u16_def slice_def rest_def)

lemma read_indices_total:
  "2 * n \<le> length (rest c) \<Longrightarrow> \<exists>ixs. read_indices n c = Ok (ixs, advance (2 * n) c)"
proof (induction n arbitrary: c)
  case (Suc n)
  then have "2 * n \<le> length (rest (advance 2 c))" by simp
  from Suc.IH [OF this] obtain ixs where
    "read_indices n (advance 2 c) = Ok (ixs, advance (2 * Suc n) c)" by auto
  then show ?case using Suc.prems by (simp add: run_simps)
qed (simp add: advance_def)

lemma read_slots_short:
  assumes "length (rest c) < 2 * n + 2"
  shows "and_then (read_indices n c) (\<lambda>(ixs, c). and_then (read_u16 c) (f ixs)) = Panic OutOfBounds"
proof (cases "2 * n \<le> length (rest c)")
  case True
  then obtain ixs where "read_indices n c = Ok (ixs, advance (2 * n) c)" using read_indices_total by blast
  moreover have "read_u16 (advance (2 * n) c) = Panic OutOfBounds"
    using assms by (intro read_u16_short) simp
  ultimately show ?thesis by simp
next
  case False
  then show ?thesis using read_indices_short [of c n] by simp
qed

text \<open>
  C38: a corrupt count is not reported but panics. Let a page be tagged as a leaf and claim a
  number of slots that does not fit into a page behind the header of a leaf (the count stands
  at byte 35), or be tagged as an internal node and claim more than fits behind that header
  (byte 25). Then \<open>decode\<close> panics on a slice out of range, whatever the other bytes are. Counts
  above \<open>65535\<close> are left out: for those the code may fail earlier, when it reserves memory for
  them.
\<close>

theorem decode_corrupt_count_panics:
  assumes "length page = PAGE_SIZE"
    and "hd page = 1 \<and> n = unat (u32_from_le (take 4 (drop 35 page))) \<and> PAGE_SIZE < LEAF_NODE_HEADER_SIZE + 2 * n \<or>
      hd page = 0 \<and> n = unat (u32_from_le (take 4 (drop 25 page))) \<and> PAGE_SIZE < INTERNAL_NODE_HEADER_SIZE + 2 * n"
    and "n \<le> 65535"
  shows "decode page = Panic OutOfBounds"
proof -
  have start: "rest (cursor_new page) = page" and len: "length page = 4096" and ne: "page \<noteq> []"
    using assms(1) by (auto simp: size_consts)
  from assms(2) show ?thesis
  proof (elim disjE conjE)
    assume t: "hd page = 1" and n: "n = unat (u32_from_le (take 4 (drop 35 page)))"
      and big: "PAGE_SIZE < LEAF_NODE_HEADER_SIZE + 2 * n"
    have "length (rest (advance 39 (cursor_new page))) < 2 * n + 2" using big len by (simp add: size_consts)
    from read_slots_short [OF this] show ?thesis
      by (simp add: decode_def decode_leaf_def run_simps ne len t n [symmetric])
  next
    assume t: "hd page = 0" and n: "n = unat (u32_from_le (take 4 (drop 25 page)))"
      and big: "PAGE_SIZE < INTERNAL_NODE_HEADER_SIZE + 2 * n"
    have "length (rest (advance 29 (cursor_new page))) < 2 * n + 2" using big len by (simp add: size_consts)
    from read_slots_short [OF this] show ?thesis
      by (simp add: decode_def decode_internal_def run_simps ne len t n [symmetric])
  qed
qed

theorem decode_corrupt_count_panics_witness:
  "decode (1 # replicate 34 0 @ [236, 7, 0, 0] @ replicate 4057 0) = Panic OutOfBounds"
proof -
  have "unat (u32_from_le [236, 7, 0, 0]) = 2028" by code_simp
  then show ?thesis
    by (intro decode_corrupt_count_panics [of _ 2028]) (simp_all add: size_consts)
qed

text \<open>
  a page of zeroes, such as a hole in the database file, decodes without an error as an
  empty internal node whose only child is page 0, the file header.
\<close>

theorem decode_zero_page:
  "decode page_new = Ok (Internal internal_default)"
proof -
  define img :: page where "img = page_new"
  have start: "rest (cursor_new img) = replicate 4096 0" by (simp add: img_def page_new_def size_consts)
  have "u64_from_le (replicate 8 0) = 0" "u32_from_le (replicate 4 0) = 0" "u16_from_le (replicate 2 0) = 0"
    by code_simp+
  then have "decode img = Ok (Internal internal_default)"
    by (simp add: decode_def decode_internal_def run_simps start take_replicate drop_replicate
        internal_default_def del: rest_cursor_new)
  then show ?thesis by (simp add: img_def)
qed

end
