(* ===== verification/Disk_Props.thy ===== *)
theory Disk_Props
  imports Disk_Manager Codec_Props
begin

text \<open>
  The contract of the disk manager as a store of pages (\<open>page_store\<close>), joined with the codec
  into a store of nodes (\<open>node_store\<close>), both interpreted on the model; then the properties of
  page writes, of the file header and of the page allocator.
\<close>

section \<open>The interfaces\<close>

locale page_store =
  fixes rd :: "page_id \<Rightarrow> 'd \<Rightarrow> page result \<times> 'd"
    and wr :: "page_id \<Rightarrow> page \<Rightarrow> 'd \<Rightarrow> unit result \<times> 'd"
    and view :: "'d \<Rightarrow> page_id \<Rightarrow> page option"
    and slot :: "page_id \<Rightarrow> bool"
  assumes rd_view: "rd p d = (Ok x, d') \<Longrightarrow> view d p = Some x"
    and rd_frame: "rd p d = (r, d') \<Longrightarrow> view d' = view d"
    and wr_same: "length x = PAGE_SIZE \<Longrightarrow> wr p x d = (Ok (), d') \<Longrightarrow> view d' p = Some x"
    and wr_other: "slot p \<Longrightarrow> slot q \<Longrightarrow> p \<noteq> q \<Longrightarrow> length x = PAGE_SIZE \<Longrightarrow> wr p x d = (w, d') \<Longrightarrow>
      view d q = Some y \<Longrightarrow> view d' q = Some y"
begin

lemma read_own_write:
  assumes "length x = PAGE_SIZE" "wr p x d = (Ok (), d')" "rd p d' = (Ok y, d'')"
  shows "y = x"
  using wr_same [OF assms(1,2)] rd_view [OF assms(3)] by simp

lemma read_after_other_write:
  assumes "slot p" "slot q" "p \<noteq> q" "length x = PAGE_SIZE" "wr p x d = (r, d')"
    and "view d q = Some z" "rd q d' = (Ok y, d'')"
  shows "y = z"
  using wr_other [OF assms(1-6)] rd_view [OF assms(7)] by simp

end

locale node_store = page_store rd wr view slot + page_codec enc dec ok norm
  for rd :: "page_id \<Rightarrow> 'd \<Rightarrow> page result \<times> 'd"
    and wr :: "page_id \<Rightarrow> page \<Rightarrow> 'd \<Rightarrow> unit result \<times> 'd"
    and view :: "'d \<Rightarrow> page_id \<Rightarrow> page option"
    and slot :: "page_id \<Rightarrow> bool"
    and enc :: "'n \<Rightarrow> page \<Rightarrow> page result"
    and dec :: "page \<Rightarrow> 'n result"
    and ok :: "'n \<Rightarrow> bool"
    and norm :: "'n \<Rightarrow> 'n"
begin

definition stored :: "'d \<Rightarrow> page_id \<Rightarrow> 'n option" where
  "stored d p = (case view d p of None \<Rightarrow> None
     | Some x \<Rightarrow> (case dec x of Ok n \<Rightarrow> Some n | _ \<Rightarrow> None))"

lemma stored_after_write:
  assumes "ok n" "length page = PAGE_SIZE" "enc n page = Ok img" "wr p img d = (Ok (), d')"
  shows "stored d' p = Some (norm n)"
  using enc_Ok [OF assms(1-3)] wr_same [OF _ assms(4)] by (simp add: stored_def)

lemma stored_other_write:
  assumes "slot p" "slot q" "p \<noteq> q" "ok n" "length page = PAGE_SIZE" "enc n page = Ok img"
    and "wr p img d = (r, d')" "stored d q = Some m"
  shows "stored d' q = Some m"
proof -
  obtain y where y: "view d q = Some y" using assms(8) by (cases "view d q") (auto simp: stored_def)
  have "view d' q = Some y"
    using wr_other [OF assms(1-3) _ assms(7) y] enc_Ok [OF assms(4-6)] by simp
  with assms(8) y show ?thesis by (simp add: stored_def)
qed

lemma load_stored:
  assumes "rd p d = (Ok x, d')"
  shows "dec x = Ok n \<longleftrightarrow> stored d p = Some n" and "stored d' = stored d"
proof -
  show "dec x = Ok n \<longleftrightarrow> stored d p = Some n"
    using rd_view [OF assms] by (auto simp: stored_def split: result.splits)
  show "stored d' = stored d" by (rule ext) (simp add: stored_def rd_frame [OF assms])
qed

end

section \<open>The disk manager provides them\<close>

lemma disk_page_eqI: "content (db_file d') = content (db_file d) \<Longrightarrow> disk_page d' = disk_page d"
  by (rule ext) (simp add: disk_page_def)

lemma write_page_other:
  assumes "page_offset p" "page_offset q" "p \<noteq> q" "length x \<le> PAGE_SIZE" "write_page p x d = (r, d')"
    and "disk_page d q = Some y"
  shows "disk_page d' q = Some y"
proof -
  obtain n where "content (db_file d') = pwrite (content (db_file d)) (unat p) (take n x)"
    using write_page_any [OF assms(5)] by blast
  moreover have "unat q + PAGE_SIZE \<le> unat p \<or> unat p + length (take n x) \<le> unat q"
    using page_offset_disjoint [OF assms(1-3)] assms(4) by auto
  ultimately show ?thesis using assms(6) page_at_pwrite_other by (simp add: disk_page_def)
qed

interpretation disk: node_store read_page write_page disk_page page_offset
    encode decode "\<lambda>n. node_wf n \<and> node_fits n" disk_form
proof unfold_locales
  fix p d x d' assume "read_page p d = (Ok x, d')"
  then show "disk_page d p = Some x" using read_page_Ok by blast
next
  fix p d r d' assume "read_page p d = (r, d')"
  then show "disk_page d' = disk_page d" using read_page_frame disk_page_eqI by blast
next
  fix x p d d' assume "length x = PAGE_SIZE" "write_page p x d = (Ok (), d')"
  then show "disk_page d' p = Some x"
    using page_at_pwrite_same write_page_Ok by (simp add: disk_page_def)
next
  fix p q x d r d' y
  assume "page_offset p" "page_offset q" "p \<noteq> q" "length x = PAGE_SIZE" "write_page p x d = (r, d')"
    "disk_page d q = Some y"
  then show "disk_page d' q = Some y" by (intro write_page_other [of p q x d r d' y]) auto
qed

lemma read_page_reliable:
  assumes "io_plan (db_file d) = []" "unat p + PAGE_SIZE < 2 ^ 63"
  shows "read_page p d =
    (case disk_page d p of Some x \<Rightarrow> Ok x | None \<Rightarrow> Err (Io UnexpectedEof), d)"
  using assms by (simp add: read_page_def read_exact_at_def offset_ok_def disk_page_def page_at_def)

lemma save_header_other:
  assumes "page_offset q" "save_header d = (r, d')" "disk_page d q = Some y"
  shows "disk_page d' q = Some y"
proof -
  obtain n where c: "content (db_file d') =
      pwrite (content (db_file d)) 0 (take n (header_to_bytes (header d)))"
    using save_header_any [OF assms(2)] by blast
  have "length (take n (header_to_bytes (header d))) \<le> unat q"
    using assms(1) by (auto simp: page_offset_def size_consts min_def)
  with assms(3) c page_at_pwrite_other [of "content (db_file d)" q y 0] show ?thesis
    by (simp add: disk_page_def)
qed

lemma save_header_Ok:
  assumes "save_header d = (Ok (), d')"
  shows "take 28 (content (db_file d')) = header_to_bytes (header d)"
    and "durable (db_file d') = content (db_file d')" and "header d' = header d"
proof -
  have w: "\<exists>f. write_all_at (header_to_bytes (header d)) 0 (db_file d) = (Ok (), f) \<and>
      sync_all f = (Ok (), db_file d') \<and> header d' = header d"
    using assms by (auto simp: save_header_def then_do_eq_Ok split: prod.splits)
  then obtain f where f: "write_all_at (header_to_bytes (header d)) 0 (db_file d) = (Ok (), f)"
    and s: "sync_all f = (Ok (), db_file d')" and h: "header d' = header d" by blast
  have "content f = pwrite (content (db_file d)) 0 (header_to_bytes (header d))"
    using f by (auto simp: write_all_at_def dest!: io_step_frame split: if_splits prod.splits option.splits)
  moreover have c: "content (db_file d') = content f \<and> durable (db_file d') = content f"
    using sync_all_frame [OF s] by simp
  ultimately show "take 28 (content (db_file d')) = header_to_bytes (header d)"
    using pwrite_same [of "header_to_bytes (header d)" 0 "content (db_file d)"] by simp
  show "durable (db_file d') = content (db_file d')" using c by simp
  show "header d' = header d" by (rule h)
qed

lemma disk_open_header:
  assumes "io_plan f = []" "28 \<le> length (content f)"
  shows "disk_open f = (Ok \<lparr>db_file = f, header = header_from_bytes (take 28 (content f))\<rparr>, f)"
  using assms by (auto simp: disk_open_def read_exact_at_def offset_ok_def)

lemma disk_open_empty:
  "io_plan f = [] \<Longrightarrow> content f = [] \<Longrightarrow>
   disk_open f = (Ok \<lparr>db_file = f, header = file_header_default\<rparr>, f)"
  by (simp add: disk_open_def)

lemma allocate_page_eq:
  "allocate_page d = (Ok p, d') \<longleftrightarrow>
   p = next_free_offset (header d) \<and> unat p + PAGE_SIZE < 2 ^ 64 \<and>
   d' = d\<lparr>header := (header d)\<lparr>next_free_offset := p + word_of_nat PAGE_SIZE\<rparr>\<rparr>"
  by (auto simp: allocate_page_def Let_def)

lemma unat_next_page: "unat p + PAGE_SIZE < 2 ^ 64 \<Longrightarrow> unat (p + word_of_nat PAGE_SIZE :: u64) = unat p + PAGE_SIZE"
  by (simp add: unat_word_ariths size_consts)

text \<open>The allocator called \<open>n\<close> times.\<close>

primrec allocate_pages :: "nat \<Rightarrow> disk_manager \<Rightarrow> page_id list result \<times> disk_manager" where
  "allocate_pages 0 d = (Ok [], d)"
| "allocate_pages (Suc n) d =
     then_do (allocate_page d) (\<lambda>p d. then_do (allocate_pages n d) (\<lambda>ps d. (Ok (p # ps), d)))"

section \<open>Properties\<close>

text \<open>A disk manager over a fresh file.\<close>

definition fresh_disk :: disk_manager where
  "fresh_disk = \<lparr>db_file = new_file, header = file_header_default\<rparr>"

text \<open>
  C24:
  \<open>write_page\<close> followed by \<open>read_page\<close>. After a successful write the page reads back as
  written, whatever the file held. Whether the write succeeded, failed, or failed half way, every
  other page of the file still reads back as it did before: pages at distinct page offsets never
  share a byte, and neither do they with the header.
\<close>

theorem write_page_isolated:
  assumes "page_offset p" "page_offset q" "unat q + PAGE_SIZE < 2 ^ 63" "length x = PAGE_SIZE"
    and "write_page p x d = (r, d')" "io_plan (db_file d') = []"
  shows "(r = Ok () \<and> q = p \<longrightarrow> fst (read_page q d') = Ok x) \<and>
    (q \<noteq> p \<and> disk_page d q = Some y \<longrightarrow> fst (read_page q d') = Ok y) \<and>
    (save_header d' = (s, d'') \<and> io_plan (db_file d'') = [] \<and> disk_page d' q = Some z \<longrightarrow>
      fst (read_page q d'') = Ok z)"
proof -
  have r1: "r = Ok () \<and> q = p \<longrightarrow> fst (read_page q d') = Ok x"
    using disk.wr_same [OF assms(4)] assms(5) read_page_reliable [OF assms(6,3)] by auto
  have r2: "q \<noteq> p \<and> disk_page d q = Some y \<longrightarrow> fst (read_page q d') = Ok y"
    using disk.wr_other [OF assms(1,2) _ assms(4,5)] read_page_reliable [OF assms(6,3)] by auto
  have r3: "save_header d' = (s, d'') \<and> io_plan (db_file d'') = [] \<and> disk_page d' q = Some z \<longrightarrow>
      fst (read_page q d'') = Ok z"
    using save_header_other [OF assms(2)] read_page_reliable [OF _ assms(3)] by auto
  show ?thesis by (rule conjI [OF r1 conjI [OF r2 r3]])
qed

theorem write_page_isolated_witness:
  "\<exists>d'. write_page 4096 (replicate PAGE_SIZE 7) fresh_disk = (Ok (), d') \<and>
     fst (read_page 4096 d') = Ok (replicate PAGE_SIZE 7)"
proof -
  define d' where "d' = snd (write_page 4096 (replicate PAGE_SIZE 7) fresh_disk)"
  have off: "page_offset 4096" by (simp add: page_offset_def size_consts)
  have w: "write_page 4096 (replicate PAGE_SIZE 7) fresh_disk = (Ok (), d')"
    and p: "io_plan (db_file d') = []"
    unfolding d'_def by (simp_all add: write_page_def write_all_at_def offset_ok_def fresh_disk_def
        new_file_def size_consts)
  have "fst (read_page 4096 d') = Ok (replicate PAGE_SIZE 7)"
    using write_page_isolated [OF off off _ _ w p] by (simp add: size_consts)
  with w show ?thesis by blast
qed

lemma reopen_saved:
  assumes "save_header d = (Ok (), d')" "content g = durable (db_file d')" "io_plan g = []"
  shows "\<exists>e. disk_open g = (Ok e, g) \<and> header e = header d \<and>
      (\<forall>q y. page_offset q \<and> disk_page d q = Some y \<longrightarrow> disk_page e q = Some y)"
proof -
  have c: "content g = content (db_file d')" and t: "take 28 (content g) = header_to_bytes (header d)"
    using save_header_Ok [OF assms(1)] assms(2) by simp_all
  have "28 \<le> length (content g)" using arg_cong [OF t, of length] by (simp add: min_def split: if_splits)
  then have o: "disk_open g = (Ok \<lparr>db_file = g, header = header d\<rparr>, g)"
    using disk_open_header [OF assms(3)] t by simp
  moreover have "disk_page \<lparr>db_file = g, header = header d\<rparr> = disk_page d'"
    by (rule disk_page_eqI) (simp add: c)
  ultimately show ?thesis using save_header_other [OF _ assms(1)] by simp
qed

text \<open>
  A header that was saved is the header the file opens with, also after a crash: \<open>save_header\<close>
  answers \<open>Ok\<close> only once the file is durable. The file opens to the saved row id, root, log
  sequence number and allocation mark, and to the same pages; a new, empty file opens to the
  defaults.
\<close>

theorem saved_header_reopens:
  assumes "save_header d = (Ok (), d')" "content g = durable (db_file d')" "io_plan g = []"
  shows "\<exists>e. disk_open g = (Ok e, g) \<and> header e = header d \<and>
      (\<forall>q y. page_offset q \<and> disk_page d q = Some y \<longrightarrow> disk_page e q = Some y)"
  by (rule reopen_saved [OF assms])

theorem saved_header_reopens_witness:
  "\<exists>d' e. save_header fresh_disk = (Ok (), d') \<and> disk_open (db_file d') = (Ok e, db_file d') \<and>
     next_free_offset (header e) = 4096"
proof -
  define d' where "d' = snd (save_header fresh_disk)"
  have s: "save_header fresh_disk = (Ok (), d')" "io_plan (db_file d') = []"
    unfolding d'_def by (simp_all add: save_header_def write_all_at_def sync_all_def offset_ok_def
        fresh_disk_def new_file_def)
  obtain e where "disk_open (db_file d') = (Ok e, db_file d')" "header e = header fresh_disk"
    using saved_header_reopens [OF s(1) _ s(2)] save_header_Ok(2) [OF s(1)] by auto
  then show ?thesis using s(1)
    by (simp add: fresh_disk_def file_header_default_def PAGE_SIZE_def)
qed

text \<open>
  C29:
  The allocator, called any number of times on a state whose next free offset is a page offset.
  The pages it hands out are page offsets, in ascending order without overlap, at or above the
  old mark and below the new one, which is again a page offset; nothing but the mark changes.
  The first call that does not succeed is an overflow of the 64-bit offset, never an overlap.
\<close>

theorem allocate_pages_correct:
  assumes "page_offset (next_free_offset (header d))"
  shows "case allocate_pages n d of
      (Ok ps, d') \<Rightarrow> length ps = n \<and> page_offset (next_free_offset (header d')) \<and>
        db_file d' = db_file d \<and> next_lsn (header d') = next_lsn (header d) \<and>
        sorted_wrt (\<lambda>p q. unat p + PAGE_SIZE \<le> unat q) ps \<and>
        (\<forall>p \<in> set ps. page_offset p \<and> unat (next_free_offset (header d)) \<le> unat p \<and>
           unat p + PAGE_SIZE \<le> unat (next_free_offset (header d')))
    | (Err e, d') \<Rightarrow> False
    | (Panic e, d') \<Rightarrow> 2 ^ 64 \<le> unat (next_free_offset (header d)) + n * PAGE_SIZE
    | (Hang, d') \<Rightarrow> False"
  using assms
proof (induction n arbitrary: d)
  case (Suc n)
  define p where "p = next_free_offset (header d)"
  define d1 where "d1 = d\<lparr>header := (header d)\<lparr>next_free_offset := p + word_of_nat PAGE_SIZE\<rparr>\<rparr>"
  show ?case
  proof (cases "unat p + PAGE_SIZE < 2 ^ 64")
    case True
    then have a: "allocate_page d = (Ok p, d1)" by (simp add: allocate_page_eq p_def d1_def)
    have nxt: "unat (next_free_offset (header d1)) = unat p + PAGE_SIZE"
      using unat_next_page [OF True] by (simp add: d1_def)
    have "page_offset (next_free_offset (header d1))"
      using Suc.prems nxt by (simp add: page_offset_def p_def)
    note IH = Suc.IH [OF this]
    have fr: "db_file d1 = db_file d" "next_lsn (header d1) = next_lsn (header d)"
      by (simp_all add: d1_def)
    obtain r d2 where r: "allocate_pages n d1 = (r, d2)" by fastforce
    show ?thesis
    proof (cases r)
      case (Ok ps)
      have IH': "length ps = n" "page_offset (next_free_offset (header d2))"
        "db_file d2 = db_file d1" "next_lsn (header d2) = next_lsn (header d1)"
        "sorted_wrt (\<lambda>p q. unat p + PAGE_SIZE \<le> unat q) ps"
        "\<And>q. q \<in> set ps \<Longrightarrow> page_offset q \<and> unat p + PAGE_SIZE \<le> unat q \<and> unat p \<le> unat q \<and>
           unat q + PAGE_SIZE \<le> unat (next_free_offset (header d2))"
        using IH unfolding r Ok nxt by auto
      have top: "unat p + PAGE_SIZE \<le> unat (next_free_offset (header d2))"
      proof (cases ps)
        case Nil
        then have "d2 = d1" using r Ok IH'(1) by (cases n) auto
        with nxt show ?thesis by simp
      next
        case (Cons q qs)
        then show ?thesis using IH'(6) [of q] by simp
      qed
      have res: "allocate_pages (Suc n) d = (Ok (p # ps), d2)" using a r Ok by simp
      show ?thesis unfolding res using IH' fr Suc.prems top by (auto simp: p_def [symmetric])
    next
      case (Panic e)
      then show ?thesis using IH a r nxt by (simp add: p_def algebra_simps)
    qed (use IH r in auto)
  next
    case False
    then have "allocate_page d = (Panic ArithmeticOverflow, d)" by (simp add: allocate_page_def Let_def p_def)
    then show ?thesis using False by (simp add: p_def algebra_simps)
  qed
qed simp

theorem allocate_pages_correct_witness:
  "\<exists>ps d'. allocate_pages 3 fresh_disk = (Ok ps, d') \<and> length ps = 3 \<and>
     sorted_wrt (\<lambda>p q. unat p + PAGE_SIZE \<le> unat q) ps"
proof -
  have "page_offset (next_free_offset (header fresh_disk))"
    by (simp add: page_offset_def fresh_disk_def file_header_default_def size_consts)
  note c = allocate_pages_correct [OF this, of 3]
  show ?thesis using c
    by (auto simp: fresh_disk_def file_header_default_def size_consts split: prod.splits result.splits)
qed

text \<open>
  C39:
  Without \<open>save_header\<close> the allocation mark is lost. On a fresh file, page 4096 is allocated and
  written, which leaves the first 4096 bytes of the file zero; the next start finds a non-empty
  file, reads a header of zeroes, and its allocator hands out page 0, the header's own page, and
  then page 4096 again, whose contents are still there.
\<close>

theorem unsaved_header_reallocates:
  "case allocate_page fresh_disk of (p, d1) \<Rightarrow> case write_page 4096 (replicate PAGE_SIZE 7) d1 of (w, d2) \<Rightarrow>
     p = Ok 4096 \<and> w = Ok () \<and> disk_page d2 4096 = Some (replicate PAGE_SIZE 7) \<and>
     (\<exists>e. disk_open (db_file d2) = (Ok e, db_file d2) \<and> next_free_offset (header e) = 0 \<and>
       fst (allocate_pages 2 e) = Ok [0, 4096])"
proof -
  define f where "f = new_file\<lparr>content := replicate 4096 0 @ replicate 4096 (7::u8)\<rparr>"
  define d2 where "d2 = \<lparr>db_file = f, header = file_header_default\<lparr>next_free_offset := 8192\<rparr>\<rparr>"
  have a: "allocate_page fresh_disk = (Ok 4096, fresh_disk\<lparr>header := file_header_default\<lparr>next_free_offset := 8192\<rparr>\<rparr>)"
    by (simp add: allocate_page_def fresh_disk_def file_header_default_def size_consts)
  have w: "write_page 4096 (replicate PAGE_SIZE 7) (fresh_disk\<lparr>header := file_header_default\<lparr>next_free_offset := 8192\<rparr>\<rparr>)
      = (Ok (), d2)"
    by (simp add: write_page_def write_all_at_def offset_ok_def fresh_disk_def new_file_def
        pwrite_def d2_def f_def size_consts)
  have p: "disk_page d2 4096 = Some (replicate PAGE_SIZE 7)"
    by (simp add: disk_page_def page_at_def d2_def f_def size_consts)
  have t: "take 28 (content f) = replicate 28 0" by (simp add: f_def)
  have zero: "header_from_bytes (replicate 28 0) =
      \<lparr>last_row_id = 0, page_root_offset = 0, next_lsn = 0, next_free_offset = 0\<rparr>"
    by code_simp
  have o: "disk_open f = (Ok \<lparr>db_file = f, header =
      \<lparr>last_row_id = 0, page_root_offset = 0, next_lsn = 0, next_free_offset = 0\<rparr>\<rparr>, f)"
    using disk_open_header [of f] t zero by (simp add: f_def new_file_def)
  have n: "fst (allocate_pages 2 \<lparr>db_file = f, header =
      \<lparr>last_row_id = 0, page_root_offset = 0, next_lsn = 0, next_free_offset = 0\<rparr>\<rparr>) = Ok [0, 4096]"
    unfolding numeral_2_eq_2 by (simp add: allocate_page_def size_consts)
  show ?thesis using a w p o n by (simp add: d2_def)
qed

end
