(* ===== verification/Lru_Replacer.thy ===== *)
theory Lru_Replacer
  imports Smol_Prelude
begin

text \<open>
  \<open>LruReplacer\<close> of \<open>src/storage/lru.rs\<close>: a doubly linked list threaded through the vector
  \<open>arena\<close>, a map from page to arena index, and a stack of free slots. Every access to the
  arena is a checked index. \<open>free_list\<close> pushes and pops at its end.
\<close>

record lru_node =
  node_prev :: "usize option"
  node_page :: page_id
  node_next :: "usize option"

record lru_replacer =
  pages :: "(page_id \<times> usize) list"
  arena :: "lru_node list"
  head_idx :: "usize option"
  tail_idx :: "usize option"
  lru_capacity :: usize
  free_list :: "usize list"

definition lru_new :: "usize \<Rightarrow> lru_replacer" where
  "lru_new capacity = \<lparr>pages = [], arena = [], head_idx = None, tail_idx = None,
     lru_capacity = capacity, free_list = []\<rparr>"

definition lru_size :: "lru_replacer \<Rightarrow> usize" where
  "lru_size self = length (pages self)"

text \<open>The assignments \<open>arena[idx].prev = p\<close> and \<open>arena[idx].next = n\<close>.\<close>

definition set_prev :: "usize \<Rightarrow> usize option \<Rightarrow> lru_replacer \<Rightarrow> lru_replacer result" where
  "set_prev idx p self = and_then (index (arena self) idx) (\<lambda>n.
     Ok (self\<lparr>arena := (arena self)[idx := n\<lparr>node_prev := p\<rparr>]\<rparr>))"

definition set_next :: "usize \<Rightarrow> usize option \<Rightarrow> lru_replacer \<Rightarrow> lru_replacer result" where
  "set_next idx q self = and_then (index (arena self) idx) (\<lambda>n.
     Ok (self\<lparr>arena := (arena self)[idx := n\<lparr>node_next := q\<rparr>]\<rparr>))"

definition insert_head :: "usize \<Rightarrow> lru_replacer \<Rightarrow> lru_replacer result" where
  "insert_head idx self =
     and_then (set_prev idx None self) (\<lambda>self.
     and_then (set_next idx (head_idx self) self) (\<lambda>self.
     and_then (case head_idx self of
         Some h_idx \<Rightarrow> set_prev h_idx (Some idx) self
       | None \<Rightarrow> Ok (self\<lparr>tail_idx := Some idx\<rparr>)) (\<lambda>self.
     Ok (self\<lparr>head_idx := Some idx\<rparr>))))"

definition unlink :: "usize \<Rightarrow> lru_replacer \<Rightarrow> lru_replacer result" where
  "unlink idx self =
     and_then (index (arena self) idx) (\<lambda>n.
       let prev_idx = node_prev n; next_idx = node_next n
       in and_then (case prev_idx of
              Some p_idx \<Rightarrow> set_next p_idx next_idx self
            | None \<Rightarrow> Ok (self\<lparr>head_idx := next_idx\<rparr>)) (\<lambda>self.
          case next_idx of
              Some n_idx \<Rightarrow> set_prev n_idx prev_idx self
            | None \<Rightarrow> Ok (self\<lparr>tail_idx := prev_idx\<rparr>)))"

text \<open>A node for a new page, in a free slot or at the end of the arena.\<close>

definition new_slot :: "page_id \<Rightarrow> lru_replacer \<Rightarrow> (usize \<times> lru_replacer) result" where
  "new_slot page_id self =
     (let node = \<lparr>node_prev = None, node_page = page_id, node_next = None\<rparr>
      in if free_list self \<noteq> []
         then let free_idx = last (free_list self)
              in and_then (update_index (arena self) free_idx node) (\<lambda>ar.
                   Ok (free_idx, self\<lparr>arena := ar, free_list := butlast (free_list self)\<rparr>))
         else Ok (length (arena self), self\<lparr>arena := arena self @ [node]\<rparr>))"

definition record_access :: "page_id \<Rightarrow> lru_replacer \<Rightarrow> lru_replacer result" where
  "record_access page_id self =
     (case map_of (pages self) page_id of
        Some idx \<Rightarrow> and_then (unlink idx self) (insert_head idx)
      | None \<Rightarrow>
          if \<not> length (pages self) < lru_capacity self then Panic CapacityExceeded
          else and_then (new_slot page_id self) (\<lambda>(new_idx, self).
                 insert_head new_idx (self\<lparr>pages := AList.update page_id new_idx (pages self)\<rparr>)))"

definition lru_remove :: "page_id \<Rightarrow> lru_replacer \<Rightarrow> lru_replacer result" where
  "lru_remove page_id self =
     (case map_of (pages self) page_id of
        Some idx \<Rightarrow>
          and_then (unlink idx (self\<lparr>pages := AList.delete page_id (pages self)\<rparr>)) (\<lambda>self.
            Ok (self\<lparr>free_list := free_list self @ [idx]\<rparr>))
      | None \<Rightarrow> Ok self)"

text \<open>Unlink a node, forget its page, free its slot: the tail of \<open>evict\<close> and of \<open>evict_if\<close>.\<close>

definition drop_node :: "usize \<Rightarrow> page_id \<Rightarrow> lru_replacer \<Rightarrow> lru_replacer result" where
  "drop_node idx page_id self =
     and_then (unlink idx self) (\<lambda>self.
       Ok (self\<lparr>pages := AList.delete page_id (pages self), free_list := free_list self @ [idx]\<rparr>))"

definition evict :: "lru_replacer \<Rightarrow> (page_id option \<times> lru_replacer) result" where
  "evict self =
     (case tail_idx self of
        None \<Rightarrow> Ok (None, self)
      | Some t_idx \<Rightarrow>
          and_then (index (arena self) t_idx) (\<lambda>n.
          and_then (drop_node t_idx (node_page n) self) (\<lambda>self.
            Ok (Some (node_page n), self))))"

function peek_loop :: "usize \<Rightarrow> page_id list \<Rightarrow> usize option \<Rightarrow> lru_replacer \<Rightarrow> page_id list result" where
  "peek_loop limit candidates None self = Ok candidates"
| "peek_loop limit candidates (Some node_idx) self =
     (if length candidates > limit then Ok candidates
      else and_then (index (arena self) node_idx) (\<lambda>n.
        peek_loop limit (candidates @ [node_page n]) (node_prev n) self))"
  by pat_completeness auto
termination by (relation "measure (\<lambda>(limit, cs, _). Suc limit - length cs)") auto

definition peek_rev :: "usize \<Rightarrow> lru_replacer \<Rightarrow> page_id list result" where
  "peek_rev limit self = peek_loop limit [] (tail_idx self) self"

text \<open>
  The walk of \<open>evict_if\<close> from the tail. The closure may panic. A cyclic list would be walked
  for ever: with more turns than slots the answer is \<open>Hang\<close>.
\<close>

fun evict_walk :: "nat \<Rightarrow> (page_id \<Rightarrow> bool result) \<Rightarrow> usize option \<Rightarrow> lru_replacer \<Rightarrow>
    (page_id option \<times> lru_replacer) result" where
  "evict_walk fuel predicate None self = Ok (None, self)"
| "evict_walk 0 predicate (Some node_idx) self = Hang"
| "evict_walk (Suc fuel) predicate (Some node_idx) self =
     and_then (index (arena self) node_idx) (\<lambda>n.
       let page_id = node_page n
       in and_then (predicate page_id) (\<lambda>b.
            if b
            then and_then (drop_node node_idx page_id self) (\<lambda>self. Ok (Some page_id, self))
            else evict_walk fuel predicate (node_prev n) self))"

definition evict_if :: "(page_id \<Rightarrow> bool result) \<Rightarrow> lru_replacer \<Rightarrow> (page_id option \<times> lru_replacer) result" where
  "evict_if predicate self = evict_walk (length (arena self)) predicate (tail_idx self) self"

end
