(* ===== verification/Lru_Spec.thy ===== *)
theory Lru_Spec
  imports Lru_Replacer
begin

text \<open>
  The invariant of the replacer: which arena slots form the linked list, and in which order.
  Every operation is described by what it makes of that list of slots, hence of the list of
  pages from most to least recently used.
\<close>

section \<open>Linked segments of the arena\<close>

definition first :: "usize list \<Rightarrow> usize option \<Rightarrow> usize option" where
  "first xs q = (case xs of [] \<Rightarrow> q | x # _ \<Rightarrow> Some x)"

definition final :: "usize list \<Rightarrow> usize option \<Rightarrow> usize option" where
  "final xs p = (if xs = [] then p else Some (last xs))"

primrec seg :: "lru_node list \<Rightarrow> usize option \<Rightarrow> usize list \<Rightarrow> usize option \<Rightarrow> bool" where
  "seg ar p [] q \<longleftrightarrow> True"
| "seg ar p (x # xs) q \<longleftrightarrow> x < length ar \<and> node_prev (ar ! x) = p \<and>
     node_next (ar ! x) = first xs q \<and> seg ar (Some x) xs q"

lemma first_simps [simp]: "first [] q = q" "first (x # xs) q = Some x"
  by (simp_all add: first_def)

lemma final_simps [simp]: "final [] p = p" "final (x # xs) p = final xs (Some x)" "final (xs @ [x]) p = Some x"
  by (simp_all add: final_def)

lemma first_append: "first (xs @ ys) q = first xs (first ys q)"
  by (cases xs) simp_all

lemma final_append: "final (xs @ ys) p = final ys (final xs p)"
  by (auto simp: final_def)

lemma seg_append: "seg ar p (xs @ ys) q \<longleftrightarrow> seg ar p xs (first ys q) \<and> seg ar (final xs p) ys q"
  by (induction xs arbitrary: p) (auto simp: first_append)

lemma seg_bound: "seg ar p xs q \<Longrightarrow> x \<in> set xs \<Longrightarrow> x < length ar"
  by (induction xs arbitrary: p) auto

lemma seg_update_other: "i \<notin> set xs \<Longrightarrow> seg (ar[i := v]) p xs q = seg ar p xs q"
  by (induction xs arbitrary: p) auto

lemma seg_extend: "seg ar p xs q \<Longrightarrow> seg (ar @ ns) p xs q"
  by (induction xs arbitrary: p) (auto simp: nth_append)

lemma seg_set_next:
  assumes "seg ar p (xs @ [x]) q" "x \<notin> set xs"
  shows "seg (ar[x := (ar ! x)\<lparr>node_next := q'\<rparr>]) p (xs @ [x]) q'"
  using assms by (auto simp: seg_append seg_update_other)

lemma seg_set_prev:
  assumes "seg ar p (x # xs) q" "x \<notin> set xs"
  shows "seg (ar[x := (ar ! x)\<lparr>node_prev := p'\<rparr>]) p' (x # xs) q"
  using assms by (auto simp: seg_update_other)

section \<open>The invariant\<close>

definition page_of :: "lru_replacer \<Rightarrow> usize \<Rightarrow> page_id" where
  "page_of r i = node_page (arena r ! i)"

text \<open>The slots \<open>xs\<close> are the list, most recent first; all other slots are free.\<close>

definition lru_list :: "lru_replacer \<Rightarrow> usize list \<Rightarrow> bool" where
  "lru_list r xs \<longleftrightarrow>
     seg (arena r) None xs None \<and> distinct xs \<and>
     head_idx r = first xs None \<and> tail_idx r = final xs None"

definition lru_slots :: "lru_replacer \<Rightarrow> usize list \<Rightarrow> bool" where
  "lru_slots r xs \<longleftrightarrow>
     distinct (map fst (pages r)) \<and> set (pages r) = (\<lambda>i. (page_of r i, i)) ` set xs \<and>
     inj_on (page_of r) (set xs) \<and>
     distinct (free_list r) \<and> set (free_list r) \<inter> set xs = {} \<and>
     set (free_list r) \<union> set xs = {..<length (arena r)} \<and>
     length xs \<le> lru_capacity r"

definition lru_rep :: "lru_replacer \<Rightarrow> usize list \<Rightarrow> bool" where
  "lru_rep r xs \<longleftrightarrow> lru_list r xs \<and> lru_slots r xs"

text \<open>The pages, from most to least recently used.\<close>

definition recency :: "lru_replacer \<Rightarrow> page_id list \<Rightarrow> bool" where
  "recency r ps \<longleftrightarrow> (\<exists>xs. lru_rep r xs \<and> ps = map (page_of r) xs)"

lemma lru_new_rep: "lru_rep (lru_new c) []"
  by (simp add: lru_rep_def lru_list_def lru_slots_def lru_new_def)

lemma lru_rep_bound: "lru_list r xs \<Longrightarrow> x \<in> set xs \<Longrightarrow> x < length (arena r)"
  using seg_bound unfolding lru_list_def by blast

lemma lru_rep_length:
  assumes "lru_rep r xs" shows "length xs \<le> length (arena r)"
proof -
  have "set xs \<subseteq> {..<length (arena r)}" "distinct xs"
    using assms by (auto simp: lru_rep_def lru_slots_def lru_list_def)
  then have "card (set xs) \<le> card {..<length (arena r)}" by (intro card_mono) auto
  with \<open>distinct xs\<close> show ?thesis by (simp add: distinct_card)
qed

lemma pages_lookup:
  assumes "lru_slots r xs"
  shows "map_of (pages r) p = Some i \<longleftrightarrow> i \<in> set xs \<and> page_of r i = p"
proof -
  have "distinct (map fst (pages r))" using assms by (simp add: lru_slots_def)
  then have "map_of (pages r) p = Some i \<longleftrightarrow> (p, i) \<in> set (pages r)" by (simp add: map_of_eq_Some_iff)
  then show ?thesis using assms by (auto simp: lru_slots_def)
qed

lemma pages_none: "lru_slots r xs \<Longrightarrow> p \<notin> page_of r ` set xs \<Longrightarrow> map_of (pages r) p = None"
proof (rule ccontr)
  assume s: "lru_slots r xs" and p: "p \<notin> page_of r ` set xs" and "map_of (pages r) p \<noteq> None"
  then obtain i where "map_of (pages r) p = Some i" by auto
  with pages_lookup [OF s] p show False by auto
qed

lemma pages_length:
  assumes "lru_rep r xs" shows "length (pages r) = length xs"
proof -
  have "distinct (pages r)" "set (pages r) = (\<lambda>i. (page_of r i, i)) ` set xs" "distinct xs"
    using assms by (auto simp: lru_rep_def lru_slots_def lru_list_def distinct_map)
  then have "length (pages r) = card ((\<lambda>i. (page_of r i, i)) ` set xs)" by (metis distinct_card)
  also have "\<dots> = card (set xs)" by (rule card_image) (auto simp: inj_on_def)
  finally show ?thesis using \<open>distinct xs\<close> by (simp add: distinct_card)
qed

section \<open>Linking and unlinking\<close>

definition same_nodes :: "lru_replacer \<Rightarrow> lru_replacer \<Rightarrow> bool" where
  "same_nodes r r' \<longleftrightarrow> length (arena r') = length (arena r) \<and> page_of r' = page_of r \<and>
     pages r' = pages r \<and> free_list r' = free_list r \<and> lru_capacity r' = lru_capacity r"

lemma same_nodes_slots: "same_nodes r r' \<Longrightarrow> lru_slots r' xs = lru_slots r xs"
  by (simp add: same_nodes_def lru_slots_def)

lemma same_nodes_trans: "same_nodes a b \<Longrightarrow> same_nodes b c \<Longrightarrow> same_nodes a c"
  by (simp add: same_nodes_def)

lemma set_prev_Ok:
  "idx < length (arena r) \<Longrightarrow>
   set_prev idx p r = Ok (r\<lparr>arena := (arena r)[idx := (arena r ! idx)\<lparr>node_prev := p\<rparr>]\<rparr>)"
  by (simp add: set_prev_def index_in_range)

lemma set_next_Ok:
  "idx < length (arena r) \<Longrightarrow>
   set_next idx q r = Ok (r\<lparr>arena := (arena r)[idx := (arena r ! idx)\<lparr>node_next := q\<rparr>]\<rparr>)"
  by (simp add: set_next_def index_in_range)

lemma nth_update_if: "xs[i := v] ! j = (if i = j \<and> j < length xs then v else xs ! j)"
  by (cases "i < length xs") (auto simp: nth_list_update list_update_beyond not_less)

lemma page_of_set [simp]:
  "page_of (r\<lparr>arena := (arena r)[i := (arena r ! i)\<lparr>node_prev := p\<rparr>]\<rparr>) = page_of r"
  "page_of (r\<lparr>arena := (arena r)[i := (arena r ! i)\<lparr>node_next := p\<rparr>]\<rparr>) = page_of r"
  "page_of (r\<lparr>head_idx := h\<rparr>) = page_of r" "page_of (r\<lparr>tail_idx := h\<rparr>) = page_of r"
  "page_of (r\<lparr>pages := g\<rparr>) = page_of r" "page_of (r\<lparr>free_list := fl\<rparr>) = page_of r"
  by (auto simp: page_of_def fun_eq_iff nth_update_if)

lemma insert_head_spec:
  assumes "lru_list r xs" "x < length (arena r)" "x \<notin> set xs"
  obtains r' where "insert_head x r = Ok r'" "lru_list r' (x # xs)" "same_nodes r r'"
proof -
  let ?ar = "(arena r)[x := (arena r ! x)\<lparr>node_prev := None, node_next := first xs None\<rparr>]"
  define r1 where "r1 = r\<lparr>arena := ?ar\<rparr>"
  have h: "head_idx r = first xs None" and t: "tail_idx r = final xs None" and d: "distinct xs"
    and s: "seg (arena r) None xs None"
    using assms(1) by (auto simp: lru_list_def)
  have same1: "same_nodes r r1"
    by (auto simp: same_nodes_def r1_def page_of_def fun_eq_iff nth_update_if)
  have s1: "seg ?ar None xs None" using s assms(3) by (simp add: seg_update_other)
  have start: "insert_head x r =
     and_then (case head_idx r1 of Some h_idx \<Rightarrow> set_prev h_idx (Some x) r1
       | None \<Rightarrow> Ok (r1\<lparr>tail_idx := Some x\<rparr>)) (\<lambda>r. Ok (r\<lparr>head_idx := Some x\<rparr>))"
    unfolding r1_def using assms(2) by (simp add: insert_head_def set_prev_Ok set_next_Ok h)
  show thesis
  proof (cases xs)
    case Nil
    have "insert_head x r = Ok (r1\<lparr>tail_idx := Some x, head_idx := Some x\<rparr>)"
      unfolding start by (simp add: r1_def h Nil)
    moreover have "lru_list (r1\<lparr>tail_idx := Some x, head_idx := Some x\<rparr>) (x # xs)"
      using assms(2) by (simp add: lru_list_def r1_def Nil)
    moreover have "same_nodes r (r1\<lparr>tail_idx := Some x, head_idx := Some x\<rparr>)"
      using same1 by (simp add: same_nodes_def)
    ultimately show thesis by (rule that)
  next
    case (Cons y ys)
    have y: "y < length (arena r)" "y \<noteq> x" using s assms(3) Cons by auto
    define r2 where "r2 = r1\<lparr>arena := ?ar[y := (?ar ! y)\<lparr>node_prev := Some x\<rparr>]\<rparr>"
    have "insert_head x r = Ok (r2\<lparr>head_idx := Some x\<rparr>)"
      unfolding start using y by (simp add: r1_def r2_def h Cons set_prev_Ok)
    moreover have "lru_list (r2\<lparr>head_idx := Some x\<rparr>) (x # xs)"
      using seg_set_prev [of ?ar None y ys None "Some x"] s1 d assms(2,3) y t
      by (simp add: lru_list_def r2_def r1_def Cons)
    moreover have "same_nodes r (r2\<lparr>head_idx := Some x\<rparr>)"
      using same1 by (auto simp: same_nodes_def r2_def r1_def page_of_def fun_eq_iff nth_update_if)
    ultimately show thesis by (rule that)
  qed
qed

text \<open>The two halves of \<open>unlink\<close>: the successor of the left part, the predecessor of the right.\<close>

lemma unlink_left:
  assumes "seg (arena r) None ys (Some x)" "seg (arena r) (Some x) zs None" "distinct (ys @ zs)"
    and "head_idx r = first ys (Some x)"
  obtains r' where "(case final ys None of Some p \<Rightarrow> set_next p q r | None \<Rightarrow> Ok (r\<lparr>head_idx := q\<rparr>)) = Ok r'"
    "seg (arena r') None ys q" "seg (arena r') (Some x) zs None" "head_idx r' = first ys q"
    "tail_idx r' = tail_idx r" "same_nodes r r'"
proof (cases ys rule: rev_cases)
  case Nil
  show thesis
    by (rule that [of "r\<lparr>head_idx := q\<rparr>"]) (use assms Nil in \<open>auto simp: same_nodes_def\<close>)
next
  case (snoc us u)
  have u: "u < length (arena r)" "u \<notin> set us" "u \<notin> set zs"
    using assms(1,3) snoc by (auto simp: seg_append)
  show thesis
  proof (rule that [of "r\<lparr>arena := (arena r)[u := (arena r ! u)\<lparr>node_next := q\<rparr>]\<rparr>"])
    show "seg (arena (r\<lparr>arena := (arena r)[u := (arena r ! u)\<lparr>node_next := q\<rparr>]\<rparr>)) None ys q"
      using seg_set_next [OF assms(1) [unfolded snoc] u(2)] snoc by simp
    show "head_idx (r\<lparr>arena := (arena r)[u := (arena r ! u)\<lparr>node_next := q\<rparr>]\<rparr>) = first ys q"
      using assms(4) snoc by (cases us) auto
  qed (use assms u snoc in \<open>simp_all add: set_next_Ok seg_update_other same_nodes_def\<close>)
qed

lemma unlink_right:
  assumes "seg (arena r) None ys (first zs None)" "seg (arena r) (Some x) zs None" "distinct (ys @ zs)"
    and "head_idx r = first (ys @ zs) None" "tail_idx r = final zs (Some x)"
  obtains r' where "(case first zs None of Some n \<Rightarrow> set_prev n (final ys None) r
      | None \<Rightarrow> Ok (r\<lparr>tail_idx := final ys None\<rparr>)) = Ok r'"
    "lru_list r' (ys @ zs)" "same_nodes r r'"
proof (cases zs)
  case Nil
  show thesis
    by (rule that [of "r\<lparr>tail_idx := final ys None\<rparr>"])
      (use assms Nil in \<open>auto simp: same_nodes_def lru_list_def\<close>)
next
  case (Cons v vs)
  have v: "v < length (arena r)" "v \<notin> set vs" "v \<notin> set ys" using assms(2,3) Cons by auto
  let ?r = "r\<lparr>arena := (arena r)[v := (arena r ! v)\<lparr>node_prev := final ys None\<rparr>]\<rparr>"
  show thesis
  proof (rule that [of ?r])
    show "lru_list ?r (ys @ zs)"
      using assms seg_set_prev [OF assms(2) [unfolded Cons] v(2), of "final ys None"] v Cons
      by (simp add: lru_list_def seg_append seg_update_other final_append)
  qed (use v Cons in \<open>simp_all add: set_prev_Ok same_nodes_def\<close>)
qed

lemma unlink_spec:
  assumes "lru_list r (ys @ x # zs)"
  obtains r' where "unlink x r = Ok r'" "lru_list r' (ys @ zs)" "same_nodes r r'" "x < length (arena r')"
proof -
  have s: "seg (arena r) None ys (Some x)" "seg (arena r) (Some x) zs None" "x < length (arena r)"
    "node_prev (arena r ! x) = final ys None" "node_next (arena r ! x) = first zs None"
    and d: "distinct (ys @ zs)" and h: "head_idx r = first ys (Some x)" and t: "tail_idx r = final zs (Some x)"
    using assms by (auto simp: lru_list_def seg_append first_append final_append)
  obtain r1 where r1: "(case final ys None of Some p \<Rightarrow> set_next p (first zs None) r
        | None \<Rightarrow> Ok (r\<lparr>head_idx := first zs None\<rparr>)) = Ok r1"
      "seg (arena r1) None ys (first zs None)" "seg (arena r1) (Some x) zs None"
      "head_idx r1 = first ys (first zs None)" "tail_idx r1 = tail_idx r" "same_nodes r r1"
    by (rule unlink_left [OF s(1,2) d h])
  obtain r2 where r2: "(case first zs None of Some n \<Rightarrow> set_prev n (final ys None) r1
        | None \<Rightarrow> Ok (r1\<lparr>tail_idx := final ys None\<rparr>)) = Ok r2"
      "lru_list r2 (ys @ zs)" "same_nodes r1 r2"
    by (rule unlink_right [OF r1(2,3) d]) (use r1 t in \<open>simp_all add: first_append\<close>)
  have "unlink x r = Ok r2"
    by (simp only: unlink_def index_in_range [OF s(3)] s(4,5) Let_def and_then.simps r1(1) r2(1))
  moreover have "same_nodes r r2" by (rule same_nodes_trans [OF r1(6) r2(3)])
  ultimately show thesis using that r2(2) s(3) by (simp add: same_nodes_def)
qed

section \<open>The operations\<close>

lemma lru_slots_reorder: "lru_slots r xs \<Longrightarrow> set ys = set xs \<Longrightarrow> length ys = length xs \<Longrightarrow> lru_slots r ys"
  by (simp add: lru_slots_def)

lemma access_present:
  assumes "lru_rep r (ys @ x # zs)"
  obtains r' where "record_access (page_of r x) r = Ok r'" "lru_rep r' (x # ys @ zs)" "page_of r' = page_of r"
    "lru_capacity r' = lru_capacity r"
proof -
  have l: "lru_list r (ys @ x # zs)" and s: "lru_slots r (ys @ x # zs)"
    using assms by (simp_all add: lru_rep_def)
  have m: "map_of (pages r) (page_of r x) = Some x" using pages_lookup [OF s] by simp
  have x: "x \<notin> set (ys @ zs)" using l by (auto simp: lru_list_def)
  obtain r1 where r1: "unlink x r = Ok r1" "lru_list r1 (ys @ zs)" "same_nodes r r1" "x < length (arena r1)"
    by (rule unlink_spec [OF l])
  obtain r2 where r2: "insert_head x r1 = Ok r2" "lru_list r2 (x # ys @ zs)" "same_nodes r1 r2"
    by (rule insert_head_spec [OF r1(2,4) x])
  have same: "same_nodes r r2" by (rule same_nodes_trans [OF r1(3) r2(3)])
  have "lru_slots r2 (x # ys @ zs)"
    using lru_slots_reorder [OF s, of "x # ys @ zs"] same_nodes_slots [OF same] by auto
  with r2(2) have "lru_rep r2 (x # ys @ zs)" by (simp add: lru_rep_def)
  moreover have "record_access (page_of r x) r = Ok r2" by (simp add: record_access_def m r1(1) r2(1))
  ultimately show thesis using that same by (simp add: same_nodes_def)
qed

lemma slots_update:
  assumes "lru_slots r xs" "p \<notin> page_of r ` set xs" "x \<notin> set xs" "length xs < lru_capacity r"
    and "pages r1 = AList.update p x (pages r)" "lru_capacity r1 = lru_capacity r"
    and "\<forall>i \<in> set xs. page_of r1 i = page_of r i" "page_of r1 x = p"
    and "distinct (free_list r1)" "set (free_list r1) \<inter> set (x # xs) = {}"
    and "set (free_list r1) \<union> set (x # xs) = {..<length (arena r1)}"
  shows "lru_slots r1 (x # xs)"
proof -
  have "p \<notin> fst ` set (pages r)" using assms(1,2) by (auto simp: lru_slots_def)
  then have "set (pages r1) = insert (p, x) (set (pages r))"
    unfolding assms(5) by (simp add: alist_update_new)
  moreover have "(\<lambda>i. (page_of r1 i, i)) ` set xs = (\<lambda>i. (page_of r i, i)) ` set xs"
    using assms(7) by (intro image_cong) auto
  ultimately have pgs: "set (pages r1) = (\<lambda>i. (page_of r1 i, i)) ` set (x # xs)"
    using assms(1,8) by (simp add: lru_slots_def)
  have dist: "distinct (map fst (pages r1))"
    using assms(1) unfolding assms(5) by (simp add: lru_slots_def distinct_update)
  have "page_of r1 ` set xs = page_of r ` set xs" using assms(7) by (intro image_cong) auto
  moreover have "inj_on (page_of r1) (set xs)"
    using assms(1,7) by (simp add: lru_slots_def inj_on_def)
  ultimately have "inj_on (page_of r1) (set (x # xs))" using assms(2,3,8) by (simp add: inj_on_insert)
  with pgs dist assms(4,6,9-11) show ?thesis by (simp add: lru_slots_def)
qed

lemma access_new:
  assumes "lru_rep r xs" "p \<notin> page_of r ` set xs" "length xs < lru_capacity r"
  obtains r' x where "record_access p r = Ok r'" "lru_rep r' (x # xs)" "page_of r' x = p"
    "map (page_of r') xs = map (page_of r) xs" "lru_capacity r' = lru_capacity r"
proof -
  let ?node = "\<lparr>node_prev = None, node_page = p, node_next = None\<rparr>"
  have l: "lru_list r xs" and s: "lru_slots r xs" using assms(1) by (simp_all add: lru_rep_def)
  have none: "map_of (pages r) p = None"
    by (rule pages_none [OF s assms(2)])
  have cap: "length (pages r) < lru_capacity r" using pages_length [OF assms(1)] assms(3) by simp
  obtain x r0 where x: "new_slot p r = Ok (x, r0)" "x \<notin> set xs" "x < length (arena r0)"
      "lru_list (r0\<lparr>pages := AList.update p x (pages r0)\<rparr>) xs"
      "lru_slots (r0\<lparr>pages := AList.update p x (pages r0)\<rparr>) (x # xs)" "page_of r0 x = p"
      "\<forall>i \<in> set xs. page_of r0 i = page_of r i" "lru_capacity r0 = lru_capacity r"
  proof (cases "free_list r" rule: rev_cases)
    case Nil
    let ?r0 = "r\<lparr>arena := arena r @ [?node]\<rparr>" and ?x = "length (arena r)"
    have all: "set xs = {..<?x}" using s Nil by (auto simp: lru_slots_def)
    have pg: "page_of ?r0 ?x = p" "\<forall>i \<in> set xs. page_of ?r0 i = page_of r i"
      using all by (auto simp: page_of_def nth_append)
    have "lru_slots (?r0\<lparr>pages := AList.update p ?x (pages ?r0)\<rparr>) (?x # xs)"
      by (rule slots_update [OF s assms(2) _ assms(3)]) (use Nil all pg in auto)
    then show thesis
      by (intro that [of ?x ?r0]) (use Nil all pg l in \<open>auto simp: new_slot_def lru_list_def seg_extend\<close>)
  next
    case (snoc fl x)
    let ?r0 = "r\<lparr>arena := (arena r)[x := ?node], free_list := fl\<rparr>"
    have x: "x < length (arena r)" "x \<notin> set xs" "x \<notin> set fl" "distinct fl"
      using s snoc by (auto simp: lru_slots_def)
    have part: "insert x (set fl) \<union> set xs = {..<length (arena r)}" "set fl \<inter> set xs = {}"
      using s snoc by (auto simp: lru_slots_def)
    have pg: "page_of ?r0 x = p" "\<forall>i \<in> set xs. page_of ?r0 i = page_of r i"
      using x by (auto simp: page_of_def nth_update_if)
    have "lru_slots (?r0\<lparr>pages := AList.update p x (pages ?r0)\<rparr>) (x # xs)"
      by (rule slots_update [OF s assms(2) x(2) assms(3)]) (use x part pg in auto)
    then show thesis
      by (intro that [of x ?r0])
        (use x pg l snoc in \<open>auto simp: new_slot_def lru_list_def seg_update_other update_index_in_range\<close>)
  qed
  define r1 where "r1 = r0\<lparr>pages := AList.update p x (pages r0)\<rparr>"
  have x1: "x < length (arena r1)" using x(3) by (simp add: r1_def)
  obtain r2 where r2: "insert_head x r1 = Ok r2" "lru_list r2 (x # xs)" "same_nodes r1 r2"
    by (rule insert_head_spec [OF x(4) [folded r1_def] x1 x(2)])
  have pg: "page_of r2 = page_of r0" using r2(3) by (simp add: same_nodes_def r1_def)
  have "record_access p r = Ok r2" using none cap x(1) r2(1) by (simp add: record_access_def r1_def)
  moreover have "lru_rep r2 (x # xs)"
    using r2(2) x(5) same_nodes_slots [OF r2(3)] by (simp add: lru_rep_def r1_def)
  moreover have "lru_capacity r2 = lru_capacity r" using r2(3) x(8) by (simp add: same_nodes_def r1_def)
  ultimately show thesis using that x(6,7) pg by simp
qed

lemma access_full:
  assumes "lru_rep r xs" "p \<notin> page_of r ` set xs" "lru_capacity r \<le> length xs"
  shows "record_access p r = Panic CapacityExceeded"
proof -
  have "map_of (pages r) p = None"
    using assms(1,2) by (intro pages_none [of r xs]) (simp_all add: lru_rep_def)
  then show ?thesis using pages_length [OF assms(1)] assms(3) by (simp add: record_access_def)
qed

lemma drop_slots:
  assumes "lru_slots r (ys @ x # zs)" "x \<notin> set (ys @ zs)"
    and "pages r' = AList.delete (page_of r x) (pages r)" "free_list r' = free_list r @ [x]"
    and "page_of r' = page_of r" "length (arena r') = length (arena r)" "lru_capacity r' = lru_capacity r"
  shows "lru_slots r' (ys @ zs)"
proof -
  have inj: "inj_on (page_of r) (set (ys @ x # zs))" using assms(1) by (simp add: lru_slots_def)
  have "set (pages r') = {e \<in> set (pages r). fst e \<noteq> page_of r x}"
    unfolding assms(3) by (auto simp: AList.delete_eq)
  also have "\<dots> = (\<lambda>i. (page_of r i, i)) ` {i \<in> set (ys @ x # zs). page_of r i \<noteq> page_of r x}"
    using assms(1) by (auto simp: lru_slots_def)
  also have "{i \<in> set (ys @ x # zs). page_of r i \<noteq> page_of r x} = set (ys @ zs)"
    using inj assms(2) by (auto simp: inj_on_def)
  finally have "set (pages r') = (\<lambda>i. (page_of r i, i)) ` set (ys @ zs)" .
  moreover have "distinct (map fst (pages r'))"
    using assms(1) unfolding assms(3) by (simp add: lru_slots_def distinct_delete)
  moreover have "inj_on (page_of r) (set (ys @ zs))" by (rule inj_on_subset [OF inj]) auto
  ultimately show ?thesis using assms by (auto simp: lru_slots_def)
qed

lemma drop_node_spec:
  assumes "lru_rep r (ys @ x # zs)"
  obtains r' where "drop_node x (page_of r x) r = Ok r'" "lru_rep r' (ys @ zs)" "page_of r' = page_of r"
    "lru_capacity r' = lru_capacity r"
proof -
  have l: "lru_list r (ys @ x # zs)" and s: "lru_slots r (ys @ x # zs)"
    using assms by (simp_all add: lru_rep_def)
  obtain r1 where r1: "unlink x r = Ok r1" "lru_list r1 (ys @ zs)" "same_nodes r r1"
    by (rule unlink_spec [OF l]) blast
  let ?r2 = "r1\<lparr>pages := AList.delete (page_of r x) (pages r1), free_list := free_list r1 @ [x]\<rparr>"
  have "lru_slots ?r2 (ys @ zs)"
    by (rule drop_slots [OF s]) (use l r1(3) in \<open>auto simp: same_nodes_def lru_list_def\<close>)
  with r1(2) have "lru_rep ?r2 (ys @ zs)" by (simp add: lru_rep_def lru_list_def)
  then show thesis
    by (intro that [of ?r2]) (use r1 in \<open>auto simp: drop_node_def same_nodes_def\<close>)
qed

lemma remove_spec:
  assumes "lru_rep r (ys @ x # zs)"
  obtains r' where "lru_remove (page_of r x) r = Ok r'" "lru_rep r' (ys @ zs)" "page_of r' = page_of r"
    "lru_capacity r' = lru_capacity r"
proof -
  have l: "lru_list r (ys @ x # zs)" and s: "lru_slots r (ys @ x # zs)"
    using assms by (simp_all add: lru_rep_def)
  let ?r0 = "r\<lparr>pages := AList.delete (page_of r x) (pages r)\<rparr>"
  have l0: "lru_list ?r0 (ys @ x # zs)" using l by (simp add: lru_list_def)
  obtain r1 where r1: "unlink x ?r0 = Ok r1" "lru_list r1 (ys @ zs)" "same_nodes ?r0 r1"
    by (rule unlink_spec [OF l0]) blast
  let ?r2 = "r1\<lparr>free_list := free_list r1 @ [x]\<rparr>"
  have "lru_slots ?r2 (ys @ zs)"
    by (rule drop_slots [OF s]) (use l r1(3) in \<open>auto simp: same_nodes_def lru_list_def\<close>)
  with r1(2) have "lru_rep ?r2 (ys @ zs)" by (simp add: lru_rep_def lru_list_def)
  moreover have "map_of (pages r) (page_of r x) = Some x" using pages_lookup [OF s] by simp
  ultimately show thesis
    by (intro that [of ?r2]) (use r1 in \<open>auto simp: lru_remove_def same_nodes_def\<close>)
qed

end
