(* ===== verification/Lru_Props.thy ===== *)
theory Lru_Props
  imports Lru_Spec
begin

text \<open>
  The contract of a replacement policy (\<open>replacer\<close>), which the buffer pool relies on,
  interpreted on \<open>LruReplacer\<close> through its list of pages by recency; the refinement of the
  arena by that list, and the properties of eviction and of \<open>peek_rev\<close>.
\<close>

section \<open>The interface\<close>

locale replacer =
  fixes tracks :: "'r \<Rightarrow> page_id list \<Rightarrow> bool"
    and cap :: "'r \<Rightarrow> nat"
    and touch :: "page_id \<Rightarrow> 'r \<Rightarrow> 'r result"
    and evict_when :: "(page_id \<Rightarrow> bool result) \<Rightarrow> 'r \<Rightarrow> (page_id option \<times> 'r) result"
  assumes tracks_bound: "tracks r ps \<Longrightarrow> distinct ps \<and> length ps \<le> cap r"
    and touch_known: "tracks r (us @ p # vs) \<Longrightarrow>
      \<exists>r'. touch p r = Ok r' \<and> tracks r' (p # us @ vs) \<and> cap r' = cap r"
    and touch_fresh: "tracks r ps \<Longrightarrow> p \<notin> set ps \<Longrightarrow> length ps < cap r \<Longrightarrow>
      \<exists>r'. touch p r = Ok r' \<and> tracks r' (p # ps) \<and> cap r' = cap r"
    and touch_full: "tracks r ps \<Longrightarrow> p \<notin> set ps \<Longrightarrow> cap r \<le> length ps \<Longrightarrow>
      touch p r = Panic CapacityExceeded"
    and evict_law: "tracks r ps \<Longrightarrow> \<forall>p \<in> set ps. f p = Ok (P p) \<Longrightarrow>
      (\<exists>us p vs r'. ps = us @ p # vs \<and> P p \<and> (\<forall>v \<in> set vs. \<not> P v) \<and>
         evict_when f r = Ok (Some p, r') \<and> tracks r' (us @ vs) \<and> cap r' = cap r) \<or>
      (\<forall>p \<in> set ps. \<not> P p) \<and> evict_when f r = Ok (None, r)"
begin

lemma touch_cases:
  assumes "tracks r ps"
  obtains (ok) r' where "touch p r = Ok r'" "tracks r' (p # removeAll p ps)" "cap r' = cap r"
      "p \<in> set ps \<or> length ps < cap r"
  | (full) "touch p r = Panic CapacityExceeded" "p \<notin> set ps" "cap r \<le> length ps"
proof (cases "p \<in> set ps")
  case True
  then obtain us vs where ps: "ps = us @ p # vs" by (meson split_list)
  have "removeAll p ps = us @ vs" using tracks_bound [OF assms] ps by auto
  then show thesis using ok touch_known [of r us p vs] assms ps True by auto
next
  case False
  then show thesis using ok full touch_fresh [OF assms False] touch_full [OF assms False]
    by (cases "length ps < cap r") auto
qed

lemma touch_Ok:
  assumes "tracks r ps" "p \<in> set ps \<or> length ps < cap r"
  shows "\<exists>r'. touch p r = Ok r' \<and> tracks r' (p # removeAll p ps) \<and> cap r' = cap r"
proof (cases rule: touch_cases [OF assms(1), of p])
  case (1 r')
  then show ?thesis by blast
next
  case 2
  then show ?thesis using assms(2) by simp
qed

text \<open>A page that is protected by the predicate stays tracked through an eviction.\<close>

lemma evict_keeps:
  assumes "tracks r ps" "\<forall>p \<in> set ps. f p = Ok (P p)" "evict_when f r = Ok (x, r')"
  shows "\<exists>ps'. tracks r' ps' \<and> cap r' = cap r \<and> set ps' = set ps - set_option x \<and>
    (\<forall>p. x = Some p \<longrightarrow> P p \<and> p \<in> set ps \<and> Suc (length ps') = length ps)"
  using evict_law [OF assms(1,2)]
proof (elim disjE exE conjE)
  fix us p vs r2 assume a: "ps = us @ p # vs" "P p" "evict_when f r = Ok (Some p, r2)"
    "tracks r2 (us @ vs)" "cap r2 = cap r"
  moreover have "p \<notin> set (us @ vs)" using tracks_bound [OF assms(1)] a(1) by auto
  ultimately show ?thesis using assms(3) by (intro exI [of _ "us @ vs"]) auto
next
  assume "evict_when f r = Ok (None, r)"
  then show ?thesis using assms(1,3) by auto
qed

end

section \<open>The LRU replacer provides it\<close>

lemma node_of_list:
  assumes "lru_list r (ys @ x # zs)"
  shows "x < length (arena r)" "node_prev (arena r ! x) = final ys None" "tail_idx r = final (x # zs) None"
  using assms by (auto simp: lru_list_def seg_append final_append)

lemma evict_walk_spec:
  assumes "lru_rep r (ys @ zs)" "\<forall>i \<in> set ys. f (page_of r i) = Ok (P (page_of r i))"
    and "length ys \<le> fuel"
  shows "(\<exists>us x vs r'. ys = us @ x # vs \<and> P (page_of r x) \<and> (\<forall>v \<in> set vs. \<not> P (page_of r v)) \<and>
      evict_walk fuel f (final ys None) r = Ok (Some (page_of r x), r') \<and> lru_rep r' (us @ vs @ zs) \<and>
      page_of r' = page_of r \<and> lru_capacity r' = lru_capacity r) \<or>
    (\<forall>i \<in> set ys. \<not> P (page_of r i)) \<and> evict_walk fuel f (final ys None) r = Ok (None, r)"
  using assms
proof (induction ys arbitrary: zs fuel rule: rev_induct)
  case (snoc x ys)
  then obtain n where fuel: "fuel = Suc n" "length ys \<le> n" by (cases fuel) auto
  have rep: "lru_rep r (ys @ x # zs)" using snoc.prems(1) by simp
  then have "lru_list r (ys @ x # zs)" by (simp add: lru_rep_def)
  note nd = node_of_list [OF this]
  have fx: "f (node_page (arena r ! x)) = Ok (P (page_of r x))" using snoc.prems(2) by (simp add: page_of_def)
  show ?case
  proof (cases "P (page_of r x)")
    case True
    obtain r' where r': "drop_node x (page_of r x) r = Ok r'" "lru_rep r' (ys @ zs)" "page_of r' = page_of r"
        "lru_capacity r' = lru_capacity r"
      by (rule drop_node_spec [OF rep])
    have "evict_walk fuel f (final (ys @ [x]) None) r = Ok (Some (page_of r x), r')"
      using nd fx True r'(1) by (simp add: fuel index_in_range page_of_def)
    with True r' show ?thesis by (intro disjI1 exI [of _ ys] exI [of _ x] exI [of _ "[]"] exI [of _ r']) simp
  next
    case False
    have w: "evict_walk fuel f (final (ys @ [x]) None) r = evict_walk n f (final ys None) r"
      using nd fx False by (simp add: fuel index_in_range page_of_def)
    have "\<forall>i \<in> set ys. f (page_of r i) = Ok (P (page_of r i))" using snoc.prems(2) by simp
    from snoc.IH [OF rep this fuel(2)] show ?thesis
    proof (elim disjE exE conjE)
      fix us y vs r' assume a: "ys = us @ y # vs" "P (page_of r y)" "\<forall>v \<in> set vs. \<not> P (page_of r v)"
        "evict_walk n f (final ys None) r = Ok (Some (page_of r y), r')" "lru_rep r' (us @ vs @ x # zs)"
        "page_of r' = page_of r" "lru_capacity r' = lru_capacity r"
      show ?thesis unfolding w
        by (rule disjI1, intro exI [of _ us] exI [of _ y] exI [of _ "vs @ [x]"] exI [of _ r'])
          (use a False in auto)
    next
      assume "\<forall>i \<in> set ys. \<not> P (page_of r i)" "evict_walk n f (final ys None) r = Ok (None, r)"
      with False show ?thesis unfolding w by auto
    qed
  qed
qed simp

lemma recency_tail: "lru_rep r xs \<Longrightarrow> tail_idx r = final xs None"
  by (simp add: lru_rep_def lru_list_def)

lemma evict_if_recency:
  assumes "recency r ps" "\<forall>p \<in> set ps. f p = Ok (P p)"
  shows "(\<exists>us p vs r'. ps = us @ p # vs \<and> P p \<and> (\<forall>v \<in> set vs. \<not> P v) \<and>
      evict_if f r = Ok (Some p, r') \<and> recency r' (us @ vs) \<and> lru_capacity r' = lru_capacity r) \<or>
    (\<forall>p \<in> set ps. \<not> P p) \<and> evict_if f r = Ok (None, r)"
proof -
  obtain xs where xs: "lru_rep r xs" "ps = map (page_of r) xs" using assms(1) by (auto simp: recency_def)
  have "lru_rep r (xs @ [])" "\<forall>i \<in> set xs. f (page_of r i) = Ok (P (page_of r i))"
    using xs assms(2) by auto
  from evict_walk_spec [OF this lru_rep_length [OF xs(1)]] show ?thesis
  proof (elim disjE exE conjE)
    fix us x vs r' assume a: "xs = us @ x # vs" "P (page_of r x)" "\<forall>v \<in> set vs. \<not> P (page_of r v)"
      "evict_walk (length (arena r)) f (final xs None) r = Ok (Some (page_of r x), r')"
      "lru_rep r' (us @ vs @ [])" "page_of r' = page_of r" "lru_capacity r' = lru_capacity r"
    have "recency r' (map (page_of r) us @ map (page_of r) vs)"
      unfolding recency_def by (rule exI [of _ "us @ vs"]) (use a in simp)
    then show ?thesis
      using a xs(2) by (intro disjI1 exI [of _ "map (page_of r) us"] exI [of _ "page_of r x"]
          exI [of _ "map (page_of r) vs"] exI [of _ r']) (simp add: evict_if_def recency_tail [OF xs(1)])
  next
    assume "\<forall>i \<in> set xs. \<not> P (page_of r i)"
      "evict_walk (length (arena r)) f (final xs None) r = Ok (None, r)"
    then show ?thesis using xs by (simp add: evict_if_def recency_tail [OF xs(1)])
  qed
qed

lemma access_known_recency:
  assumes "recency r (us @ p # vs)"
  shows "\<exists>r'. record_access p r = Ok r' \<and> recency r' (p # us @ vs) \<and> lru_capacity r' = lru_capacity r"
proof -
  obtain ys x zs where xs: "lru_rep r (ys @ x # zs)" "us = map (page_of r) ys" "p = page_of r x"
      "vs = map (page_of r) zs"
    using assms by (auto simp: recency_def append_eq_map_conv Cons_eq_map_conv)
  obtain r' where "record_access p r = Ok r'" "lru_rep r' (x # ys @ zs)" "page_of r' = page_of r"
      "lru_capacity r' = lru_capacity r"
    using access_present [OF xs(1)] xs(3) by metis
  then show ?thesis using xs(2-4)
    by (intro exI [of _ r'] conjI) (auto simp: recency_def intro!: exI [of _ "x # ys @ zs"])
qed

lemma access_fresh_recency:
  assumes "recency r ps" "p \<notin> set ps" "length ps < lru_capacity r"
  shows "\<exists>r'. record_access p r = Ok r' \<and> recency r' (p # ps) \<and> lru_capacity r' = lru_capacity r"
proof -
  obtain xs where xs: "lru_rep r xs" "ps = map (page_of r) xs" using assms(1) by (auto simp: recency_def)
  have "p \<notin> page_of r ` set xs" "length xs < lru_capacity r" using assms(2,3) xs(2) by auto
  from access_new [OF xs(1) this] obtain r' x where "record_access p r = Ok r'" "lru_rep r' (x # xs)"
    "page_of r' x = p" "map (page_of r') xs = map (page_of r) xs" "lru_capacity r' = lru_capacity r" .
  then show ?thesis using xs(2)
    by (intro exI [of _ r'] conjI) (auto simp: recency_def intro!: exI [of _ "x # xs"])
qed

interpretation lru: replacer recency lru_capacity record_access evict_if
proof unfold_locales
  fix r ps assume "recency r ps"
  then show "distinct ps \<and> length ps \<le> lru_capacity r"
    by (auto simp: recency_def lru_rep_def lru_list_def lru_slots_def distinct_map)
next
  fix r ps p assume a: "recency r ps" "p \<notin> set ps" "lru_capacity r \<le> length ps"
  then obtain xs where "lru_rep r xs" "ps = map (page_of r) xs" by (auto simp: recency_def)
  with a show "record_access p r = Panic CapacityExceeded" by (intro access_full) auto
qed (use access_known_recency access_fresh_recency evict_if_recency in blast)+

section \<open>Properties\<close>

text \<open>The calls of the replacer, run in order, and the same calls on a list by recency.\<close>

datatype lru_call = Access page_id | Forget page_id | Evict

primrec lru_call_run :: "lru_call \<Rightarrow> lru_replacer \<Rightarrow> (page_id option \<times> lru_replacer) result" where
  "lru_call_run (Access p) r = and_then (record_access p r) (\<lambda>r. Ok (None, r))"
| "lru_call_run (Forget p) r = and_then (lru_remove p r) (\<lambda>r. Ok (None, r))"
| "lru_call_run Evict r = evict r"

primrec lru_run :: "lru_call list \<Rightarrow> lru_replacer \<Rightarrow> (page_id option list \<times> lru_replacer) result" where
  "lru_run [] r = Ok ([], r)"
| "lru_run (c # cs) r = and_then (lru_call_run c r) (\<lambda>(x, r).
     and_then (lru_run cs r) (\<lambda>(xs, r). Ok (x # xs, r)))"

primrec recency_step :: "nat \<Rightarrow> lru_call \<Rightarrow> page_id list \<Rightarrow> (page_id option \<times> page_id list) option" where
  "recency_step c (Access p) ps =
     (if p \<in> set ps \<or> length ps < c then Some (None, p # removeAll p ps) else None)"
| "recency_step c (Forget p) ps = Some (None, removeAll p ps)"
| "recency_step c Evict ps = Some (if ps = [] then (None, []) else (Some (last ps), butlast ps))"

primrec recency_run :: "nat \<Rightarrow> lru_call list \<Rightarrow> page_id list \<Rightarrow> (page_id option list \<times> page_id list) option" where
  "recency_run c [] ps = Some ([], ps)"
| "recency_run c (k # ks) ps = (case recency_step c k ps of None \<Rightarrow> None
     | Some (x, ps) \<Rightarrow> (case recency_run c ks ps of None \<Rightarrow> None | Some (xs, ps) \<Rightarrow> Some (x # xs, ps)))"

lemma forget_recency:
  assumes "recency r ps"
  shows "\<exists>r'. lru_remove p r = Ok r' \<and> recency r' (removeAll p ps) \<and> lru_capacity r' = lru_capacity r"
proof -
  obtain xs where xs: "lru_rep r xs" "ps = map (page_of r) xs" using assms by (auto simp: recency_def)
  show ?thesis
  proof (cases "p \<in> set ps")
    case True
    then obtain x where "x \<in> set xs" and p: "p = page_of r x" using xs(2) by auto
    then obtain ys zs where sp: "xs = ys @ x # zs" by (meson split_list)
    obtain r' where r': "lru_remove p r = Ok r'" "lru_rep r' (ys @ zs)" "page_of r' = page_of r"
        "lru_capacity r' = lru_capacity r"
      using remove_spec [OF xs(1) [unfolded sp]] p by metis
    have "distinct ps" using lru.tracks_bound [OF assms] by simp
    then have "removeAll p ps = map (page_of r) (ys @ zs)" using xs(2) sp p by auto
    then show ?thesis using r' by (intro exI [of _ r'] conjI) (auto simp: recency_def intro!: exI [of _ "ys @ zs"])
  next
    case False
    then have "map_of (pages r) p = None"
      using xs by (intro pages_none [of r xs]) (auto simp: lru_rep_def)
    with False assms show ?thesis by (simp add: lru_remove_def)
  qed
qed

lemma evict_recency:
  assumes "recency r ps"
  shows "\<exists>r'. evict r = Ok (if ps = [] then (None, r') else (Some (last ps), r')) \<and>
    recency r' (butlast ps) \<and> lru_capacity r' = lru_capacity r"
proof -
  obtain xs where xs: "lru_rep r xs" "ps = map (page_of r) xs" using assms by (auto simp: recency_def)
  show ?thesis
  proof (cases xs rule: rev_cases)
    case Nil
    then show ?thesis using assms xs by (simp add: evict_def recency_tail [OF xs(1)])
  next
    case (snoc ys x)
    then have rep: "lru_rep r (ys @ x # [])" using xs(1) by simp
    then have "lru_list r (ys @ x # [])" by (simp add: lru_rep_def)
    note nd = node_of_list [OF this]
    obtain r' where r': "drop_node x (page_of r x) r = Ok r'" "lru_rep r' (ys @ [])" "page_of r' = page_of r"
        "lru_capacity r' = lru_capacity r"
      by (rule drop_node_spec [OF rep])
    have "evict r = Ok (Some (page_of r x), r')"
      using nd r'(1) by (simp add: evict_def index_in_range page_of_def)
    moreover have "recency r' (butlast ps)"
      using r' xs(2) snoc by (auto simp: recency_def butlast_append intro!: exI [of _ ys])
    ultimately show ?thesis using xs(2) snoc r'(4) by auto
  qed
qed

lemma lru_call_run_recency:
  assumes "recency r ps"
  shows "case recency_step (lru_capacity r) k ps of None \<Rightarrow> lru_call_run k r = Panic CapacityExceeded
    | Some (x, ps') \<Rightarrow> \<exists>r'. lru_call_run k r = Ok (x, r') \<and> recency r' ps' \<and> lru_capacity r' = lru_capacity r"
proof (cases k)
  case (Access p)
  then show ?thesis using lru.touch_cases [OF assms, of p] by (cases rule: lru.touch_cases [OF assms, of p]) auto
next
  case (Forget p)
  then show ?thesis using forget_recency [OF assms, of p] by auto
next
  case Evict
  then show ?thesis using evict_recency [OF assms] by auto
qed

lemma lru_run_recency:
  assumes "recency r ps"
  shows "case recency_run (lru_capacity r) ks ps of None \<Rightarrow> lru_run ks r = Panic CapacityExceeded
    | Some (xs, ps') \<Rightarrow> \<exists>r'. lru_run ks r = Ok (xs, r') \<and> recency r' ps'"
  using assms
proof (induction ks arbitrary: r ps)
  case (Cons k ks)
  note st = lru_call_run_recency [OF Cons.prems, of k]
  show ?case
  proof (cases "recency_step (lru_capacity r) k ps")
    case None
    then show ?thesis using st by simp
  next
    case (Some y)
    obtain x ps1 where y: "y = (x, ps1)" by fastforce
    obtain r1 where r1: "lru_call_run k r = Ok (x, r1)" "recency r1 ps1" "lru_capacity r1 = lru_capacity r"
      using st unfolding Some y by auto
    show ?thesis
    proof (cases "recency_run (lru_capacity r) ks ps1")
      case None
      then show ?thesis using Cons.IH [OF r1(2)] r1(1,3) by (simp add: Some y)
    next
      case (Some z)
      obtain xs ps2 where z: "z = (xs, ps2)" by fastforce
      obtain r2 where "lru_run ks r1 = Ok (xs, r2)" "recency r2 ps2"
        using Cons.IH [OF r1(2)] unfolding r1(3) Some z by auto
      then show ?thesis using r1(1) by (simp add: \<open>recency_step (lru_capacity r) k ps = Some y\<close> y Some z)
    qed
  qed
qed simp

lemma recency_new: "recency (lru_new c) []"
  unfolding recency_def by (rule exI [of _ "[]"]) (simp add: lru_new_rep)

text \<open>
  C12:
  The linked list in the arena implements a list of pages by recency. For every capacity and every
  sequence of calls on a new replacer: \<open>record_access\<close> moves the page to the front, \<open>remove\<close>
  takes it out, \<open>evict\<close> returns and takes out the last one. No call panics, except an access to a
  new page when \<open>capacity\<close> pages are tracked, which fails the assertion.
\<close>

theorem lru_refines_recency:
  "case recency_run c ks [] of None \<Rightarrow> lru_run ks (lru_new c) = Panic CapacityExceeded
   | Some (xs, ps) \<Rightarrow> \<exists>r. lru_run ks (lru_new c) = Ok (xs, r) \<and> recency r ps"
proof -
  have "lru_capacity (lru_new c) = c" by (simp add: lru_new_def)
  then show ?thesis using lru_run_recency [OF recency_new [of c], of ks] by simp
qed

text \<open>
  \<open>evict_if\<close> walks from the least recently used page, returns and takes out the first page that
  satisfies the predicate, and leaves the order of all others alone; when no page does, it
  returns \<open>None\<close> and changes nothing. The walk ends: it never takes more turns than the arena
  has slots.
\<close>

theorem evict_if_oldest_match:
  assumes "recency r ps"
  shows "case find P (rev ps) of
      None \<Rightarrow> evict_if (\<lambda>p. Ok (P p)) r = Ok (None, r)
    | Some p \<Rightarrow> \<exists>r'. evict_if (\<lambda>p. Ok (P p)) r = Ok (Some p, r') \<and> recency r' (removeAll p ps)"
proof -
  have d: "distinct ps" using lru.tracks_bound [OF assms] by simp
  have find: "find P (rev (us @ p # vs)) = Some p" if "P p" "\<forall>v \<in> set vs. \<not> P v" for us vs p
    using that by (induction vs rule: rev_induct) auto
  have "\<forall>p \<in> set ps. Ok (P p) = Ok (P p)" by simp
  from lru.evict_law [OF assms this] show ?thesis
  proof (elim disjE exE conjE)
    fix us p vs r' assume a: "ps = us @ p # vs" "P p" "\<forall>v \<in> set vs. \<not> P v"
      "evict_if (\<lambda>p. Ok (P p)) r = Ok (Some p, r')" "recency r' (us @ vs)"
    have "removeAll p ps = us @ vs" using d a(1) by auto
    with a find [OF a(2,3)] show ?thesis by auto
  next
    assume a: "\<forall>p \<in> set ps. \<not> P p" "evict_if (\<lambda>p. Ok (P p)) r = Ok (None, r)"
    then have "find P (rev ps) = None" by (simp add: find_None_iff)
    with a show ?thesis by simp
  qed
qed

lemma sample_recency:
  "\<exists>r. lru_run [Access 10, Access 20, Access 30, Access 10] (lru_new 3) = Ok ([None, None, None, None], r) \<and>
     recency r [10, 30, 20]"
  using lru_run_recency [OF recency_new [of 3], of "[Access 10, Access 20, Access 30, Access 10]"]
  by (simp add: lru_new_def)

theorem evict_if_oldest_match_witness:
  "\<exists>r r'. lru_run [Access 10, Access 20, Access 30, Access 10] (lru_new 3) = Ok ([None, None, None, None], r) \<and>
     evict_if (\<lambda>p. Ok (p \<noteq> 20)) r = Ok (Some 30, r') \<and> recency r' [10, 20]"
proof -
  obtain r where r: "lru_run [Access 10, Access 20, Access 30, Access 10] (lru_new 3) = Ok ([None, None, None, None], r)"
      "recency r [10, 30, 20]"
    using sample_recency by blast
  from evict_if_oldest_match [OF r(2), of "\<lambda>p. p \<noteq> 20"] r(1) show ?thesis by auto
qed

lemma peek_loop_spec:
  assumes "lru_rep r (xs @ zs)" "length cs \<le> Suc limit"
  shows "peek_loop limit cs (final xs None) r =
    Ok (cs @ take (Suc limit - length cs) (map (page_of r) (rev xs)))"
  using assms
proof (induction xs arbitrary: cs zs rule: rev_induct)
  case (snoc x xs)
  then have "lru_list r (xs @ x # zs)" by (simp add: lru_rep_def)
  note nd = node_of_list [OF this]
  show ?case
  proof (cases "limit < length cs")
    case True
    then show ?thesis by simp
  next
    case False
    then have "peek_loop limit (cs @ [page_of r x]) (final xs None) r =
        Ok ((cs @ [page_of r x]) @ take (Suc limit - length (cs @ [page_of r x])) (map (page_of r) (rev xs)))"
      using snoc.prems by (intro snoc.IH [of "x # zs"]) auto
    moreover have "Suc limit - length cs = Suc (limit - length cs)" using False by simp
    moreover have "node_page (arena r ! x) = page_of r x" by (simp add: page_of_def)
    ultimately show ?thesis using False nd by (simp add: index_in_range)
  qed
qed simp

text \<open>
  \<open>peek_rev(limit)\<close> returns the least recently used pages, oldest first, without changing the
  order, but one more than asked for: \<open>limit + 1\<close> pages when that many are tracked, although it
  is documented to yield up to \<open>limit\<close>.
\<close>

theorem peek_rev_one_more:
  assumes "recency r ps"
  shows "peek_rev limit r = Ok (take (Suc limit) (rev ps))"
proof -
  obtain xs where xs: "lru_rep r xs" "ps = map (page_of r) xs" using assms by (auto simp: recency_def)
  then have "lru_rep r (xs @ [])" by simp
  from peek_loop_spec [OF this, of "[]" limit] xs show ?thesis
    by (simp add: peek_rev_def recency_tail [OF xs(1)] rev_map)
qed

theorem peek_rev_one_more_witness:
  "\<exists>r. recency r [10, 30, 20] \<and> peek_rev 1 r = Ok [20, 30]"
proof -
  obtain r where r: "recency r [10, 30, 20]" using sample_recency by blast
  from peek_rev_one_more [OF r, of 1] r show ?thesis by auto
qed

end
