(* ===== verification/Wal_Log.thy ===== *)
theory Wal_Log
  imports Os_File Byte_Cursor
begin

text \<open>
  \<open>WalOp\<close>, \<open>WalEntry\<close> and \<open>WalManager\<close> of \<open>src/storage/wal.rs\<close>: the append-only log of
  length-prefixed entries.
\<close>

definition WAL_ENTRY_HEADER_SIZE :: usize where [size_consts]: "WAL_ENTRY_HEADER_SIZE = 29"

datatype wal_op = Insert | Update | Delete

definition wal_op_from_u8 :: "u8 \<Rightarrow> wal_op result" where
  "wal_op_from_u8 val =
     (if val = 0 then Ok Insert else if val = 1 then Ok Update else if val = 2 then Ok Delete
      else Err (CorruptPage (InvalidWalOp val)))"

primrec wal_op_as_u8 :: "wal_op \<Rightarrow> u8" where
  "wal_op_as_u8 Insert = 0"
| "wal_op_as_u8 Update = 1"
| "wal_op_as_u8 Delete = 2"

record wal_entry =
  opcode :: wal_op
  wal_lsn :: u64
  wal_page_id :: page_id
  wal_row_id :: u64
  payload :: "u8 list"

text \<open>The cast of the payload length to \<open>u32\<close> truncates.\<close>

definition wal_encode :: "wal_entry \<Rightarrow> u8 list" where
  "wal_encode e =
     [wal_op_as_u8 (opcode e)] @ u64_to_le (wal_lsn e) @ u64_to_le (wal_page_id e) @
     u64_to_le (wal_row_id e) @ u32_to_le (word_of_nat (length (payload e))) @ payload e"

definition wal_size :: "wal_entry \<Rightarrow> usize" where
  "wal_size e = WAL_ENTRY_HEADER_SIZE + length (payload e)"

definition wal_decode :: "u8 list \<Rightarrow> wal_entry result" where
  "wal_decode buf =
     (if length buf < WAL_ENTRY_HEADER_SIZE
      then Err (CorruptPage (WalBufferTooSmall (length buf)))
      else and_then (wal_op_from_u8 (buf ! 0)) (\<lambda>op.
        let lsn = u64_from_le (take 8 (drop 1 buf));
            page_id = u64_from_le (take 8 (drop 9 buf));
            row_id = u64_from_le (take 8 (drop 17 buf));
            payload_len = unat (u32_from_le (take 4 (drop 25 buf)));
            expected_size = WAL_ENTRY_HEADER_SIZE + payload_len
        in if length buf < expected_size
           then Err (CorruptPage (WalPayloadTooSmall expected_size (length buf)))
           else Ok \<lparr>opcode = op, wal_lsn = lsn, wal_page_id = page_id, wal_row_id = row_id,
                    payload = take (expected_size - 29) (drop 29 buf)\<rparr>))"

section \<open>The log manager\<close>

text \<open>
  The atomic \<open>flushed_lsn\<close> is a field like the others: no call of the modelled code races on it.
\<close>

record wal_manager =
  wal_file :: os_file
  wal_sync :: bool
  entry_count :: usize
  flushed_lsn :: u64

definition wal_open :: "os_file \<Rightarrow> bool \<Rightarrow> wal_manager result \<times> os_file" where
  "wal_open f sync = then_do (io_call f) (\<lambda>_ f.
     (Ok \<lparr>wal_file = f, wal_sync = sync, entry_count = 0, flushed_lsn = 0\<rparr>, f))"

text \<open>A call on the log file, with the rest of the manager unchanged.\<close>

definition on_wal_file :: "(os_file \<Rightarrow> 'a result \<times> os_file) \<Rightarrow> wal_manager \<Rightarrow> 'a result \<times> wal_manager" where
  "on_wal_file g self = (case g (wal_file self) of (r, f) \<Rightarrow> (r, self\<lparr>wal_file := f\<rparr>))"

definition flush_upto :: "u64 \<Rightarrow> wal_manager \<Rightarrow> unit result \<times> wal_manager" where
  "flush_upto lsn self =
     (if lsn > flushed_lsn self
      then then_do (on_wal_file sync_all self) (\<lambda>_ self. (Ok (), self\<lparr>flushed_lsn := lsn\<rparr>))
      else (Ok (), self))"

definition explicit_sync :: "wal_manager \<Rightarrow> unit result \<times> wal_manager" where
  "explicit_sync self = on_wal_file sync_all self"

definition max_lsn :: "wal_entry list \<Rightarrow> u64" where
  "max_lsn batch = fold (\<lambda>e mx. max mx (wal_lsn e)) batch 0"

primrec batch_buffer :: "wal_entry list \<Rightarrow> u8 list" where
  "batch_buffer [] = []"
| "batch_buffer (e # es) =
     (let encoded_entry = wal_encode e
      in u32_to_le (word_of_nat (length encoded_entry)) @ encoded_entry @ batch_buffer es)"

definition write_batch :: "wal_entry list \<Rightarrow> wal_manager \<Rightarrow> unit result \<times> wal_manager" where
  "write_batch batch self =
     (if batch = [] then (Ok (), self)
      else then_do (on_wal_file (append_all (batch_buffer batch)) self) (\<lambda>_ self.
           then_do (if wal_sync self then on_wal_file sync_all self else (Ok (), self)) (\<lambda>_ self.
             (Ok (), self\<lparr>flushed_lsn := max_lsn batch, entry_count := entry_count self + length batch\<rparr>))))"

definition wal_truncate :: "wal_manager \<Rightarrow> unit result \<times> wal_manager" where
  "wal_truncate self =
     then_do (on_wal_file set_len_0 self) (\<lambda>_ self.
     then_do (on_wal_file io_call self) (\<lambda>_ self.
     then_do (if wal_sync self then on_wal_file sync_all self else (Ok (), self)) (\<lambda>_ self.
       (Ok (), self\<lparr>flushed_lsn := 0, entry_count := 0\<rparr>))))"

text \<open>
  \<open>read_exact\<close> on the buffered reader: the argument is what is left of the file. Each call may
  fail, as the reader may have to refill its buffer.
\<close>

definition reader_read_exact :: "usize \<Rightarrow> u8 list \<Rightarrow> os_file \<Rightarrow> (u8 list \<times> u8 list) result \<times> os_file" where
  "reader_read_exact n remaining f =
     (case io_step f of
        (Some _, f) \<Rightarrow> (Err (Io OtherIo), f)
      | (None, f) \<Rightarrow> (if n \<le> length remaining then Ok (take n remaining, drop n remaining) else Err (Io UnexpectedEof), f))"

lemma reader_read_exact_Ok:
  "reader_read_exact n remaining f = (Ok (a, b), f') \<Longrightarrow> a = take n remaining \<and> b = drop n remaining \<and> n \<le> length remaining"
  by (auto simp: reader_read_exact_def split: prod.splits option.splits if_splits)

text \<open>The read loop; every turn that goes on has consumed a length prefix.\<close>

function read_loop :: "u8 list \<Rightarrow> wal_entry list \<Rightarrow> u64 \<Rightarrow> os_file \<Rightarrow>
    (wal_entry list \<times> u64) result \<times> os_file" where
  "read_loop remaining batch max_observed_lsn f =
     (case reader_read_exact 4 remaining f of
        (Err err, f) \<Rightarrow>
          (if err = Io UnexpectedEof then Ok (batch, max_observed_lsn) else Err err, f)
      | (Panic p, f) \<Rightarrow> (Panic p, f)
      | (Hang, f) \<Rightarrow> (Hang, f)
      | (Ok (len_buf, remaining), f) \<Rightarrow>
          (let entry_len = unat (u32_from_le len_buf)
           in if entry_len = 0 then (Ok (batch, max_observed_lsn), f)
              else case reader_read_exact entry_len remaining f of
                (Err err, f) \<Rightarrow>
                  (if err = Io UnexpectedEof then Err (CorruptPage (TornWrite entry_len)) else Err err, f)
              | (Panic p, f) \<Rightarrow> (Panic p, f)
              | (Hang, f) \<Rightarrow> (Hang, f)
              | (Ok (buf, remaining), f) \<Rightarrow>
                  (case wal_decode buf of
                     Ok entry \<Rightarrow> read_loop remaining (batch @ [entry]) (max max_observed_lsn (wal_lsn entry)) f
                   | Err e \<Rightarrow> (Err e, f)
                   | Panic p \<Rightarrow> (Panic p, f)
                   | Hang \<Rightarrow> (Hang, f))))"
  by pat_completeness auto
termination
  by (relation "measure (\<lambda>(remaining, _). length remaining)") (auto dest!: reader_read_exact_Ok [OF sym])

declare read_loop.simps [simp del]

definition read_batch :: "wal_manager \<Rightarrow> wal_entry list result \<times> wal_manager" where
  "read_batch self =
     then_do (on_wal_file io_call self) (\<lambda>_ self.
     then_do (on_wal_file (read_loop (content (wal_file self)) [] 0) self) (\<lambda>(batch, mx) self.
       (Ok batch, self\<lparr>flushed_lsn := mx, entry_count := length batch\<rparr>)))"

end
