(* ===== verification/Wal_Spec.thy ===== *)
theory Wal_Spec
  imports Wal_Log
begin

text \<open>
  What the log holds: entries as bytes, the frames of a batch, the read loop over well framed
  bytes and over a torn end, and what a log file has made durable.
\<close>

section \<open>One entry\<close>

definition entry_ok :: "wal_entry \<Rightarrow> bool" where
  "entry_ok e \<longleftrightarrow> wal_size e < 2 ^ 32"

lemma length_wal_encode [simp]: "length (wal_encode e) = wal_size e"
  by (simp add: wal_encode_def wal_size_def size_consts)

lemma wal_op_roundtrip [simp]: "wal_op_from_u8 (wal_op_as_u8 op) = Ok op"
  by (cases op) (simp_all add: wal_op_from_u8_def)

lemma wal_op_from_u8_Ok: "wal_op_from_u8 v = Ok op \<Longrightarrow> wal_op_as_u8 op = v"
  by (auto simp: wal_op_from_u8_def split: if_splits)

lemma wal_decode_encode:
  assumes "length (payload e) < 2 ^ 32"
  shows "wal_decode (wal_encode e @ junk) = Ok e"
proof -
  have len: "unat (word_of_nat (length (payload e)) :: u32) = length (payload e)"
    using assms unat_word_of_nat_u32 by simp
  define bs where "bs = wal_encode e @ junk"
  have d: "drop 1 bs = u64_to_le (wal_lsn e) @ u64_to_le (wal_page_id e) @
      u64_to_le (wal_row_id e) @ u32_to_le (word_of_nat (length (payload e))) @ payload e @ junk"
    by (simp add: bs_def wal_encode_def)
  have 9: "drop 9 bs = u64_to_le (wal_page_id e) @
      u64_to_le (wal_row_id e) @ u32_to_le (word_of_nat (length (payload e))) @ payload e @ junk"
    using arg_cong [OF d, of "drop 8"] by simp
  have 17: "drop 17 bs =
      u64_to_le (wal_row_id e) @ u32_to_le (word_of_nat (length (payload e))) @ payload e @ junk"
    using arg_cong [OF 9, of "drop 8"] by simp
  have 25: "drop 25 bs =
      u32_to_le (word_of_nat (length (payload e))) @ payload e @ junk"
    using arg_cong [OF 17, of "drop 8"] by simp
  have 29: "drop 29 bs = payload e @ junk"
    using arg_cong [OF 25, of "drop 4"] by simp
  have hd: "bs ! 0 = wal_op_as_u8 (opcode e)" by (simp add: bs_def wal_encode_def)
  have l: "length bs = wal_size e + length junk" by (simp add: bs_def)
  show ?thesis unfolding bs_def [symmetric] wal_decode_def hd d 9 17 25 29
    by (cases e) (use l len in \<open>simp add: wal_size_def size_consts\<close>)
qed

lemma wal_decode_OkD:
  assumes "wal_decode bs = Ok e"
  shows "length (payload e) < 2 ^ 32 \<and> (\<exists>junk. bs = wal_encode e @ junk)"
proof -
  let ?len = "u32_from_le (take 4 (drop 25 bs))"
  obtain op where len: "29 \<le> length bs" and op: "wal_op_from_u8 (bs ! 0) = Ok op"
    and fits: "29 + unat ?len \<le> length bs"
    and e: "e = \<lparr>opcode = op, wal_lsn = u64_from_le (take 8 (drop 1 bs)),
      wal_page_id = u64_from_le (take 8 (drop 9 bs)), wal_row_id = u64_from_le (take 8 (drop 17 bs)),
      payload = take (unat ?len) (drop 29 bs)\<rparr>"
    using assms by (auto simp: wal_decode_def Let_def and_then_eq_Ok size_consts split: if_splits)
  have pl: "length (payload e) = unat ?len" using fits e by simp
  have cut: "bs = [bs ! 0] @ take 8 (drop 1 bs) @ take 8 (drop 9 bs) @ take 8 (drop 17 bs) @
      take 4 (drop 25 bs) @ take (unat ?len) (drop 29 bs) @ drop (29 + unat ?len) bs"
  proof -
    have "bs = [bs ! 0] @ drop 1 bs" using len by (cases bs) auto
    moreover have "drop 1 bs = take 8 (drop 1 bs) @ drop 9 bs"
      using append_take_drop_id [of 8 "drop 1 bs"] by simp
    moreover have "drop 9 bs = take 8 (drop 9 bs) @ drop 17 bs"
      using append_take_drop_id [of 8 "drop 9 bs"] by simp
    moreover have "drop 17 bs = take 8 (drop 17 bs) @ drop 25 bs"
      using append_take_drop_id [of 8 "drop 17 bs"] by simp
    moreover have "drop 25 bs = take 4 (drop 25 bs) @ drop 29 bs"
      using append_take_drop_id [of 4 "drop 25 bs"] by simp
    moreover have "drop 29 bs = take (unat ?len) (drop 29 bs) @ drop (29 + unat ?len) bs"
      using append_take_drop_id [of "unat ?len" "drop 29 bs"] by (simp add: add.commute)
    ultimately show ?thesis by metis
  qed
  have "bs = wal_encode e @ drop (29 + unat ?len) bs"
    using cut pl len op e
    by (simp add: wal_encode_def wal_op_from_u8_Ok u64_to_le_from_le u32_to_le_from_le)
  moreover have "length (payload e) < 2 ^ 32" using pl unat_word_bounds(3) [of ?len] by simp
  ultimately show ?thesis by blast
qed

section \<open>Frames\<close>

definition frame :: "wal_entry \<Rightarrow> u8 list" where
  "frame e = u32_to_le (word_of_nat (wal_size e)) @ wal_encode e"

lemma batch_buffer_Cons: "batch_buffer (e # es) = frame e @ batch_buffer es"
  by (simp add: frame_def)

lemma batch_buffer_append: "batch_buffer (es @ fs) = batch_buffer es @ batch_buffer fs"
  by (induction es) auto

lemma length_frame [simp]: "length (frame e) = 4 + wal_size e"
  by (simp add: frame_def)

lemma wal_size_pos: "29 \<le> wal_size e" by (simp add: wal_size_def size_consts)

lemma entry_ok_prefix: "entry_ok e \<Longrightarrow> unat (word_of_nat (wal_size e) :: u32) = wal_size e"
  using unat_word_of_nat_u32 by (simp add: entry_ok_def)

lemma entry_ok_payload: "entry_ok e \<Longrightarrow> length (payload e) < 2 ^ 32"
  by (simp add: entry_ok_def wal_size_def)

section \<open>The read loop\<close>

lemma reader_step:
  obtains f' where "reader_read_exact n bs f = (Err (Io OtherIo), f')" "io_plan f \<noteq> []"
  | f' where "reader_read_exact n bs f =
      (if n \<le> length bs then Ok (take n bs, drop n bs) else Err (Io UnexpectedEof), f')"
      "io_plan f = [] \<longrightarrow> f' = f"
proof (cases "io_plan f")
  case Nil
  then show ?thesis by (intro that(2) [of f]) (simp_all add: reader_read_exact_def)
next
  case (Cons p ps)
  then show ?thesis
    by (cases p) (use that in \<open>simp_all add: reader_read_exact_def io_step_def\<close>)
qed

lemma read_loop_frame:
  assumes "entry_ok e"
  shows "fst (read_loop (frame e @ tail) b m f) = Err (Io OtherIo) \<and> io_plan f \<noteq> [] \<or>
    (\<exists>g. read_loop (frame e @ tail) b m f = read_loop tail (b @ [e]) (max m (wal_lsn e)) g \<and>
      (io_plan f = [] \<longrightarrow> g = f))"
proof (cases rule: reader_step [of 4 "frame e @ tail" f])
  case (1 f')
  then show ?thesis by (subst (1) read_loop.simps) simp
next
  case (2 f1)
  have t: "take 4 (frame e @ tail) = u32_to_le (word_of_nat (wal_size e))"
    and d: "drop 4 (frame e @ tail) = wal_encode e @ tail"
    by (simp_all add: frame_def)
  have r1: "reader_read_exact 4 (frame e @ tail) f =
      (Ok (u32_to_le (word_of_nat (wal_size e)), wal_encode e @ tail), f1)"
    using 2(1) unfolding t d by simp
  have n: "unat (word_of_nat (wal_size e) :: u32) = wal_size e"
    by (rule entry_ok_prefix [OF assms])
  have dec: "wal_decode (wal_encode e) = Ok e"
    using wal_decode_encode [OF entry_ok_payload [OF assms], of "[]"] by simp
  have nz: "wal_size e \<noteq> 0" using wal_size_pos [of e] by simp
  show ?thesis
  proof (cases rule: reader_step [of "wal_size e" "wal_encode e @ tail" f1])
    case (1 f')
    have "fst (read_loop (frame e @ tail) b m f) = Err (Io OtherIo)"
      by (subst read_loop.simps) (simp add: r1 n nz 1(1) Let_def)
    moreover have "io_plan f \<noteq> []" using 1(2) 2(2) by auto
    ultimately show ?thesis by blast
  next
    case (2 g)
    have "read_loop (frame e @ tail) b m f = read_loop tail (b @ [e]) (max m (wal_lsn e)) g"
      by (subst read_loop.simps) (simp add: r1 n nz 2(1) Let_def dec)
    with 2(2) \<open>io_plan f = [] \<longrightarrow> f1 = f\<close> show ?thesis by auto
  qed
qed

lemma read_loop_frames:
  assumes "\<forall>e \<in> set es. entry_ok e"
  shows "fst (read_loop (batch_buffer es @ tail) b m f) = Err (Io OtherIo) \<and> io_plan f \<noteq> [] \<or>
    (\<exists>g. read_loop (batch_buffer es @ tail) b m f =
        read_loop tail (b @ es) (fold (\<lambda>e mx. max mx (wal_lsn e)) es m) g \<and>
      (io_plan f = [] \<longrightarrow> g = f))"
  using assms
proof (induction es arbitrary: b m f)
  case (Cons e es)
  have ok: "entry_ok e" "\<forall>e \<in> set es. entry_ok e" using Cons.prems by auto
  have eq: "batch_buffer (e # es) @ tail = frame e @ (batch_buffer es @ tail)"
    by (simp add: batch_buffer_Cons del: batch_buffer.simps)
  from read_loop_frame [OF ok(1), of "batch_buffer es @ tail" b m f] show ?case
  proof (elim disjE exE conjE)
    assume "fst (read_loop (frame e @ batch_buffer es @ tail) b m f) = Err (Io OtherIo)" "io_plan f \<noteq> []"
    then show ?thesis unfolding eq by blast
  next
    fix g assume g: "read_loop (frame e @ batch_buffer es @ tail) b m f =
        read_loop (batch_buffer es @ tail) (b @ [e]) (max m (wal_lsn e)) g" "io_plan f = [] \<longrightarrow> g = f"
    from Cons.IH [OF ok(2), of "b @ [e]" "max m (wal_lsn e)" g] show ?thesis
      unfolding eq g(1) using g(2) by auto
  qed
qed auto

lemma read_loop_short:
  assumes "length tail < 4"
  shows "fst (read_loop tail b m f) = (if io_plan f = [] then Ok (b, m) else fst (read_loop tail b m f))"
    and "io_plan f = [] \<Longrightarrow> read_loop tail b m f = (Ok (b, m), f)"
proof -
  show "read_loop tail b m f = (Ok (b, m), f)" if "io_plan f = []"
    by (subst read_loop.simps) (use that assms in \<open>simp add: reader_read_exact_def\<close>)
  then show "fst (read_loop tail b m f) = (if io_plan f = [] then Ok (b, m) else fst (read_loop tail b m f))"
    by simp
qed

lemma read_loop_torn:
  assumes "entry_ok e" "4 \<le> k" "k < length (frame e)" "io_plan f = []"
  shows "read_loop (take k (frame e)) b m f = (Err (CorruptPage (TornWrite (wal_size e))), f)"
proof -
  have t: "take 4 (take k (frame e)) = u32_to_le (word_of_nat (wal_size e))"
    using assms(2) by (simp add: frame_def min_def)
  have l: "length (take k (frame e)) = k" using assms(3) by simp
  have r1: "reader_read_exact 4 (take k (frame e)) f =
      (Ok (u32_to_le (word_of_nat (wal_size e)), drop 4 (take k (frame e))), f)"
    unfolding reader_read_exact_def t l using assms(2,4) by simp
  have r2: "reader_read_exact (wal_size e) (drop 4 (take k (frame e))) f = (Err (Io UnexpectedEof), f)"
    using assms by (simp add: reader_read_exact_def)
  have nz: "wal_size e \<noteq> 0" using wal_size_pos [of e] by simp
  show ?thesis
    by (subst read_loop.simps) (simp add: r1 r2 nz entry_ok_prefix [OF assms(1)] Let_def)
qed

lemma read_loop_zero:
  assumes "io_plan f = []"
  shows "read_loop ([0, 0, 0, 0] @ tail) b m f = (Ok (b, m), f)"
proof -
  have "reader_read_exact 4 ([0, 0, 0, 0] @ tail) f = (Ok ([0, 0, 0, 0], tail), f)"
    using assms by (simp add: reader_read_exact_def)
  moreover have "u32_from_le [0, 0, 0, 0] = 0" by code_simp
  ultimately show ?thesis by (subst read_loop.simps) simp
qed

lemma reader_read_exact_frame:
  "reader_read_exact n bs f = (r, f') \<Longrightarrow> content f' = content f \<and> durable f' = durable f"
  by (auto simp: reader_read_exact_def dest!: io_step_frame split: prod.splits option.splits)

lemma read_loop_file:
  "read_loop bs b m f = (r, f') \<Longrightarrow> content f' = content f \<and> durable f' = durable f"
proof (induction bs b m f arbitrary: r f' rule: read_loop.induct)
  case (1 bs b m f)
  show ?case
  proof -
    obtain r1 f1 where r1: "reader_read_exact 4 bs f = (r1, f1)" by fastforce
    note fr1 = reader_read_exact_frame [OF r1]
    show ?thesis
    proof (cases "\<exists>lb rem. r1 = Ok (lb, rem) \<and> unat (u32_from_le lb) \<noteq> 0")
      case False
      then show ?thesis using 1(2) fr1
        by (subst (asm) read_loop.simps) (auto simp: r1 Let_def split: result.splits)
    next
      case True
      then obtain lb rem where ok: "r1 = Ok (lb, rem)" "unat (u32_from_le lb) \<noteq> 0" by blast
      obtain r2 f2 where r2: "reader_read_exact (unat (u32_from_le lb)) rem f1 = (r2, f2)" by fastforce
      note fr2 = reader_read_exact_frame [OF r2]
      show ?thesis
      proof (cases "\<exists>buf rem' e. r2 = Ok (buf, rem') \<and> wal_decode buf = Ok e")
        case False
        then show ?thesis using 1(2) fr1 fr2 ok r1 r2
          by (subst (asm) read_loop.simps) (auto simp: Let_def split: result.splits)
      next
        case True
        then obtain buf rem' e where ok2: "r2 = Ok (buf, rem')" "wal_decode buf = Ok e" by blast
        have "read_loop rem' (b @ [e]) (max m (wal_lsn e)) f2 = (r, f')"
          using 1(2) ok r1 r2 ok2 by (subst (asm) read_loop.simps) (auto simp: Let_def)
        from 1(1) [OF r1 [symmetric] ok(1) refl refl ok(2) r2 [symmetric] ok2(1) refl ok2(2) this]
        show ?thesis using fr1 fr2 by simp
      qed
    qed
  qed
qed

end
