(* ===== verification/Wal_Props.thy ===== *)
theory Wal_Props
  imports Wal_Spec
begin

text \<open>
  The contracts of the log: \<open>entry_log\<close> (what is appended is what is replayed) and
  \<open>wal_flusher\<close> (the trait of \<open>src/storage/buffer_pool.rs\<close>: what \<open>flush_upto\<close> promises),
  interpreted on \<open>WalManager\<close>; then its properties.
\<close>

section \<open>The log as a list of entries\<close>

datatype log_call = Append "wal_entry list" | FlushTo u64 | Checkpoint

primrec log_effect :: "log_call \<Rightarrow> wal_entry list \<Rightarrow> wal_entry list" where
  "log_effect (Append b) es = es @ b"
| "log_effect (FlushTo lsn) es = es"
| "log_effect Checkpoint es = []"

primrec call_entries :: "log_call \<Rightarrow> wal_entry list" where
  "call_entries (Append b) = b"
| "call_entries (FlushTo lsn) = []"
| "call_entries Checkpoint = []"

locale entry_log =
  fixes run :: "log_call \<Rightarrow> 'w \<Rightarrow> unit result \<times> 'w"
    and rd :: "'w \<Rightarrow> wal_entry list result \<times> 'w"
    and holds :: "'w \<Rightarrow> wal_entry list \<Rightarrow> bool"
  assumes run_holds: "holds w es \<Longrightarrow> \<forall>e \<in> set (call_entries c). entry_ok e \<Longrightarrow>
      run c w = (Ok (), w') \<Longrightarrow> holds w' (log_effect c es)"
    and rd_holds: "holds w es \<Longrightarrow> rd w = (Ok xs, w') \<Longrightarrow> xs = es \<and> holds w' es"
begin

primrec run_calls :: "log_call list \<Rightarrow> 'w \<Rightarrow> unit result \<times> 'w" where
  "run_calls [] w = (Ok (), w)"
| "run_calls (c # cs) w = then_do (run c w) (\<lambda>_ w. run_calls cs w)"

lemma run_calls_holds:
  "holds w es \<Longrightarrow> \<forall>c \<in> set cs. \<forall>e \<in> set (call_entries c). entry_ok e \<Longrightarrow>
   run_calls cs w = (Ok (), w') \<Longrightarrow> holds w' (fold log_effect cs es)"
proof (induction cs arbitrary: w es)
  case (Cons c cs)
  then obtain v where v: "run c w = (Ok (), v)" and rest: "run_calls cs v = (Ok (), w')"
    by (auto simp: then_do_eq_Ok)
  from Cons.prems(2) have "\<forall>e \<in> set (call_entries c). entry_ok e" by simp
  from Cons.IH [OF run_holds [OF Cons.prems(1) this v] _ rest] Cons.prems(2) show ?case by simp
qed simp

lemma replay_calls:
  assumes "holds w es" "\<forall>c \<in> set cs. \<forall>e \<in> set (call_entries c). entry_ok e"
    and "run_calls cs w = (Ok (), w')" "rd w' = (Ok xs, w'')"
  shows "xs = fold log_effect cs es"
  using rd_holds [OF run_calls_holds [OF assms(1-3)] assms(4)] by simp

end

section \<open>The trait WalFlusher\<close>

text \<open>
  \<open>stable w lsn\<close>: every log entry up to \<open>lsn\<close> survives a crash. After \<open>flush_upto(lsn)\<close> has
  answered \<open>Ok\<close> this must hold for \<open>lsn\<close>, and a later call must not take it back.
\<close>

locale wal_flusher =
  fixes flush :: "u64 \<Rightarrow> 'w \<Rightarrow> unit result \<times> 'w"
    and inv :: "'w \<Rightarrow> bool"
    and stable :: "'w \<Rightarrow> u64 \<Rightarrow> bool"
  assumes flush_stable: "inv w \<Longrightarrow> flush lsn w = (Ok (), w') \<Longrightarrow> stable w' lsn"
    and flush_inv: "inv w \<Longrightarrow> flush lsn w = (r, w') \<Longrightarrow> inv w'"
    and flush_keeps: "inv w \<Longrightarrow> flush lsn w = (r, w') \<Longrightarrow> stable w m \<Longrightarrow> stable w' m"
begin

lemma flush_two:
  assumes "inv w" "flush l w = (Ok (), w1)" "flush m w1 = (r, w2)"
  shows "stable w2 l"
  using flush_keeps [OF flush_inv [OF assms(1,2)] assms(3) flush_stable [OF assms(1,2)]] .

end

section \<open>The log manager provides them\<close>

definition log_holds :: "wal_manager \<Rightarrow> wal_entry list \<Rightarrow> bool" where
  "log_holds w es \<longleftrightarrow> content (wal_file w) = batch_buffer es \<and> (\<forall>e \<in> set es. entry_ok e)"

definition log_stable :: "wal_manager \<Rightarrow> u64 \<Rightarrow> bool" where
  "log_stable w lsn \<longleftrightarrow> (\<exists>es ds. log_holds w es \<and> durable (wal_file w) = batch_buffer ds \<and>
     (\<forall>e \<in> set ds. entry_ok e) \<and> (\<forall>e \<in> set es. wal_lsn e \<le> lsn \<longrightarrow> e \<in> set ds))"

definition wal_inv :: "wal_manager \<Rightarrow> bool" where
  "wal_inv w \<longleftrightarrow> wal_sync w \<and> log_stable w (flushed_lsn w)"

primrec wal_run :: "log_call \<Rightarrow> wal_manager \<Rightarrow> unit result \<times> wal_manager" where
  "wal_run (Append b) w = write_batch b w"
| "wal_run (FlushTo lsn) w = flush_upto lsn w"
| "wal_run Checkpoint w = wal_truncate w"

lemma on_wal_file_Ok:
  "on_wal_file g w = (Ok x, w') \<longleftrightarrow> (\<exists>f. g (wal_file w) = (Ok x, f) \<and> w' = w\<lparr>wal_file := f\<rparr>)"
  by (auto simp: on_wal_file_def split: prod.splits)

lemma append_all_Ok: "append_all bs f = (Ok (), f') \<Longrightarrow> content f' = content f @ bs"
  by (auto simp: append_all_def dest!: io_step_frame split: prod.splits option.splits)

lemma set_len_0_Ok: "set_len_0 f = (Ok (), f') \<Longrightarrow> content f' = []"
  by (auto simp: set_len_0_def split: prod.splits option.splits)

lemma write_batch_content:
  assumes "write_batch b w = (Ok (), w')"
  shows "content (wal_file w') = content (wal_file w) @ batch_buffer b \<and> wal_sync w' = wal_sync w \<and>
    (wal_sync w \<and> b \<noteq> [] \<longrightarrow> durable (wal_file w') = content (wal_file w')) \<and> (b = [] \<longrightarrow> w' = w)"
proof (cases "b = []")
  case True
  then show ?thesis using assms by (simp add: write_batch_def)
next
  case False
  then show ?thesis using assms
    by (cases "wal_sync w")
      (auto simp: write_batch_def then_do_eq_Ok on_wal_file_Ok dest!: append_all_Ok sync_all_frame)
qed

lemma flush_upto_cases:
  "flush_upto lsn w = (r, w') \<Longrightarrow> content (wal_file w') = content (wal_file w) \<and> wal_sync w' = wal_sync w \<and>
   durable (wal_file w') \<in> {durable (wal_file w), content (wal_file w)} \<and>
   (r = Ok () \<longrightarrow> (if flushed_lsn w < lsn then durable (wal_file w') = content (wal_file w) \<and> flushed_lsn w' = lsn
                  else w' = w)) \<and>
   (r \<noteq> Ok () \<longrightarrow> flushed_lsn w' = flushed_lsn w)"
  by (cases rule: sync_all_cases [of "wal_file w"])
    (auto simp: flush_upto_def on_wal_file_def split: if_splits)

lemma wal_truncate_content:
  assumes "wal_truncate w = (Ok (), w')"
  shows "content (wal_file w') = [] \<and> wal_sync w' = wal_sync w \<and>
    (wal_sync w \<longrightarrow> durable (wal_file w') = []) \<and> flushed_lsn w' = 0 \<and> entry_count w' = 0"
  using assms
  by (cases "wal_sync w")
    (auto simp: wal_truncate_def then_do_eq_Ok on_wal_file_Ok dest!: set_len_0_Ok sync_all_frame io_call_frame)

lemma read_batch_holds:
  assumes "log_holds w es"
  shows "read_batch w = (r, w') \<Longrightarrow> content (wal_file w') = content (wal_file w)"
    and "read_batch w = (Ok xs, w') \<Longrightarrow> xs = es \<and> flushed_lsn w' = max_lsn es"
    and "io_plan (wal_file w) = [] \<Longrightarrow>
      read_batch w = (Ok es, w\<lparr>flushed_lsn := max_lsn es, entry_count := length es\<rparr>)"
proof -
  have c: "content (wal_file w) = batch_buffer es @ []" and ok: "\<forall>e \<in> set es. entry_ok e"
    using assms by (simp_all add: log_holds_def)
  have loop: "fst (read_loop (content (wal_file w)) [] 0 f) = Err (Io OtherIo) \<and> io_plan f \<noteq> [] \<or>
      (\<exists>g. read_loop (content (wal_file w)) [] 0 f = read_loop [] es (max_lsn es) g \<and>
        (io_plan f = [] \<longrightarrow> g = f))" for f
    using read_loop_frames [OF ok, of "[]" "[]" 0 f] unfolding c max_lsn_def by simp
  have stop: "fst (read_loop [] b m g) = Ok x \<Longrightarrow> x = (b, m)" for b m g and x
    by (subst (asm) read_loop.simps)
      (auto simp: reader_read_exact_def Let_def split: prod.splits option.splits if_splits)
  show "content (wal_file w') = content (wal_file w)" if "read_batch w = (r, w')"
  proof -
    obtain r1 f1 where r1: "io_call (wal_file w) = (r1, f1)" by fastforce
    obtain r2 f2 where r2: "read_loop (content f1) [] 0 f1 = (r2, f2)" by fastforce
    have "content f2 = content f1" "content f1 = content (wal_file w)"
      using read_loop_file [OF r2] io_call_frame [OF r1] by simp_all
    then show ?thesis using that r1 r2
      by (cases r1; cases r2) (auto simp: read_batch_def on_wal_file_def split: prod.splits)
  qed
  show "xs = es \<and> flushed_lsn w' = max_lsn es" if rb: "read_batch w = (Ok xs, w')"
  proof -
    obtain f1 f2 mx where "io_call (wal_file w) = (Ok (), f1)"
      and f2: "read_loop (content f1) [] 0 f1 = (Ok (xs, mx), f2)" and mx: "flushed_lsn w' = mx"
      using rb by (auto simp: read_batch_def then_do_eq_Ok on_wal_file_Ok)
    then have "content f1 = content (wal_file w)" using io_call_frame by blast
    with f2 have f2': "read_loop (content (wal_file w)) [] 0 f1 = (Ok (xs, mx), f2)" by simp
    with loop [of f1] obtain g where "read_loop [] es (max_lsn es) g = (Ok (xs, mx), f2)" by auto
    then show ?thesis using stop [of es "max_lsn es" g "(xs, mx)"] mx by simp
  qed
  show "read_batch w = (Ok es, w\<lparr>flushed_lsn := max_lsn es, entry_count := length es\<rparr>)"
    if "io_plan (wal_file w) = []"
    using that loop [of "wal_file w"] read_loop_short(2) [of "[]" "wal_file w" es "max_lsn es"]
    by (simp add: read_batch_def on_wal_file_def)
qed

interpretation wal_log: entry_log wal_run read_batch log_holds
proof unfold_locales
  fix w es c w'
  assume h: "log_holds w es" and ok: "\<forall>e \<in> set (call_entries c). entry_ok e"
    and run: "wal_run c w = (Ok (), w')"
  show "log_holds w' (log_effect c es)"
  proof (cases c)
    case (Append b)
    then show ?thesis using h ok run write_batch_content [of b w w']
      by (auto simp: log_holds_def batch_buffer_append)
  next
    case (FlushTo lsn)
    then show ?thesis using h run flush_upto_cases [of lsn w "Ok ()" w'] by (simp add: log_holds_def)
  next
    case Checkpoint
    then show ?thesis using run wal_truncate_content [of w w'] by (simp add: log_holds_def)
  qed
next
  fix w es xs w' assume "log_holds w es" "read_batch w = (Ok xs, w')"
  then show "xs = es \<and> log_holds w' es"
    using read_batch_holds(1,2) [of w es] by (simp add: log_holds_def)
qed

lemma log_stable_synced:
  "log_holds w es \<Longrightarrow> durable (wal_file w) = content (wal_file w) \<Longrightarrow> log_stable w lsn"
  by (auto simp: log_stable_def log_holds_def)

lemma log_stable_mono: "log_stable w lsn \<Longrightarrow> m \<le> lsn \<Longrightarrow> log_stable w m"
  unfolding log_stable_def by (meson order_trans)

lemma log_stable_file:
  "wal_file w' = wal_file w \<Longrightarrow> log_stable w' lsn = log_stable w lsn"
  by (simp add: log_stable_def log_holds_def)

lemma flush_upto_stable:
  assumes "log_stable w m" "flush_upto lsn w = (r, w')"
  shows "log_stable w' m"
proof -
  note c = flush_upto_cases [OF assms(2)]
  obtain es ds where h: "log_holds w es" "durable (wal_file w) = batch_buffer ds"
      "\<forall>e \<in> set ds. entry_ok e" "\<forall>e \<in> set es. wal_lsn e \<le> m \<longrightarrow> e \<in> set ds"
    using assms(1) unfolding log_stable_def by blast
  then have h': "log_holds w' es" using c by (simp add: log_holds_def)
  from c consider "durable (wal_file w') = durable (wal_file w)" | "durable (wal_file w') = content (wal_file w')"
    by auto
  then show ?thesis
  proof cases
    case 1
    with h h' show ?thesis unfolding log_stable_def by auto
  next
    case 2
    then show ?thesis using log_stable_synced [OF h'] by simp
  qed
qed

interpretation wal_manager: wal_flusher flush_upto wal_inv log_stable
proof unfold_locales
  fix w lsn w' assume i: "wal_inv w" and f: "flush_upto lsn w = (Ok (), w')"
  obtain es where es: "log_holds w es" using i by (auto simp: wal_inv_def log_stable_def)
  note c = flush_upto_cases [OF f]
  show "log_stable w' lsn"
  proof (cases "flushed_lsn w < lsn")
    case True
    then show ?thesis using c es log_stable_synced [of w' es] by (simp add: log_holds_def)
  next
    case False
    then show ?thesis using c i by (auto intro: log_stable_mono simp: wal_inv_def)
  qed
next
  fix w lsn r w' assume i: "wal_inv w" and f: "flush_upto lsn w = (r, w')"
  note c = flush_upto_cases [OF f]
  obtain es where es: "log_holds w es" using i by (auto simp: wal_inv_def log_stable_def)
  show "wal_inv w'"
  proof (cases "r = Ok () \<and> flushed_lsn w < lsn")
    case True
    then have "log_stable w' (flushed_lsn w')"
      using c es log_stable_synced [of w' es] by (simp add: log_holds_def)
    then show ?thesis using c i by (simp add: wal_inv_def)
  next
    case False
    then have "flushed_lsn w' = flushed_lsn w" using c by auto
    then show ?thesis using flush_upto_stable [OF _ f] c i by (auto simp: wal_inv_def)
  qed
next
  fix w lsn r w' m assume "flush_upto lsn w = (r, w')" "log_stable w m"
  then show "log_stable w' m" by (rule flush_upto_stable [rotated])
qed

section \<open>Properties\<close>

lemma wal_run_inv:
  assumes "wal_inv w" "\<forall>e \<in> set (call_entries c). entry_ok e" "wal_run c w = (Ok (), w')"
  shows "wal_inv w'"
proof -
  obtain es where es: "log_holds w es" using assms(1) by (auto simp: wal_inv_def log_stable_def)
  have h: "log_holds w' (log_effect c es)" by (rule wal_log.run_holds [OF es assms(2,3)])
  show ?thesis
  proof (cases c)
    case (Append b)
    then show ?thesis
      using assms write_batch_content [of b w w'] log_stable_synced [OF h] by (auto simp: wal_inv_def)
  next
    case (FlushTo lsn)
    then show ?thesis using assms wal_manager.flush_inv by auto
  next
    case Checkpoint
    then show ?thesis
      using assms wal_truncate_content [of w w'] log_stable_synced [OF h] by (auto simp: wal_inv_def)
  qed
qed

lemma wal_run_calls_inv:
  "wal_inv w \<Longrightarrow> \<forall>c \<in> set cs. \<forall>e \<in> set (call_entries c). entry_ok e \<Longrightarrow>
   wal_log.run_calls cs w = (Ok (), w') \<Longrightarrow> wal_inv w'"
proof (induction cs arbitrary: w)
  case (Cons c cs)
  then obtain v where "wal_run c w = (Ok (), v)" "wal_log.run_calls cs v = (Ok (), w')"
    by (auto simp: then_do_eq_Ok)
  with Cons wal_run_inv show ?case by auto
qed simp

text \<open>A log manager over a new file.\<close>

definition fresh_wal :: "bool \<Rightarrow> wal_manager" where
  "fresh_wal sync = \<lparr>wal_file = new_file, wal_sync = sync, entry_count = 0, flushed_lsn = 0\<rparr>"

definition sample_entry :: "u64 \<Rightarrow> wal_entry" where
  "sample_entry lsn = \<lparr>opcode = Insert, wal_lsn = lsn, wal_page_id = 4096, wal_row_id = 1, payload = [1, 2, 3]\<rparr>"

lemma sample_entry_simps [simp]:
  "entry_ok (sample_entry l)" "wal_lsn (sample_entry l) = l" "wal_size (sample_entry l) = 32"
  by (simp_all add: entry_ok_def wal_size_def sample_entry_def size_consts)

lemma fresh_wal_simps [simp]:
  "io_plan (wal_file (fresh_wal s)) = []" "content (wal_file (fresh_wal s)) = []"
  "durable (wal_file (fresh_wal s)) = []" "wal_sync (fresh_wal s) = s" "flushed_lsn (fresh_wal s) = 0"
  "entry_count (fresh_wal s) = 0"
  by (simp_all add: fresh_wal_def new_file_def)

lemma write_batch_reliable:
  assumes "io_plan (wal_file w) = []" "b \<noteq> []"
  shows "\<exists>w'. write_batch b w = (Ok (), w') \<and> io_plan (wal_file w') = [] \<and>
    content (wal_file w') = content (wal_file w) @ batch_buffer b \<and>
    durable (wal_file w') = (if wal_sync w then content (wal_file w') else durable (wal_file w)) \<and>
    wal_sync w' = wal_sync w \<and> flushed_lsn w' = max_lsn b \<and> entry_count w' = entry_count w + length b"
  using assms by (simp add: write_batch_def on_wal_file_def append_all_def sync_all_def)

text \<open>
  C19:
  A log entry decodes from its encoding, whatever follows it, and nothing else decodes: a buffer
  is accepted exactly when it begins with the encoding of an entry whose payload is shorter than
  \<open>2 ^ 32\<close>, and it decodes to that entry.
  In particular distinct entries never share an encoding.
\<close>

theorem wal_decode_exact:
  "wal_decode bs = Ok e \<longleftrightarrow> length (payload e) < 2 ^ 32 \<and> (\<exists>junk. bs = wal_encode e @ junk)"
  using wal_decode_encode [of e] wal_decode_OkD [of bs e] by auto

text \<open>
  C17:
  The log replays what was written to it. From an empty file, after any sequence of successful
  \<open>write_batch\<close>, \<open>flush_upto\<close> and \<open>truncate\<close> calls, \<open>read_batch\<close> returns the entries appended
  since the last truncation, all of them and in order, and resets the counters to match; when
  the device fails during the read it never returns anything else.
\<close>

theorem wal_replays_log:
  assumes "content (wal_file w) = []" "\<forall>c \<in> set cs. \<forall>e \<in> set (call_entries c). entry_ok e"
    and "wal_log.run_calls cs w = (Ok (), w')"
  shows "(read_batch w' = (Ok xs, w'') \<longrightarrow> xs = fold log_effect cs []) \<and>
    (io_plan (wal_file w') = [] \<longrightarrow>
      read_batch w' = (Ok (fold log_effect cs []),
      w'\<lparr>flushed_lsn := max_lsn (fold log_effect cs []), entry_count := length (fold log_effect cs [])\<rparr>))"
proof -
  have "log_holds w []" using assms(1) by (simp add: log_holds_def)
  from wal_log.run_calls_holds [OF this assms(2,3)] have h: "log_holds w' (fold log_effect cs [])" .
  have r1: "read_batch w' = (Ok xs, w'') \<longrightarrow> xs = fold log_effect cs []"
    using wal_log.rd_holds [OF h] by blast
  have r2: "io_plan (wal_file w') = [] \<longrightarrow>
      read_batch w' = (Ok (fold log_effect cs []),
        w'\<lparr>flushed_lsn := max_lsn (fold log_effect cs []), entry_count := length (fold log_effect cs [])\<rparr>)"
    using read_batch_holds(3) [OF h] by blast
  show ?thesis by (rule conjI [OF r1 r2])
qed

theorem wal_replays_log_witness:
  "\<exists>w' w''. wal_log.run_calls [Append [sample_entry 3], Checkpoint, Append [sample_entry 1, sample_entry 2]]
      (fresh_wal True) = (Ok (), w') \<and> read_batch w' = (Ok [sample_entry 1, sample_entry 2], w'')"
proof -
  let ?cs = "[Append [sample_entry 3], Checkpoint, Append [sample_entry 1, sample_entry 2]]"
  define w' where "w' = snd (wal_log.run_calls ?cs (fresh_wal True))"
  have run: "wal_log.run_calls ?cs (fresh_wal True) = (Ok (), w')" and p: "io_plan (wal_file w') = []"
    unfolding w'_def by (simp_all add: write_batch_def wal_truncate_def on_wal_file_def
        append_all_def sync_all_def set_len_0_def del: batch_buffer.simps)
  have ok: "\<forall>c \<in> set ?cs. \<forall>e \<in> set (call_entries c). entry_ok e" by simp
  from conjunct2 [OF wal_replays_log [OF fresh_wal_simps(2) ok run]] p run show ?thesis by auto
qed

text \<open>
  C25:
  A log that ends in the middle of a frame, as after a crash during a write. If four bytes or
  more of the frame are there, \<open>read_batch\<close> reports the torn write and its length; one to three
  bytes of it, part of the length prefix, pass for the end of the log, and so does a length
  prefix of zero, whatever follows it: all entries before are returned.
\<close>

theorem torn_log_tail:
  assumes "\<forall>e \<in> set es. entry_ok e" "entry_ok e" "k < length (frame e)" "io_plan (wal_file w) = []"
  shows "(content (wal_file w) = batch_buffer es @ take k (frame e) \<longrightarrow>
      fst (read_batch w) = (if k < 4 then Ok es else Err (CorruptPage (TornWrite (wal_size e))))) \<and>
    (content (wal_file w) = batch_buffer es @ [0, 0, 0, 0] @ junk \<longrightarrow> fst (read_batch w) = Ok es)"
proof -
  have loop: "read_loop (batch_buffer es @ tail) [] 0 (wal_file w) = read_loop tail es (max_lsn es) (wal_file w)" for tail
    using read_loop_frames [OF assms(1), of tail "[]" 0 "wal_file w"] assms(4) by (simp add: max_lsn_def)
  have read: "fst (read_batch w) = and_then (fst (read_loop (content (wal_file w)) [] 0 (wal_file w))) (\<lambda>x. Ok (fst x))"
    using assms(4) by (cases "read_loop (content (wal_file w)) [] 0 (wal_file w)"; cases "fst (read_loop (content (wal_file w)) [] 0 (wal_file w))")
      (auto simp: read_batch_def on_wal_file_def)
  have r1: "content (wal_file w) = batch_buffer es @ take k (frame e) \<longrightarrow>
      fst (read_batch w) = (if k < 4 then Ok es else Err (CorruptPage (TornWrite (wal_size e))))"
  proof (rule impI, cases "k < 4")
    assume c: "content (wal_file w) = batch_buffer es @ take k (frame e)"
    case True
    then have "length (take k (frame e)) < 4" by simp
    from read_loop_short(2) [OF this assms(4)] True
    show "fst (read_batch w) = (if k < 4 then Ok es else Err (CorruptPage (TornWrite (wal_size e))))"
      by (simp add: read c loop)
  next
    assume c: "content (wal_file w) = batch_buffer es @ take k (frame e)"
    case False
    then have "4 \<le> k" by simp
    from read_loop_torn [OF assms(2) this assms(3,4)] False
    show "fst (read_batch w) = (if k < 4 then Ok es else Err (CorruptPage (TornWrite (wal_size e))))"
      by (simp add: read c loop)
  qed
  have r2: "content (wal_file w) = batch_buffer es @ [0, 0, 0, 0] @ junk \<longrightarrow> fst (read_batch w) = Ok es"
    unfolding read using read_loop_zero [OF assms(4)] loop by simp
  show ?thesis by (rule conjI [OF r1 r2])
qed

theorem torn_log_tail_witness:
  "fst (read_batch ((fresh_wal True)\<lparr>wal_file := new_file\<lparr>content := take 10 (frame (sample_entry 7))\<rparr>\<rparr>)) =
     Err (CorruptPage (TornWrite 32))"
  using torn_log_tail [of "[]" "sample_entry 7" 10
      "(fresh_wal True)\<lparr>wal_file := new_file\<lparr>content := take 10 (frame (sample_entry 7))\<rparr>\<rparr>"]
  by (simp add: new_file_def)

text \<open>
  What can have happened to the log of a manager opened with \<open>sync\<close> on an empty file. Calls
  succeed; or they answer an error and leave the file as it is; or the append of a batch goes
  through and its fsync fails, so that \<open>write_batch\<close> answers an error with the whole batch in the
  file, not yet durable. The numbers of such a batch have not been flushed before.
\<close>

inductive synced_log :: "wal_manager \<Rightarrow> wal_entry list \<Rightarrow> bool" where
  opened: "content (wal_file w) = [] \<Longrightarrow> durable (wal_file w) = [] \<Longrightarrow> wal_sync w \<Longrightarrow> synced_log w []"
| answered: "synced_log w es \<Longrightarrow> \<forall>e \<in> set (call_entries c). entry_ok e \<Longrightarrow>
    wal_run c w = (Ok (), w') \<Longrightarrow> synced_log w' (log_effect c es)"
| refused: "synced_log w es \<Longrightarrow> wal_run c w = (r, w') \<Longrightarrow> r \<noteq> Ok () \<Longrightarrow>
    content (wal_file w') = content (wal_file w) \<Longrightarrow> synced_log w' es"
| unsynced: "synced_log w es \<Longrightarrow> \<forall>e \<in> set b. entry_ok e \<and> flushed_lsn w < wal_lsn e \<Longrightarrow>
    write_batch b w = (Err err, w') \<Longrightarrow> content (wal_file w') = content (wal_file w) @ batch_buffer b \<Longrightarrow>
    synced_log w' (es @ b)"

text \<open>The durable bytes are then a beginning of the log that misses no flushed number.\<close>

definition flushed_prefix :: "wal_manager \<Rightarrow> wal_entry list \<Rightarrow> u64 \<Rightarrow> bool" where
  "flushed_prefix w es lsn \<longleftrightarrow> (\<exists>n. durable (wal_file w) = batch_buffer (take n es) \<and>
     (\<forall>e \<in> set (drop n es). lsn < wal_lsn e))"

lemma flushed_prefix_synced: "durable (wal_file w) = batch_buffer es \<Longrightarrow> flushed_prefix w es lsn"
  unfolding flushed_prefix_def by (intro exI [of _ "length es"]) simp

lemma flushed_prefix_mono:
  "flushed_prefix w es lsn \<Longrightarrow> l \<le> lsn \<Longrightarrow> durable (wal_file w') = durable (wal_file w) \<Longrightarrow>
   flushed_prefix w' es l"
  unfolding flushed_prefix_def by (metis le_less_trans)

lemma flushed_prefix_append:
  assumes "flushed_prefix w es lsn" "\<forall>e \<in> set b. lsn < wal_lsn e"
    and "durable (wal_file w') = durable (wal_file w)"
  shows "flushed_prefix w' (es @ b) lsn"
proof -
  obtain n where n: "durable (wal_file w) = batch_buffer (take n es)" "\<forall>e \<in> set (drop n es). lsn < wal_lsn e"
    using assms(1) unfolding flushed_prefix_def by blast
  let ?n = "min n (length es)"
  have "take ?n (es @ b) = take n es" "drop ?n (es @ b) = drop n es @ b" by (simp_all add: min_def)
  then show ?thesis unfolding flushed_prefix_def
    by (intro exI [of _ ?n]) (use n assms(2,3) in auto)
qed

lemma write_batch_Err:
  assumes "write_batch b w = (r, w')" "r \<noteq> Ok ()"
  shows "durable (wal_file w') = durable (wal_file w) \<and> flushed_lsn w' = flushed_lsn w \<and> wal_sync w' = wal_sync w"
proof -
  have "b \<noteq> []" using assms by (auto simp: write_batch_def)
  then show ?thesis using assms
    by (cases rule: sync_all_cases [of "snd (append_all (batch_buffer b) (wal_file w))"])
      (auto simp: write_batch_def on_wal_file_def append_all_def dest!: io_step_frame
        split: prod.splits option.splits if_splits simp del: batch_buffer.simps)
qed

lemma wal_truncate_Err:
  assumes "wal_truncate w = (r, w')" "r \<noteq> Ok ()"
  shows "durable (wal_file w') = durable (wal_file w) \<and> flushed_lsn w' = flushed_lsn w \<and> wal_sync w' = wal_sync w"
  using assms
  by (auto simp: wal_truncate_def on_wal_file_def set_len_0_def io_call_def sync_all_def dest!: io_step_frame
      split: prod.splits option.splits if_splits)

lemma synced_log_inv:
  "synced_log w es \<Longrightarrow> wal_sync w \<and> log_holds w es \<and> flushed_prefix w es (flushed_lsn w)"
proof (induction rule: synced_log.induct)
  case (opened w)
  then show ?case by (simp add: log_holds_def flushed_prefix_def)
next
  case (answered w es c w')
  have h: "log_holds w' (log_effect c es)" using wal_log.run_holds answered by blast
  show ?case
  proof (cases c)
    case (Append b)
    then show ?thesis using answered h write_batch_content [of b w w']
      by (auto simp: log_holds_def intro: flushed_prefix_synced)
  next
    case (FlushTo lsn)
    then have fl: "flush_upto lsn w = (Ok (), w')" using answered by simp
    note c = flush_upto_cases [OF this]
    show ?thesis
    proof (cases "flushed_lsn w < lsn")
      case True
      then show ?thesis using answered h c FlushTo by (auto simp: log_holds_def intro: flushed_prefix_synced)
    next
      case False
      then show ?thesis using answered h c FlushTo by simp
    qed
  next
    case Checkpoint
    then show ?thesis using answered h wal_truncate_content [of w w']
      by (auto intro: flushed_prefix_synced)
  qed
next
  case (refused w es c r w')
  have h: "log_holds w' es" using refused by (simp add: log_holds_def)
  show ?case
  proof (cases c)
    case (Append b)
    then have "durable (wal_file w') = durable (wal_file w) \<and> flushed_lsn w' = flushed_lsn w \<and> wal_sync w' = wal_sync w"
      using write_batch_Err refused by simp
    then show ?thesis using refused h by (auto intro: flushed_prefix_mono)
  next
    case (FlushTo lsn)
    then have "flush_upto lsn w = (r, w')" using refused by simp
    note c = flush_upto_cases [OF this]
    then consider "durable (wal_file w') = durable (wal_file w)" | "durable (wal_file w') = batch_buffer es"
      using refused by (auto simp: log_holds_def)
    then show ?thesis
      by cases (use refused h c in \<open>auto intro: flushed_prefix_mono flushed_prefix_synced\<close>)
  next
    case Checkpoint
    then have "durable (wal_file w') = durable (wal_file w) \<and> flushed_lsn w' = flushed_lsn w \<and> wal_sync w' = wal_sync w"
      using wal_truncate_Err refused by simp
    then show ?thesis using refused h by (auto intro: flushed_prefix_mono)
  qed
next
  case (unsynced w es b err w')
  note f = write_batch_Err [OF unsynced(3)]
  have "log_holds w' (es @ b)" using unsynced by (auto simp: log_holds_def batch_buffer_append)
  then show ?case using unsynced f flushed_prefix_append [of w es "flushed_lsn w" b w'] by auto
qed



text \<open>
  C35:
  For a manager opened without \<open>sync\<close> the promise fails. \<open>write_batch\<close> records the batch as
  flushed although it has not synced the file; \<open>flush_upto\<close> then sees nothing to do and answers
  \<open>Ok\<close>, and a crash loses an entry up to the very \<open>lsn\<close> that was flushed.
\<close>

theorem unsynced_flush_lost:
  "\<exists>w' w''. write_batch [sample_entry 5] (fresh_wal False) = (Ok (), w') \<and>
     flush_upto 5 w' = (Ok (), w'') \<and> flushed_lsn w'' = 5 \<and>
     fst (read_batch w'') = Ok [sample_entry 5] \<and>
     fst (read_batch (w''\<lparr>wal_file := (wal_file w'')\<lparr>content := durable (wal_file w'')\<rparr>\<rparr>)) = Ok []"
proof -
  obtain w' where w: "write_batch [sample_entry 5] (fresh_wal False) = (Ok (), w')"
      "io_plan (wal_file w') = []" "content (wal_file w') = batch_buffer [sample_entry 5]"
      "durable (wal_file w') = []" "flushed_lsn w' = 5"
    using write_batch_reliable [of "fresh_wal False" "[sample_entry 5]"]
    by (auto simp: max_lsn_def simp del: batch_buffer.simps)
  then have f: "flush_upto 5 w' = (Ok (), w')" by (simp add: flush_upto_def)
  have "log_holds w' [sample_entry 5]" using w by (simp add: log_holds_def del: batch_buffer.simps)
  then have r: "fst (read_batch w') = Ok [sample_entry 5]" using read_batch_holds(3) w(2) by simp
  have "log_holds (w'\<lparr>wal_file := (wal_file w')\<lparr>content := durable (wal_file w')\<rparr>\<rparr>) []"
    using w by (simp add: log_holds_def)
  from read_batch_holds(3) [OF this] w(2)
  have "fst (read_batch (w'\<lparr>wal_file := (wal_file w')\<lparr>content := durable (wal_file w')\<rparr>\<rparr>)) = Ok []" by simp
  with w f r show ?thesis by blast
qed

lemma read_loop_extends: "read_loop bs b m f = (Ok (xs, mx), f') \<Longrightarrow> \<exists>ys. xs = b @ ys"
proof (induction bs b m f arbitrary: f' rule: read_loop.induct)
  case (1 bs b m f)
  show ?case
  proof (cases "\<exists>lb rem f1 buf rem' f2 e. reader_read_exact 4 bs f = (Ok (lb, rem), f1) \<and>
      unat (u32_from_le lb) \<noteq> 0 \<and> reader_read_exact (unat (u32_from_le lb)) rem f1 = (Ok (buf, rem'), f2) \<and>
      wal_decode buf = Ok e")
    case False
    then show ?thesis using 1(2)
      by (subst (asm) read_loop.simps) (auto simp: Let_def split: prod.splits result.splits if_splits)
  next
    case True
    then obtain lb rem f1 buf rem' f2 e where t: "reader_read_exact 4 bs f = (Ok (lb, rem), f1)"
        "unat (u32_from_le lb) \<noteq> 0" "reader_read_exact (unat (u32_from_le lb)) rem f1 = (Ok (buf, rem'), f2)"
        "wal_decode buf = Ok e" by blast
    have "read_loop rem' (b @ [e]) (max m (wal_lsn e)) f2 = (Ok (xs, mx), f')"
      using 1(2) t by (subst (asm) read_loop.simps) (simp add: Let_def)
    from 1(1) [OF t(1) [symmetric] refl refl refl t(2) t(3) [symmetric] refl refl t(4) this] show ?thesis by auto
  qed
qed

lemma read_loop_cut:
  assumes "entry_ok e" "length bs < wal_size e" "io_plan f = []"
  shows "read_loop (take 4 (frame e) @ bs) b m f = (Err (CorruptPage (TornWrite (wal_size e))), f)"
proof -
  have t: "take 4 (frame e) = u32_to_le (word_of_nat (wal_size e))" by (simp add: frame_def)
  have nz: "wal_size e \<noteq> 0" using wal_size_pos [of e] by simp
  have r1: "reader_read_exact 4 (take 4 (frame e) @ bs) f = (Ok (u32_to_le (word_of_nat (wal_size e)), bs), f)"
    unfolding t using assms(3) by (simp add: reader_read_exact_def)
  have r2: "reader_read_exact (wal_size e) bs f = (Err (Io UnexpectedEof), f)"
    using assms by (simp add: reader_read_exact_def)
  show ?thesis by (subst read_loop.simps) (simp add: r1 r2 nz entry_ok_prefix [OF assms(1)] Let_def)
qed

text \<open>The entry that the reader makes of the head of one entry and the bytes of a later batch.\<close>

definition forged :: "wal_entry \<Rightarrow> nat \<Rightarrow> u8 list \<Rightarrow> wal_entry" where
  "forged e k bs = e\<lparr>payload := take (k - 33) (payload e) @ take (length (frame e) - k) bs\<rparr>"

lemma frame_forged:
  assumes "33 \<le> k" "k < length (frame e)" "length (frame e) \<le> k + length bs"
  shows "take k (frame e) @ bs = frame (forged e k bs) @ drop (length (frame e) - k) bs"
    and "wal_size (forged e k bs) = wal_size e" and "wal_lsn (forged e k bs) = wal_lsn e"
proof -
  show l: "wal_lsn (forged e k bs) = wal_lsn e" by (simp add: forged_def)
  have n: "length (payload (forged e k bs)) = length (payload e)"
    using assms by (simp add: forged_def wal_size_def size_consts)
  then show z: "wal_size (forged e k bs) = wal_size e" by (simp add: wal_size_def)
  define h where "h = u32_to_le (word_of_nat (wal_size e)) @ [wal_op_as_u8 (opcode e)] @ u64_to_le (wal_lsn e) @
    u64_to_le (wal_page_id e) @ u64_to_le (wal_row_id e) @ u32_to_le (word_of_nat (length (payload e)))"
  have f: "frame e = h @ payload e" by (simp add: frame_def wal_encode_def h_def)
  have f': "frame (forged e k bs) = h @ payload (forged e k bs)"
    by (simp add: frame_def wal_encode_def h_def z n) (simp add: forged_def)
  have "length h = 33" by (simp add: h_def)
  then have "take k (frame e) = h @ take (k - 33) (payload e)" using assms(1) unfolding f by simp
  then show "take k (frame e) @ bs = frame (forged e k bs) @ drop (length (frame e) - k) bs"
    unfolding f' by (simp add: forged_def)
qed

lemma read_batch_over:
  assumes "\<forall>e \<in> set es. entry_ok e" "content (wal_file w) = batch_buffer es @ tail" "io_plan (wal_file w) = []"
  shows "fst (read_batch w) = and_then (fst (read_loop tail es (max_lsn es) (wal_file w))) (\<lambda>x. Ok (fst x))"
proof -
  have "read_loop (content (wal_file w)) [] 0 (wal_file w) = read_loop tail es (max_lsn es) (wal_file w)"
    using read_loop_frames [OF assms(1), of tail "[]" 0 "wal_file w"] assms(2,3) by (simp add: max_lsn_def)
  then show ?thesis using assms(3)
    by (cases "read_loop tail es (max_lsn es) (wal_file w)"; cases "fst (read_loop tail es (max_lsn es) (wal_file w))")
      (auto simp: read_batch_def on_wal_file_def)
qed

text \<open>
  C36:
  An append that failed half way poisons the log. Let the device take the first \<open>k\<close> bytes of a
  batch and fail, where \<open>k\<close> cuts the first entry of the batch behind its length prefix.
  \<open>write_batch\<close> answers an error and leaves the bytes in the file, and the next \<open>write_batch\<close>
  succeeds and puts its batch behind them. If the cut entry still lacks bytes then, \<open>read_batch\<close>
  reports a torn write and returns nothing, neither the acknowledged batch nor what was in the
  log before. If it does not, and the cut lies in the payload, then whatever \<open>read_batch\<close> returns
  has the failed entry right behind the old ones, its payload filled up with the bytes of the
  acknowledged batch: a record that nobody wrote.
\<close>

theorem failed_append_poisons_log:
  assumes "log_holds w es" "io_plan (wal_file w) = [Some k]" "entry_ok e" "4 \<le> k" "k < length (frame e)" "later \<noteq> []"
  shows "\<exists>w1 w2. write_batch (e # b) w = (Err (Io OtherIo), w1) \<and> write_batch later w1 = (Ok (), w2) \<and>
    (k + length (batch_buffer later) < length (frame e) \<longrightarrow>
      fst (read_batch w2) = Err (CorruptPage (TornWrite (wal_size e)))) \<and>
    (33 \<le> k \<and> length (frame e) \<le> k + length (batch_buffer later) \<longrightarrow>
      (\<forall>xs. fst (read_batch w2) = Ok xs \<longrightarrow> (\<exists>ys. xs = es @ forged e k (batch_buffer later) # ys)))"
proof -
  define w1 where "w1 = w\<lparr>wal_file := (wal_file w)\<lparr>io_plan := [], content := content (wal_file w) @ take k (frame e)\<rparr>\<rparr>"
  have a: "write_batch (e # b) w = (Err (Io OtherIo), w1)"
    unfolding write_batch_def batch_buffer_Cons using assms(2,5)
    by (simp add: on_wal_file_def append_all_def io_step_def w1_def del: batch_buffer.simps)
  have p1: "io_plan (wal_file w1) = []" by (simp add: w1_def)
  obtain w2 where w2: "write_batch later w1 = (Ok (), w2)" "io_plan (wal_file w2) = []"
      "content (wal_file w2) = content (wal_file w1) @ batch_buffer later"
    using write_batch_reliable [OF p1 assms(6)] by auto
  have es: "\<forall>e \<in> set es. entry_ok e" using assms(1) by (simp add: log_holds_def)
  have c: "content (wal_file w2) = batch_buffer es @ (take k (frame e) @ batch_buffer later)"
    using w2(3) assms(1) by (simp add: w1_def log_holds_def)
  note rd = read_batch_over [OF es c w2(2)]
  have torn: "fst (read_batch w2) = Err (CorruptPage (TornWrite (wal_size e)))"
    if "k + length (batch_buffer later) < length (frame e)"
  proof -
    have "take 4 (take k (frame e)) @ drop 4 (take k (frame e)) = take k (frame e)" by (rule append_take_drop_id)
    then have t: "take k (frame e) @ batch_buffer later =
        take 4 (frame e) @ (drop 4 (take k (frame e)) @ batch_buffer later)"
      using assms(4) by (simp add: min_def)
    have "length (drop 4 (take k (frame e)) @ batch_buffer later) < wal_size e" using that assms(4,5) by simp
    from read_loop_cut [OF assms(3) this w2(2)] show ?thesis unfolding rd t by simp
  qed
  have forge: "\<exists>ys. xs = es @ forged e k (batch_buffer later) # ys"
    if k: "33 \<le> k" "length (frame e) \<le> k + length (batch_buffer later)" and ok: "fst (read_batch w2) = Ok xs" for xs
  proof -
    note ff = frame_forged [OF k(1) assms(5) k(2)]
    have ok': "entry_ok (forged e k (batch_buffer later))" using ff(2) assms(3) by (simp add: entry_ok_def)
    let ?l = "read_loop (take k (frame e) @ batch_buffer later) es (max_lsn es) (wal_file w2)"
    obtain mx where mx: "fst ?l = Ok (xs, mx)"
      using ok unfolding rd by (cases "fst ?l") auto
    obtain g where "?l = read_loop (drop (length (frame e) - k) (batch_buffer later))
        (es @ [forged e k (batch_buffer later)]) (max (max_lsn es) (wal_lsn e)) g"
      using read_loop_frame [OF ok'] w2(2) unfolding ff(1) ff(3) by metis
    with mx read_loop_extends show ?thesis by (metis append.assoc append_Cons append_Nil prod.collapse)
  qed
  show ?thesis using a w2(1) torn forge by blast
qed

theorem failed_append_poisons_log_witness:
  "\<exists>w1 w2. write_batch [sample_entry 1] ((fresh_wal True)\<lparr>wal_file := new_file\<lparr>io_plan := [Some 34]\<rparr>\<rparr>)
       = (Err (Io OtherIo), w1) \<and>
     write_batch [sample_entry 2] w1 = (Ok (), w2) \<and>
     (\<forall>xs. fst (read_batch w2) = Ok xs \<longrightarrow> (\<exists>ys. xs = (sample_entry 1)\<lparr>payload := [1, 32, 0]\<rparr> # ys))"
proof -
  let ?w = "(fresh_wal True)\<lparr>wal_file := new_file\<lparr>io_plan := [Some 34]\<rparr>\<rparr>"
  have h: "log_holds ?w []" by (simp add: log_holds_def new_file_def)
  have "u32_to_le 32 = [32, 0, 0, 0]" by code_simp
  then have f: "forged (sample_entry 1) 34 (batch_buffer [sample_entry 2]) = (sample_entry 1)\<lparr>payload := [1, 32, 0]\<rparr>"
    by (simp add: forged_def) (simp add: sample_entry_def)
  from failed_append_poisons_log [OF h, of 34 "sample_entry 1" "[sample_entry 2]" "[]"] show ?thesis
    unfolding f by auto
qed

text \<open>
  The 32-bit length prefix wraps. An entry whose encoding is exactly \<open>2 ^ 32\<close> bytes long is
  written under a prefix of zero, which \<open>read_batch\<close> takes for the end of the log: the entry and
  everything appended after it vanish from the replay, without an error.
\<close>

theorem oversized_entry_hides_log:
  assumes "log_holds w es" "wal_size e = 2 ^ 32" "io_plan (wal_file w) = []"
  shows "\<exists>w'. write_batch (e # later) w = (Ok (), w') \<and> fst (read_batch w') = Ok es"
proof -
  obtain w' where w: "write_batch (e # later) w = (Ok (), w')" "io_plan (wal_file w') = []"
      "content (wal_file w') = content (wal_file w) @ batch_buffer (e # later)"
    using write_batch_reliable [OF assms(3), of "e # later"] by (auto simp del: batch_buffer.simps)
  have "(word_of_nat (wal_size e) :: u32) = 0" unfolding assms(2) by simp
  then have "u32_to_le (word_of_nat (wal_size e)) = [0, 0, 0, 0]" by (simp only:) code_simp
  then have c: "content (wal_file w') = batch_buffer es @ [0, 0, 0, 0] @ wal_encode e @ batch_buffer later"
    using w(3) assms(1) by (simp add: log_holds_def)
  have "\<forall>e \<in> set es. entry_ok e" using assms(1) by (simp add: log_holds_def)
  from read_loop_frames [OF this, of "[0, 0, 0, 0] @ wal_encode e @ batch_buffer later" "[]" 0 "wal_file w'"]
  have "fst (read_loop (content (wal_file w')) [] 0 (wal_file w')) = Ok (es, max_lsn es)"
    unfolding c max_lsn_def
    using read_loop_zero [OF w(2)] w(2) by auto
  then have "fst (read_batch w') = Ok es"
    using w(2) by (cases "read_loop (content (wal_file w')) [] 0 (wal_file w')")
      (auto simp: read_batch_def on_wal_file_def)
  with w(1) show ?thesis by blast
qed

theorem oversized_entry_hides_log_witness:
  "\<exists>w'. write_batch [(sample_entry 1)\<lparr>payload := replicate (2 ^ 32 - 29) 0\<rparr>, sample_entry 2] (fresh_wal True)
      = (Ok (), w') \<and> fst (read_batch w') = Ok []"
proof -
  have "log_holds (fresh_wal True) []" by (simp add: log_holds_def)
  moreover have "wal_size ((sample_entry 1)\<lparr>payload := replicate (2 ^ 32 - 29) 0\<rparr>) = 2 ^ 32"
    by (simp add: wal_size_def size_consts)
  ultimately show ?thesis by (rule oversized_entry_hides_log) simp
qed

end
