(* ===== verification/Buffer_Pool.thy ===== *)
theory Buffer_Pool
  imports Disk_Props Lru_Props Wal_Props
begin

text \<open>
  \<open>BufferPool\<close> of \<open>src/storage/buffer_pool.rs\<close>. A \<open>Frame\<close>, an \<open>Arc<RwLock<BTreeNode>>\<close>, is a
  cell of \<open>heap\<close>: the node, the strong count, and whether a write guard is alive. A handle is
  the index of its cell; a cell is never reused, so a handle stays valid as long as its owner.
  The trait object \<open>dyn WalFlusher\<close> is the function \<open>flush\<close> with its state in \<open>pool_flusher\<close>.
\<close>

record frame_cell =
  frame_node :: btree_node
  strong :: nat
  write_latched :: bool

type_synonym frame_ref = nat

record 'w buffer_pool =
  pool_disk :: disk_manager
  pool_replacer :: lru_replacer
  page_table :: "(page_id \<times> frame_ref) list"
  pool_capacity :: usize
  pool_flusher :: "'w option"
  heap :: "frame_cell list"

type_synonym 'w flush_fn = "u64 \<Rightarrow> 'w \<Rightarrow> unit result \<times> 'w"

definition pool_new :: "disk_manager \<Rightarrow> usize \<Rightarrow> 'w option \<Rightarrow> 'w buffer_pool" where
  "pool_new disk capacity flusher =
     \<lparr>pool_disk = disk, pool_replacer = lru_new capacity, page_table = [], pool_capacity = capacity,
      pool_flusher = flusher, heap = []\<rparr>"

section \<open>Frames\<close>

definition node_at :: "frame_ref \<Rightarrow> 'w buffer_pool \<Rightarrow> btree_node" where
  "node_at f self = frame_node (heap self ! f)"

definition set_node :: "frame_ref \<Rightarrow> btree_node \<Rightarrow> 'w buffer_pool \<Rightarrow> 'w buffer_pool" where
  "set_node f n self = self\<lparr>heap := (heap self)[f := (heap self ! f)\<lparr>frame_node := n\<rparr>]\<rparr>"

definition set_latch :: "frame_ref \<Rightarrow> bool \<Rightarrow> 'w buffer_pool \<Rightarrow> 'w buffer_pool" where
  "set_latch f b self = self\<lparr>heap := (heap self)[f := (heap self ! f)\<lparr>write_latched := b\<rparr>]\<rparr>"

text \<open>\<open>Arc::clone\<close>, and a reference going out of scope.\<close>

definition clone_frame :: "frame_ref \<Rightarrow> 'w buffer_pool \<Rightarrow> 'w buffer_pool" where
  "clone_frame f self = self\<lparr>heap := (heap self)[f := (heap self ! f)\<lparr>strong := strong (heap self ! f) + 1\<rparr>]\<rparr>"

definition drop_frame :: "frame_ref \<Rightarrow> 'w buffer_pool \<Rightarrow> 'w buffer_pool" where
  "drop_frame f self = self\<lparr>heap := (heap self)[f := (heap self ! f)\<lparr>strong := strong (heap self ! f) - 1\<rparr>]\<rparr>"

text \<open>\<open>page_table.insert(page_id, Arc::new(RwLock::new(node)))\<close>; the handle of the new cell.\<close>

definition install :: "page_id \<Rightarrow> btree_node \<Rightarrow> 'w buffer_pool \<Rightarrow> 'w buffer_pool" where
  "install pid n self = self\<lparr>page_table := AList.update pid (length (heap self)) (page_table self),
     heap := heap self @ [\<lparr>frame_node = n, strong = 1, write_latched = False\<rparr>]\<rparr>"

text \<open>\<open>frame.write()\<close> and the end of the guard: a second write guard of the thread never comes.\<close>

definition latch_write :: "frame_ref \<Rightarrow> 'w buffer_pool \<Rightarrow> unit result \<times> 'w buffer_pool" where
  "latch_write f self =
     (if write_latched (heap self ! f) then (Hang, self) else (Ok (), set_latch f True self))"

text \<open>The end of the scope of a write guard and of its frame, on every way out.\<close>

definition release :: "frame_ref \<Rightarrow> 'w buffer_pool \<Rightarrow> 'w buffer_pool" where
  "release f self = drop_frame f (set_latch f False self)"

section \<open>The replacer and the disk as parts of the pool\<close>

definition on_disk :: "(disk_manager \<Rightarrow> 'a result \<times> disk_manager) \<Rightarrow> 'w buffer_pool \<Rightarrow> 'a result \<times> 'w buffer_pool" where
  "on_disk g self = (case g (pool_disk self) of (r, d) \<Rightarrow> (r, self\<lparr>pool_disk := d\<rparr>))"

definition touch :: "page_id \<Rightarrow> 'w buffer_pool \<Rightarrow> unit result \<times> 'w buffer_pool" where
  "touch pid self =
     (case record_access pid (pool_replacer self) of
        Ok rp \<Rightarrow> (Ok (), self\<lparr>pool_replacer := rp\<rparr>)
      | Err e \<Rightarrow> (Err e, self)
      | Panic p \<Rightarrow> (Panic p, self)
      | Hang \<Rightarrow> (Hang, self))"

section \<open>The operations\<close>

definition flush_wal :: "'w flush_fn \<Rightarrow> u64 \<Rightarrow> 'w buffer_pool \<Rightarrow> unit result \<times> 'w buffer_pool" where
  "flush_wal flush lsn self =
     (case pool_flusher self of
        None \<Rightarrow> (Ok (), self)
      | Some w \<Rightarrow> (case flush lsn w of (r, w') \<Rightarrow> (r, self\<lparr>pool_flusher := Some w'\<rparr>)))"

definition flush_page :: "'w flush_fn \<Rightarrow> page_id \<Rightarrow> 'w buffer_pool \<Rightarrow> unit result \<times> 'w buffer_pool" where
  "flush_page flush pid self =
     (case map_of (page_table self) pid of
        None \<Rightarrow> (Ok (), self)
      | Some f \<Rightarrow>
          if write_latched (heap self ! f) then (Hang, self)
          else if \<not> node_is_dirty (node_at f self) then (Ok (), self)
          else then_do (flush_wal flush (get_last_lsn (node_at f self)) self) (\<lambda>_ self.
               then_do (encode (node_at f self) page_new, self) (\<lambda>raw_page self.
               then_do (on_disk (write_page pid raw_page) self) (\<lambda>_ self.
                 (Ok (), set_node f (clear_dirty (node_at f self)) self)))))"

primrec flush_pages :: "'w flush_fn \<Rightarrow> page_id list \<Rightarrow> 'w buffer_pool \<Rightarrow> unit result \<times> 'w buffer_pool" where
  "flush_pages flush [] self = (Ok (), self)"
| "flush_pages flush (pid # pids) self =
     then_do (flush_page flush pid self) (\<lambda>_ self. flush_pages flush pids self)"

definition flush_all_pages :: "'w flush_fn \<Rightarrow> 'w buffer_pool \<Rightarrow> unit result \<times> 'w buffer_pool" where
  "flush_all_pages flush self =
     then_do (flush_pages flush (map fst (page_table self)) self) (\<lambda>_ self.
     then_do (on_disk save_header self) (\<lambda>_ self. (Ok (), self)))"

text \<open>The closure that \<open>evict_page\<close> hands to \<open>evict_if\<close>.\<close>

definition evictable :: "'w buffer_pool \<Rightarrow> page_id \<Rightarrow> bool result" where
  "evictable self pid =
     (case map_of (page_table self) pid of
        Some f \<Rightarrow> Ok (strong (heap self ! f) = 1)
      | None \<Rightarrow> Panic ReplacerOutOfSync)"

text \<open>\<open>page_table.remove\<close> drops the table's own reference.\<close>

definition unmap :: "page_id \<Rightarrow> 'w buffer_pool \<Rightarrow> 'w buffer_pool" where
  "unmap pid self =
     (case map_of (page_table self) pid of
        None \<Rightarrow> self
      | Some f \<Rightarrow> (drop_frame f self)\<lparr>page_table := AList.delete pid (page_table self)\<rparr>)"

definition evict_page :: "'w flush_fn \<Rightarrow> 'w buffer_pool \<Rightarrow> unit result \<times> 'w buffer_pool" where
  "evict_page flush self =
     (case evict_if (evictable self) (pool_replacer self) of
        Ok (Some evict_id, rp) \<Rightarrow>
          then_do (flush_page flush evict_id (self\<lparr>pool_replacer := rp\<rparr>)) (\<lambda>_ self.
            (Ok (), unmap evict_id self))
      | Ok (None, rp) \<Rightarrow> (Err LruEviction, self\<lparr>pool_replacer := rp\<rparr>)
      | Err e \<Rightarrow> (Err e, self)
      | Panic p \<Rightarrow> (Panic p, self)
      | Hang \<Rightarrow> (Hang, self))"

definition make_room :: "'w flush_fn \<Rightarrow> 'w buffer_pool \<Rightarrow> unit result \<times> 'w buffer_pool" where
  "make_room flush self =
     (if length (page_table self) \<ge> pool_capacity self then evict_page flush self else (Ok (), self))"

definition fetch_page :: "'w flush_fn \<Rightarrow> page_id \<Rightarrow> 'w buffer_pool \<Rightarrow> frame_ref result \<times> 'w buffer_pool" where
  "fetch_page flush pid self =
     (case map_of (page_table self) pid of
        Some f \<Rightarrow> then_do (touch pid self) (\<lambda>_ self. (Ok f, clone_frame f self))
      | None \<Rightarrow>
          then_do (make_room flush self) (\<lambda>_ self.
          then_do (on_disk (read_page pid) self) (\<lambda>raw_page self.
          then_do (decode raw_page, self) (\<lambda>node self.
            let f = length (heap self)
            in then_do (touch pid (install pid node self)) (\<lambda>_ self. (Ok f, clone_frame f self))))))"

definition new_page :: "'w flush_fn \<Rightarrow> bool \<Rightarrow> 'w buffer_pool \<Rightarrow> (page_id \<times> frame_ref) result \<times> 'w buffer_pool" where
  "new_page flush is_leaf self =
     then_do (make_room flush self) (\<lambda>_ self.
     then_do (on_disk allocate_page self) (\<lambda>pid self.
       let node = new_empty pid is_leaf; f = length (heap self)
       in then_do (touch pid (install pid node self)) (\<lambda>_ self. (Ok (pid, f), clone_frame f self))))"

end
