(* ===== verification/Bp_Tree.thy ===== *)
theory Bp_Tree
  imports Buffer_Pool
begin

text \<open>
  \<open>BpTree\<close> of \<open>src/storage/bptree.rs\<close>. A frame variable of the source is the index of its cell;
  the mutable borrows of the nodes are reads and writes of that cell. A guard and its frame are
  let go together at the end of their scope, on the early exits too (\<open>leaving\<close>).
\<close>

record 'w bp_tree =
  buffer_pool :: "'w buffer_pool"
  root_page_id :: page_id

record split_result =
  promoted_row_id :: u64
  new_page_id :: page_id

definition bp_tree_new :: "'w buffer_pool \<Rightarrow> page_id \<Rightarrow> 'w bp_tree" where
  "bp_tree_new pool root = \<lparr>buffer_pool = pool, root_page_id = root\<rparr>"

definition get_root_id :: "'w bp_tree \<Rightarrow> page_id" where
  "get_root_id self = root_page_id self"

section \<open>Inserting into a leaf\<close>

definition leaving :: "frame_ref \<Rightarrow> 'a result \<times> 'w buffer_pool \<Rightarrow> 'a result \<times> 'w buffer_pool" where
  "leaving f x = (case x of (r, pool) \<Rightarrow> (r, if r = Hang then pool else release f pool))"

text \<open>The two leaves of a split: cut the left one, and insert into the half that has the key's range.\<close>

definition split_and_insert :: "u64 \<Rightarrow> u8 list \<Rightarrow> leaf_node \<times> leaf_node \<Rightarrow> u64 result \<times> (leaf_node \<times> leaf_node)" where
  "split_and_insert rowid bytes leaves =
     then_do (split leaves) (\<lambda>promoted_row_id leaves.
     then_do (if rowid < promoted_row_id then on_fst (insert_record rowid bytes) leaves
              else on_snd (insert_record rowid bytes) leaves) (\<lambda>_ leaves.
       (Ok promoted_row_id, leaves)))"

text \<open>The new sibling goes between the left leaf and its old right neighbour.\<close>

definition wire_siblings :: "page_id \<Rightarrow> page_id \<Rightarrow> leaf_node \<times> leaf_node \<Rightarrow> leaf_node \<times> leaf_node" where
  "wire_siblings leaf_page_id new_leaf_id = (\<lambda>(left_leaf, right_leaf).
     (left_leaf\<lparr>has_next := True, next_page_id := new_leaf_id\<rparr>,
      right_leaf\<lparr>has_prev := True, prev_page_id := leaf_page_id,
        has_next := has_next left_leaf, next_page_id := next_page_id left_leaf\<rparr>))"

definition connect_old_right :: "'w flush_fn \<Rightarrow> page_id \<Rightarrow> page_id \<Rightarrow> u64 \<Rightarrow> 'w buffer_pool \<Rightarrow> unit result \<times> 'w buffer_pool" where
  "connect_old_right flush old_next_id new_leaf_id lsn pool =
     then_do (fetch_page flush old_next_id pool) (\<lambda>old_right_frame pool.
     then_do (latch_write old_right_frame pool) (\<lambda>_ pool.
       leaving old_right_frame
         (Ok (), case node_at old_right_frame pool of
             Leaf old_right_leaf \<Rightarrow> set_node old_right_frame
               (mark_dirty lsn (Leaf (old_right_leaf\<lparr>has_prev := True, prev_page_id := new_leaf_id\<rparr>))) pool
           | Internal _ \<Rightarrow> pool)))"

text \<open>What follows a full page: the left leaf is latched in \<open>leaf_frame\<close>.\<close>

definition split_leaf :: "'w flush_fn \<Rightarrow> page_id \<Rightarrow> u64 \<Rightarrow> u8 list \<Rightarrow> u64 \<Rightarrow> frame_ref \<Rightarrow>
    'w buffer_pool \<Rightarrow> split_result option result \<times> 'w buffer_pool" where
  "split_leaf flush leaf_page_id rowid bytes lsn leaf_frame pool =
     then_do (new_page flush True pool) (\<lambda>(new_leaf_id, new_leaf_frame) pool.
     then_do (latch_write new_leaf_frame pool) (\<lambda>_ pool.
     leaving new_leaf_frame
       (case (node_at leaf_frame pool, node_at new_leaf_frame pool) of
          (Leaf left_leaf, Leaf right_leaf) \<Rightarrow>
            (case split_and_insert rowid bytes (left_leaf, right_leaf) of (r, (left_leaf, right_leaf)) \<Rightarrow>
             then_do (r, set_node new_leaf_frame (Leaf right_leaf) (set_node leaf_frame (Leaf left_leaf) pool))
               (\<lambda>promoted_row_id pool.
               case wire_siblings leaf_page_id new_leaf_id (left_leaf, right_leaf) of (left_wired, right_wired) \<Rightarrow>
               then_do (if has_next left_leaf
                        then connect_old_right flush (next_page_id left_leaf) new_leaf_id lsn
                          (set_node new_leaf_frame (Leaf right_wired) (set_node leaf_frame (Leaf left_wired) pool))
                        else (Ok (), set_node new_leaf_frame (Leaf right_wired) (set_node leaf_frame (Leaf left_wired) pool)))
                 (\<lambda>_ pool.
                   let pool = set_node leaf_frame (mark_dirty lsn (node_at leaf_frame pool)) pool;
                       pool = set_node new_leaf_frame (mark_dirty lsn (node_at new_leaf_frame pool)) pool
                   in (Ok (Some \<lparr>promoted_row_id = promoted_row_id, new_page_id = new_leaf_id\<rparr>), pool))))
        | _ \<Rightarrow> (Panic Unreachable, pool))))"

definition insert_leaf_pool :: "'w flush_fn \<Rightarrow> page_id \<Rightarrow> u64 \<Rightarrow> u8 list \<Rightarrow> u64 \<Rightarrow> 'w buffer_pool \<Rightarrow>
    split_result option result \<times> 'w buffer_pool" where
  "insert_leaf_pool flush leaf_page_id rowid bytes lsn pool =
     then_do (fetch_page flush leaf_page_id pool) (\<lambda>leaf_frame pool.
     then_do (latch_write leaf_frame pool) (\<lambda>_ pool.
     leaving leaf_frame
       (case node_at leaf_frame pool of
          Internal _ \<Rightarrow> (Err (CorruptPage InsertOnInternal), pool)
        | Leaf left_leaf \<Rightarrow>
            (case insert_record rowid bytes left_leaf of
               (Ok _, left_leaf) \<Rightarrow> (Ok None, set_node leaf_frame (mark_dirty lsn (Leaf left_leaf)) pool)
             | (Err err, left_leaf) \<Rightarrow>
                 if err = PageFull
                 then split_leaf flush leaf_page_id rowid bytes lsn leaf_frame
                        (set_node leaf_frame (Leaf left_leaf) pool)
                 else (Err err, set_node leaf_frame (Leaf left_leaf) pool)
             | (Panic p, left_leaf) \<Rightarrow> (Panic p, set_node leaf_frame (Leaf left_leaf) pool)
             | (Hang, left_leaf) \<Rightarrow> (Hang, set_node leaf_frame (Leaf left_leaf) pool)))))"

text \<open>A method of the pool, run through the tree's reference to it.\<close>

definition on_pool :: "('w buffer_pool \<Rightarrow> 'a result \<times> 'w buffer_pool) \<Rightarrow> 'w bp_tree \<Rightarrow> 'a result \<times> 'w bp_tree" where
  "on_pool g self = (case g (buffer_pool self) of (r, pool) \<Rightarrow> (r, self\<lparr>buffer_pool := pool\<rparr>))"

definition insert_leaf :: "'w flush_fn \<Rightarrow> page_id \<Rightarrow> u64 \<Rightarrow> u8 list \<Rightarrow> u64 \<Rightarrow> 'w bp_tree \<Rightarrow>
    split_result option result \<times> 'w bp_tree" where
  "insert_leaf flush leaf_page_id rowid bytes lsn =
     on_pool (insert_leaf_pool flush leaf_page_id rowid bytes lsn)"

section \<open>Finding a record\<close>

definition latch_read :: "frame_ref \<Rightarrow> 'w buffer_pool \<Rightarrow> unit result \<times> 'w buffer_pool" where
  "latch_read f self = (if write_latched (heap self ! f) then (Hang, self) else (Ok (), self))"

text \<open>One turn of the loop: the next page to visit, or the record.\<close>

datatype find_step = GoTo page_id | Return "u8 list option"

definition find_turn :: "'w flush_fn \<Rightarrow> u64 \<Rightarrow> page_id \<Rightarrow> 'w buffer_pool \<Rightarrow> find_step result \<times> 'w buffer_pool" where
  "find_turn flush rowid curr_page_id pool =
     then_do (fetch_page flush curr_page_id pool) (\<lambda>frame pool.
     then_do (latch_read frame pool) (\<lambda>_ pool.
       (case node_at frame pool of
          Internal node \<Rightarrow> and_then (route_key node rowid) (\<lambda>next_id. Ok (GoTo next_id))
        | Leaf node \<Rightarrow> and_then (get_record rowid node) (\<lambda>x. Ok (Return x)),
        drop_frame frame pool)))"

text \<open>The loop; it may go around a cycle of pages forever, and is then undefined (\<open>None\<close>).\<close>

partial_function (option) find_loop :: "'w flush_fn \<Rightarrow> u64 \<Rightarrow> page_id \<Rightarrow> 'w buffer_pool \<Rightarrow>
    (u8 list option result \<times> 'w buffer_pool) option" where
  "find_loop flush rowid curr_page_id pool =
     (case find_turn flush rowid curr_page_id pool of (r, pool) \<Rightarrow>
        (case r of
           Ok step \<Rightarrow> (case step of
               GoTo next_id \<Rightarrow> find_loop flush rowid next_id pool
             | Return x \<Rightarrow> Some (Ok x, pool))
         | Err e \<Rightarrow> Some (Err e, pool)
         | Panic p \<Rightarrow> Some (Panic p, pool)
         | Hang \<Rightarrow> Some (Hang, pool)))"

definition find_record :: "'w flush_fn \<Rightarrow> u64 \<Rightarrow> 'w bp_tree \<Rightarrow> (u8 list option result \<times> 'w bp_tree) option" where
  "find_record flush rowid self =
     map_option (\<lambda>(r, pool). (r, self\<lparr>buffer_pool := pool\<rparr>))
       (find_loop flush rowid (root_page_id self) (buffer_pool self))"

end
