(* ===== verification/Pool_Spec.thy ===== *)
theory Pool_Spec
  imports Buffer_Pool
begin

text \<open>
  The invariant of the buffer pool, the store of nodes it presents (\<open>pool_view\<close>: the cached
  node, or else the node on disk), and what every operation preserves of it.
\<close>

section \<open>The view and the invariant\<close>

definition disk_view :: "'w buffer_pool \<Rightarrow> page_id \<Rightarrow> btree_node option" where
  "disk_view self p = map_option disk_form (disk.stored (pool_disk self) p)"

definition pool_view :: "'w buffer_pool \<Rightarrow> page_id \<Rightarrow> btree_node option" where
  "pool_view self p = (case map_of (page_table self) p of
     Some f \<Rightarrow> Some (disk_form (node_at f self)) | None \<Rightarrow> disk_view self p)"

text \<open>
  The tables agree: every tracked page is cached, no frame serves two pages, a frame that is
  latched is also held by someone beside the table.
\<close>

definition table_wf :: "(page_id \<times> frame_ref) list \<Rightarrow> frame_cell list \<Rightarrow> bool" where
  "table_wf t h \<longleftrightarrow> distinct (map fst t) \<and> distinct (map snd t) \<and>
     (\<forall>(p, f) \<in> set t. f < length h \<and> 1 \<le> strong (h ! f) \<and> (write_latched (h ! f) \<longrightarrow> 2 \<le> strong (h ! f)))"

definition tracking :: "'w buffer_pool \<Rightarrow> bool" where
  "tracking self \<longleftrightarrow> (\<exists>ps. recency (pool_replacer self) ps \<and> set ps \<subseteq> fst ` set (page_table self)) \<and>
     lru_capacity (pool_replacer self) = pool_capacity self \<and>
     length (page_table self) \<le> pool_capacity self"

text \<open>
  \<open>L\<close> is the set of pages in use. A cached node that is clean and that nobody else holds is what
  the disk holds: it can be dropped. The holder of a frame may have a clean node that is not on
  disk (a new page); it has to mark it dirty before it lets go.
\<close>

definition contents_ok :: "page_id set \<Rightarrow> 'w buffer_pool \<Rightarrow> bool" where
  "contents_ok L self \<longleftrightarrow>
     (\<forall>p \<in> L. page_offset p) \<and> fst ` set (page_table self) \<subseteq> L \<and>
     (\<forall>(p, f) \<in> set (page_table self). node_wf (node_at f self) \<and>
        (strong (heap self ! f) = 1 \<and> \<not> node_is_dirty (node_at f self) \<longrightarrow> disk_view self p = Some (disk_form (node_at f self)))) \<and>
     (\<forall>p \<in> L. p \<notin> fst ` set (page_table self) \<longrightarrow> (\<exists>n. disk_view self p = Some n \<and> node_wf n))"

definition pool_inv :: "page_id set \<Rightarrow> 'w buffer_pool \<Rightarrow> bool" where
  "pool_inv L self \<longleftrightarrow> table_wf (page_table self) (heap self) \<and> tracking self \<and> contents_ok L self"

lemma table_lookup:
  assumes "table_wf t h" "map_of t p = Some f"
  shows "(p, f) \<in> set t" "f < length h" "1 \<le> strong (h ! f)" "write_latched (h ! f) \<Longrightarrow> 2 \<le> strong (h ! f)"
  using assms map_of_SomeD [OF assms(2)] by (auto simp: table_wf_def)

lemma table_inj:
  assumes "table_wf t h" "map_of t p = Some f" "map_of t q = Some f"
  shows "p = q"
proof -
  have d: "distinct (map snd t)" "(p, f) \<in> set t" "(q, f) \<in> set t"
    using assms map_of_SomeD by (auto simp: table_wf_def)
  then show ?thesis by (metis distinct_map inj_onD prod.inject snd_conv)
qed

lemma table_entries: "table_wf t h \<Longrightarrow> (p, f) \<in> set t \<longleftrightarrow> map_of t p = Some f"
  by (simp add: table_wf_def map_of_eq_Some_iff)

lemma pool_view_ok:
  assumes "pool_inv L self" "p \<in> L"
  obtains n where "pool_view self p = Some n" "node_wf n"
proof (cases "map_of (page_table self) p")
  case None
  then have "p \<notin> fst ` set (page_table self)" by (simp add: map_of_eq_None_iff)
  then show ?thesis using that assms None by (auto simp: pool_inv_def contents_ok_def pool_view_def)
next
  case (Some f)
  then have "node_wf (node_at f self)" using assms map_of_SomeD [OF Some] by (auto simp: pool_inv_def contents_ok_def)
  then show ?thesis using that Some by (simp add: pool_view_def)
qed

section \<open>What an operation leaves alone\<close>

text \<open>
  \<open>keeps L self self'\<close>: the view of every page in use, and every frame that is held outside the
  table, which stays mapped to its page.
\<close>

definition frame_kept :: "'w buffer_pool \<Rightarrow> 'w buffer_pool \<Rightarrow> frame_ref \<Rightarrow> bool" where
  "frame_kept self self' f \<longleftrightarrow> f < length (heap self') \<and>
     node_at f self' \<in> {node_at f self, clear_dirty (node_at f self)} \<and>
     write_latched (heap self' ! f) = write_latched (heap self ! f) \<and>
     strong (heap self ! f) \<le> strong (heap self' ! f) \<and>
     (\<forall>p. map_of (page_table self) p = Some f \<longrightarrow> map_of (page_table self') p = Some f)"

definition keeps :: "page_id set \<Rightarrow> 'w buffer_pool \<Rightarrow> 'w buffer_pool \<Rightarrow> bool" where
  "keeps L self self' \<longleftrightarrow> (\<forall>p \<in> L. pool_view self' p = pool_view self p) \<and>
     pool_capacity self' = pool_capacity self \<and>
     (\<forall>f < length (heap self). 2 \<le> strong (heap self ! f) \<longrightarrow> frame_kept self self' f)"

lemma keeps_refl [simp]: "keeps L self self"
  by (simp add: keeps_def frame_kept_def)

lemma clear_dirty_twice [simp]: "clear_dirty (clear_dirty n) = clear_dirty n"
  by (cases n) simp_all

lemma frame_kept_trans:
  "frame_kept a b f \<Longrightarrow> frame_kept b c f \<Longrightarrow> frame_kept a c f"
  unfolding frame_kept_def by auto

lemma keeps_trans: "keeps L a b \<Longrightarrow> keeps L b c \<Longrightarrow> keeps L a c"
proof -
  assume ab: "keeps L a b" and bc: "keeps L b c"
  have "frame_kept a c f" if f: "f < length (heap a)" "2 \<le> strong (heap a ! f)" for f
  proof -
    have k: "frame_kept a b f" using ab f by (simp add: keeps_def)
    then have "f < length (heap b)" "2 \<le> strong (heap b ! f)" using f(2) by (auto simp: frame_kept_def)
    then have "frame_kept b c f" using bc by (simp add: keeps_def)
    with k show ?thesis by (rule frame_kept_trans)
  qed
  with ab bc show ?thesis by (simp add: keeps_def)
qed

section \<open>Flushing\<close>

lemma node_at_set: "f < length (heap self) \<Longrightarrow>
   node_at g (set_node f n self) = (if g = f then n else node_at g self)"
  by (simp add: node_at_def set_node_def nth_update_if)

lemma set_node_fields [simp]:
  "page_table (set_node f n self) = page_table self" "pool_replacer (set_node f n self) = pool_replacer self"
  "pool_capacity (set_node f n self) = pool_capacity self" "pool_disk (set_node f n self) = pool_disk self"
  "pool_flusher (set_node f n self) = pool_flusher self" "length (heap (set_node f n self)) = length (heap self)"
  "strong (heap (set_node f n self) ! g) = strong (heap self ! g)"
  "write_latched (heap (set_node f n self) ! g) = write_latched (heap self ! g)"
  by (auto simp: set_node_def nth_update_if)

text \<open>Everything of the pool but the disk, the flusher and the dirty flag of one frame is as before.\<close>

definition flush_frame :: "frame_ref \<Rightarrow> 'w buffer_pool \<Rightarrow> 'w buffer_pool \<Rightarrow> bool" where
  "flush_frame f self self' \<longleftrightarrow>
     page_table self' = page_table self \<and> pool_replacer self' = pool_replacer self \<and>
     pool_capacity self' = pool_capacity self \<and>
     (heap self' = heap self \<or> heap self' = heap (set_node f (clear_dirty (node_at f self)) self))"

lemma flush_frame_refl [simp]: "flush_frame f self self" by (simp add: flush_frame_def)

lemma flush_wal_fields:
  "flush_wal flush lsn self = (r, self') \<Longrightarrow> self' = self\<lparr>pool_flusher := pool_flusher self'\<rparr>"
  by (auto simp: flush_wal_def split: option.splits prod.splits)

lemma on_disk_fields:
  "on_disk g self = (r, self') \<longleftrightarrow> (\<exists>d. g (pool_disk self) = (r, d) \<and> self' = self\<lparr>pool_disk := d\<rparr>)"
  by (auto simp: on_disk_def split: prod.splits)

lemma node_at_other_fields [simp]:
  "node_at f (self\<lparr>pool_disk := d\<rparr>) = node_at f self" "node_at f (self\<lparr>pool_flusher := w\<rparr>) = node_at f self"
  "node_at f (self\<lparr>pool_replacer := rp\<rparr>) = node_at f self"
  by (simp_all add: node_at_def)

lemma flush_page_cases:
  assumes "map_of (page_table self) p = Some f" "\<not> write_latched (heap self ! f)"
    and "flush_page flush p self = (r, self')"
  obtains (clean) "\<not> node_is_dirty (node_at f self)" "r = Ok ()" "self' = self"
  | (unwritten) w r1 where "node_is_dirty (node_at f self)" "r \<noteq> Ok ()" "self' = self\<lparr>pool_flusher := w\<rparr>"
      "flush_wal flush (get_last_lsn (node_at f self)) self = (r1, self')"
  | (written) w img r2 d where "node_is_dirty (node_at f self)"
      "flush_wal flush (get_last_lsn (node_at f self)) self = (Ok (), self\<lparr>pool_flusher := w\<rparr>)"
      "encode (node_at f self) page_new = Ok img" "write_page p img (pool_disk self) = (r2, d)" "r = r2"
      "self' = (if r = Ok () then set_node f (clear_dirty (node_at f self)) (self\<lparr>pool_flusher := w, pool_disk := d\<rparr>)
        else self\<lparr>pool_flusher := w, pool_disk := d\<rparr>)"
proof (cases "node_is_dirty (node_at f self)")
  case False
  then show thesis using clean assms by (simp add: flush_page_def)
next
  case True
  obtain r1 s1 where fw: "flush_wal flush (get_last_lsn (node_at f self)) self = (r1, s1)" by fastforce
  then have s1: "s1 = self\<lparr>pool_flusher := pool_flusher s1\<rparr>" by (rule flush_wal_fields)
  have nd: "node_at f s1 = node_at f self" by (subst s1) simp
  have step: "flush_page flush p self = then_do (r1, s1) (\<lambda>_ self.
       then_do (encode (node_at f self) page_new, self) (\<lambda>raw_page self.
       then_do (on_disk (write_page p raw_page) self) (\<lambda>_ self.
         (Ok (), set_node f (clear_dirty (node_at f self)) self))))"
    using assms(1,2) True fw by (simp add: flush_page_def)
  show thesis
  proof (cases "r1 = Ok () \<and> (\<exists>img. encode (node_at f self) page_new = Ok img)")
    case False
    have "r \<noteq> Ok () \<and> self' = s1"
      using False assms(3) unfolding step by (cases r1; cases "encode (node_at f self) page_new") (auto simp: nd)
    then show thesis using unwritten [OF True] s1 fw by metis
  next
    case ok: True
    then obtain img where img: "encode (node_at f self) page_new = Ok img" by blast
    obtain r2 d where w: "write_page p img (pool_disk self) = (r2, d)" by fastforce
    have pd: "pool_disk s1 = pool_disk self" by (subst s1) simp
    let ?s2 = "self\<lparr>pool_flusher := pool_flusher s1, pool_disk := d\<rparr>"
    have od: "on_disk (write_page p img) s1 = (r2, ?s2)"
      using w by (subst on_disk_fields) (use s1 pd in \<open>metis buffer_pool.surjective buffer_pool.update_convs(1) buffer_pool.update_convs(5)\<close>)
    have "r = r2 \<and> self' = (if r = Ok () then set_node f (clear_dirty (node_at f self)) ?s2 else ?s2)"
      using assms(3) ok img od unfolding step by (cases r2) (auto simp: nd)
    then show thesis using written [OF True _ img w] fw ok s1 by metis
  qed
qed

lemma encode_Ok_fits: "node_wf n \<Longrightarrow> encode n page = Ok img \<Longrightarrow> node_fits n"
  using encode_full [of n page] by fastforce

lemma disk_view_written:
  assumes "node_wf n" "encode n page_new = Ok img" "write_page p img d = (Ok (), d')"
  shows "disk.stored d' p = Some (disk_form n)"
  using assms encode_Ok_fits by (intro disk.stored_after_write) (auto simp: page_new_def)

lemma disk_view_other:
  assumes "page_offset p" "page_offset q" "p \<noteq> q" "node_wf n" "encode n page_new = Ok img"
    and "write_page p img d = (r, d')" "disk.stored d q = Some m"
  shows "disk.stored d' q = Some m"
  using assms encode_Ok_fits by (intro disk.stored_other_write [of p q n page_new img d r d' m])
    (auto simp: page_new_def)

definition same_shape :: "'w buffer_pool \<Rightarrow> 'w buffer_pool \<Rightarrow> bool" where
  "same_shape self self' \<longleftrightarrow>
     page_table self' = page_table self \<and> pool_replacer self' = pool_replacer self \<and>
     pool_capacity self' = pool_capacity self \<and> length (heap self') = length (heap self) \<and>
     (\<forall>g. strong (heap self' ! g) = strong (heap self ! g) \<and>
        write_latched (heap self' ! g) = write_latched (heap self ! g) \<and>
        node_at g self' \<in> {node_at g self, clear_dirty (node_at g self)})"

lemma same_shape_refl [simp]: "same_shape self self" by (simp add: same_shape_def)

lemma same_shape_trans: "same_shape a b \<Longrightarrow> same_shape b c \<Longrightarrow> same_shape a c"
  unfolding same_shape_def by (auto, (metis clear_dirty_twice)+)

lemma same_shape_wf:
  assumes "same_shape self self'"
  shows "table_wf (page_table self') (heap self') = table_wf (page_table self) (heap self)"
    and "tracking self' = tracking self"
  using assms by (simp_all add: same_shape_def table_wf_def tracking_def)

lemma keepsI:
  assumes "same_shape self self'" "\<And>p. p \<in> L \<Longrightarrow> pool_view self' p = pool_view self p"
  shows "keeps L self self'"
  using assms by (auto simp: keeps_def frame_kept_def same_shape_def)

lemma contents_uncached_disk:
  assumes "\<And>q. q \<in> L \<Longrightarrow> q \<notin> fst ` set (page_table self) \<Longrightarrow> disk_view self' q = disk_view self q"
    and "same_shape self self'"
  shows "q \<in> L \<Longrightarrow> pool_view self' q = pool_view self q"
proof -
  assume q: "q \<in> L"
  show "pool_view self' q = pool_view self q"
  proof (cases "map_of (page_table self) q")
    case None
    then have "q \<notin> fst ` set (page_table self)" by (simp add: map_of_eq_None_iff)
    then show ?thesis using assms q None by (simp add: pool_view_def same_shape_def)
  next
    case (Some f)
    have "node_at f self' \<in> {node_at f self, clear_dirty (node_at f self)}"
      and "page_table self' = page_table self" using assms(2) by (simp_all add: same_shape_def)
    then show ?thesis using Some by (auto simp: pool_view_def)
  qed
qed

text \<open>A write of one dirty cached page keeps the contents and the view.\<close>

lemma write_keeps:
  assumes inv: "pool_inv L self" and f: "map_of (page_table self) p = Some f"
    and dirty: "node_is_dirty (node_at f self)" and same: "same_shape self self'"
    and others: "\<And>g. g \<noteq> f \<Longrightarrow> node_at g self' = node_at g self"
    and disk: "\<And>q m. q \<in> L \<Longrightarrow> q \<noteq> p \<Longrightarrow> disk.stored (pool_disk self) q = Some m \<Longrightarrow>
        disk.stored (pool_disk self') q = Some m"
    and clean: "\<not> node_is_dirty (node_at f self') \<Longrightarrow>
        disk.stored (pool_disk self') p = Some (disk_form (node_at f self))"
  shows "pool_inv L self' \<and> keeps L self self'"
proof -
  have wf: "table_wf (page_table self) (heap self)" and c: "contents_ok L self" using inv by (simp_all add: pool_inv_def)
  have t: "page_table self' = page_table self" using same by (simp add: same_shape_def)
  have pL: "p \<in> L" using c map_of_SomeD [OF f] by (force simp: contents_ok_def)
  have dv: "disk_view self' q = disk_view self q" if "q \<in> L" "q \<noteq> p" "disk_view self q \<noteq> None" for q
    using that disk by (auto simp: disk_view_def)
  have cached: "node_wf (node_at g self') \<and>
      (strong (heap self' ! g) = 1 \<and> \<not> node_is_dirty (node_at g self') \<longrightarrow>
        disk_view self' q = Some (disk_form (node_at g self')))"
    if e: "(q, g) \<in> set (page_table self)" for q g
  proof (cases "g = f")
    case True
    then have "q = p" using table_inj [OF wf _ f] e table_entries [OF wf] by blast
    moreover have "node_at f self' \<in> {node_at f self, clear_dirty (node_at f self)}"
      using same by (simp add: same_shape_def)
    ultimately show ?thesis using True e c clean by (auto simp: contents_ok_def disk_view_def)
  next
    case False
    then have "q \<noteq> p" using e f table_entries [OF wf] by auto
    moreover have "q \<in> L" using e c by (force simp: contents_ok_def)
    moreover have "strong (heap self' ! g) = strong (heap self ! g)" using same by (simp add: same_shape_def)
    ultimately show ?thesis using False e c others dv [of q] by (auto simp: contents_ok_def)
  qed
  have un: "disk_view self' q = disk_view self q" if "q \<in> L" "q \<notin> fst ` set (page_table self)" for q
  proof (rule dv [OF that(1)])
    show "q \<noteq> p" using that(2) map_of_SomeD [OF f] by force
    show "disk_view self q \<noteq> None" using that c by (auto simp: contents_ok_def)
  qed
  have "contents_ok L self'" using c cached un by (auto simp: contents_ok_def t)
  then have "pool_inv L self'" using inv same_shape_wf [OF same] by (simp add: pool_inv_def)
  moreover have "keeps L self self'" by (rule keepsI [OF same contents_uncached_disk [OF un same]])
  ultimately show ?thesis by simp
qed

lemma pool_inv_flusher:
  "pool_inv L (self\<lparr>pool_flusher := w\<rparr>) = pool_inv L self"
  "same_shape self (self\<lparr>pool_flusher := w\<rparr>)" "keeps L self (self\<lparr>pool_flusher := w\<rparr>)"
  by (simp_all add: pool_inv_def contents_ok_def tracking_def same_shape_def keeps_def frame_kept_def
      pool_view_def disk_view_def split: option.split)

lemma flush_page_spec:
  assumes inv: "pool_inv L self" and run: "flush_page flush p self = (r, self')"
  shows "pool_inv L self' \<and> keeps L self self' \<and> same_shape self self' \<and>
    (r = Ok () \<longrightarrow> (\<forall>f. map_of (page_table self) p = Some f \<longrightarrow> \<not> node_is_dirty (node_at f self')))"
proof (cases "map_of (page_table self) p")
  case None
  then show ?thesis using inv run by (simp add: flush_page_def)
next
  case (Some f)
  have wf: "table_wf (page_table self) (heap self)" and c: "contents_ok L self" using inv by (simp_all add: pool_inv_def)
  note tl = table_lookup [OF wf Some]
  have ok: "node_wf (node_at f self)" and pL: "p \<in> L" using c tl(1) by (force simp: contents_ok_def)+
  show ?thesis
  proof (cases "write_latched (heap self ! f)")
    case True
    then show ?thesis using inv run Some by (simp add: flush_page_def)
  next
    case False
    then show ?thesis
    proof (cases rule: flush_page_cases [OF Some False run])
      case 1
      then show ?thesis using inv Some by simp
    next
      case (2 w)
      then show ?thesis using inv pool_inv_flusher by auto
    next
      case (3 w img r2 d)
      have same: "same_shape self self'"
        unfolding 3(6) using tl(2) by (auto simp: same_shape_def node_at_set)
      have d: "pool_disk self' = d" unfolding 3(6) by simp
      have nd: "node_at g self' = (if r = Ok () \<and> g = f then clear_dirty (node_at f self) else node_at g self)" for g
        unfolding 3(6) using tl(2) by (simp add: node_at_set)
      have "pool_inv L self' \<and> keeps L self self'"
      proof (rule write_keeps [OF inv Some 3(1) same])
        show "node_at g self' = node_at g self" if "g \<noteq> f" for g using that nd by simp
        show "disk.stored (pool_disk self') q = Some m"
          if "q \<in> L" "q \<noteq> p" "disk.stored (pool_disk self) q = Some m" for q m
          unfolding d using c that pL by (intro disk_view_other [OF _ _ _ ok 3(3,4)]) (auto simp: contents_ok_def)
        show "disk.stored (pool_disk self') p = Some (disk_form (node_at f self))"
          if "\<not> node_is_dirty (node_at f self')"
        proof -
          have "r = Ok ()" using that 3(1) nd by (auto split: if_splits)
          then show ?thesis unfolding d using 3(4,5) by (intro disk_view_written [OF ok 3(3)]) simp
        qed
      qed
      then show ?thesis using same nd Some by auto
    qed
  qed
qed

lemma flush_pages_spec:
  assumes "pool_inv L self" "flush_pages flush ps self = (r, self')"
  shows "pool_inv L self' \<and> keeps L self self' \<and> same_shape self self' \<and>
    (r = Ok () \<longrightarrow> (\<forall>p \<in> set ps. \<forall>f. map_of (page_table self) p = Some f \<longrightarrow> \<not> node_is_dirty (node_at f self')))"
  using assms
proof (induction ps arbitrary: self)
  case (Cons p ps)
  obtain r1 s1 where s1: "flush_page flush p self = (r1, s1)" by fastforce
  note fp = flush_page_spec [OF Cons.prems(1) s1]
  show ?case
  proof (cases "r1 = Ok ()")
    case True
    then have rest: "flush_pages flush ps s1 = (r, self')" using Cons.prems(2) s1 by simp
    have inv1: "pool_inv L s1" using fp by blast
    note IH = Cons.IH [OF inv1 rest]
    have t: "page_table s1 = page_table self" using fp by (simp add: same_shape_def)
    have clean: "\<not> node_is_dirty (node_at f self')" if "map_of (page_table self) p = Some f" for f
    proof -
      have "\<not> node_is_dirty (node_at f s1)" using fp True that by blast
      moreover have "node_at f self' \<in> {node_at f s1, clear_dirty (node_at f s1)}"
        using IH by (simp add: same_shape_def)
      ultimately show ?thesis by auto
    qed
    show ?thesis using fp IH clean keeps_trans same_shape_trans unfolding t by (metis set_ConsD)
  next
    case False
    then have "r \<noteq> Ok () \<and> self' = s1" using Cons.prems(2) s1 by (cases r1) auto
    with fp show ?thesis by simp
  qed
qed simp

text \<open>A step of the disk that loses no stored page: reading, allocating, saving the header.\<close>

lemma disk_step:
  assumes inv: "pool_inv L self"
    and mono: "\<And>q m. page_offset q \<Longrightarrow> disk.stored (pool_disk self) q = Some m \<Longrightarrow> disk.stored d q = Some m"
  shows "pool_inv L (self\<lparr>pool_disk := d\<rparr>) \<and> keeps L self (self\<lparr>pool_disk := d\<rparr>) \<and>
    same_shape self (self\<lparr>pool_disk := d\<rparr>)"
proof -
  let ?s = "self\<lparr>pool_disk := d\<rparr>"
  have same: "same_shape self ?s" by (simp add: same_shape_def)
  have c: "contents_ok L self" using inv by (simp add: pool_inv_def)
  have dv: "disk_view ?s q = disk_view self q" if "page_offset q" "disk_view self q \<noteq> None" for q
    using that mono by (auto simp: disk_view_def)
  have un: "disk_view ?s q = disk_view self q" if "q \<in> L" "q \<notin> fst ` set (page_table self)" for q
    using that c by (intro dv) (auto simp: contents_ok_def)
  have "contents_ok L ?s" unfolding contents_ok_def
  proof (intro conjI ballI)
    show "page_offset p" if "p \<in> L" for p using that c by (simp add: contents_ok_def)
    show "fst ` set (page_table ?s) \<subseteq> L" using c by (simp add: contents_ok_def)
    show "p \<notin> fst ` set (page_table ?s) \<longrightarrow> (\<exists>n. disk_view ?s p = Some n \<and> node_wf n)" if "p \<in> L" for p
      using that c un by (simp add: contents_ok_def)
    fix e assume e: "e \<in> set (page_table ?s)"
    obtain p f where pf: "e = (p, f)" by fastforce
    have "page_offset p" using c e pf by (force simp: contents_ok_def)
    then show "case e of (p, f) \<Rightarrow> node_wf (node_at f ?s) \<and> (strong (heap ?s ! f) = 1 \<and>
        \<not> node_is_dirty (node_at f ?s) \<longrightarrow> disk_view ?s p = Some (disk_form (node_at f ?s)))"
      using c e pf dv [of p] by (auto simp: contents_ok_def)
  qed
  then have "pool_inv L ?s" using inv same_shape_wf [OF same] by (simp add: pool_inv_def)
  moreover have "keeps L self ?s" by (rule keepsI [OF same contents_uncached_disk [OF un same]])
  ultimately show ?thesis using same by simp
qed

lemma stored_eqI: "disk_page d' = disk_page d \<Longrightarrow> disk.stored d' = disk.stored d"
  by (rule ext) (simp add: disk.stored_def)

lemma save_header_stored:
  assumes "save_header d = (r, d')" "page_offset q" "disk.stored d q = Some m"
  shows "disk.stored d' q = Some m"
proof -
  obtain y where "disk_page d q = Some y" using assms(3) by (cases "disk_page d q") (auto simp: disk.stored_def)
  with save_header_other [OF assms(2,1)] assms(3) show ?thesis by (simp add: disk.stored_def)
qed

lemma flush_all_pages_spec:
  assumes inv: "pool_inv L self" and run: "flush_all_pages flush self = (r, self')"
  shows "pool_inv L self' \<and> keeps L self self' \<and> same_shape self self' \<and>
    (r = Ok () \<longrightarrow> (\<forall>p f. map_of (page_table self) p = Some f \<longrightarrow> \<not> node_is_dirty (node_at f self')))"
proof -
  obtain r1 s1 where s1: "flush_pages flush (map fst (page_table self)) self = (r1, s1)" by fastforce
  note fp = flush_pages_spec [OF inv s1]
  have inv1: "pool_inv L s1" using fp by blast
  show ?thesis
  proof (cases "r1 = Ok ()")
    case True
    obtain r2 d where d: "save_header (pool_disk s1) = (r2, d)" by fastforce
    have res: "self' = s1\<lparr>pool_disk := d\<rparr>"
      using run s1 True d by (cases r2) (auto simp: flush_all_pages_def on_disk_def)
    have "disk.stored d q = Some m" if "page_offset q" "disk.stored (pool_disk s1) q = Some m" for q m
      by (rule save_header_stored [OF d that])
    note st = disk_step [OF inv1, of d, folded res, OF this]
    have "\<not> node_is_dirty (node_at f self')" if m: "map_of (page_table self) p = Some f" for p f
    proof -
      have "p \<in> set (map fst (page_table self))" using map_of_SomeD [OF m] by force
      then have "\<not> node_is_dirty (node_at f s1)" using fp True m by blast
      then show ?thesis unfolding res by simp
    qed
    with fp st show ?thesis using keeps_trans same_shape_trans by blast
  next
    case False
    then have "r \<noteq> Ok () \<and> self' = s1" using run s1 by (cases r1) (auto simp: flush_all_pages_def)
    with fp show ?thesis by simp
  qed
qed

section \<open>Making room\<close>

lemma evictable_eq:
  assumes "p \<in> fst ` set (page_table self)"
  shows "evictable self p = Ok (\<exists>f. map_of (page_table self) p = Some f \<and> strong (heap self ! f) = 1)"
proof -
  obtain f where "map_of (page_table self) p = Some f" using assms by (metis map_of_eq_None_iff not_None_eq)
  then show ?thesis by (simp add: evictable_def)
qed

lemma replacer_step:
  assumes "pool_inv L self" "recency rp ps" "set ps \<subseteq> fst ` set (page_table self)"
    and "lru_capacity rp = lru_capacity (pool_replacer self)"
  shows "pool_inv L (self\<lparr>pool_replacer := rp\<rparr>)" "keeps L self (self\<lparr>pool_replacer := rp\<rparr>)"
proof -
  show "pool_inv L (self\<lparr>pool_replacer := rp\<rparr>)"
    using assms by (auto simp: pool_inv_def tracking_def contents_ok_def disk_view_def)
  show "keeps L self (self\<lparr>pool_replacer := rp\<rparr>)"
    by (simp add: keeps_def frame_kept_def pool_view_def disk_view_def split: option.split)
qed

lemma map_of_delete: "map_of (AList.delete p t) q = (if q = p then None else map_of t q)"
  by (simp add: delete_conv')

lemma set_delete: "distinct (map fst t) \<Longrightarrow> set (AList.delete p t) = {e \<in> set t. fst e \<noteq> p}"
  by (auto simp: AList.delete_eq)

lemma length_delete:
  "distinct (map fst t) \<Longrightarrow> map_of t p = Some f \<Longrightarrow> Suc (length (AList.delete p t)) = length t"
proof (induction t)
  case (Cons e t)
  show ?case
  proof (cases "fst e = p")
    case True
    then have "p \<notin> fst ` set t" using Cons.prems(1) by auto
    then show ?thesis using True by (cases e) (simp add: delete_notin_dom)
  next
    case False
    then show ?thesis using Cons by (cases e) auto
  qed
qed simp

text \<open>Dropping a clean page that only the table holds, and that the replacer has let go.\<close>

lemma unmap_spec:
  assumes inv: "pool_inv L self" and f: "map_of (page_table self) p = Some f"
    and one: "strong (heap self ! f) = 1" and clean: "\<not> node_is_dirty (node_at f self)"
    and rec: "recency (pool_replacer self) ps" "set ps \<subseteq> fst ` set (page_table self) - {p}"
  shows "pool_inv L (unmap p self)" "keeps L self (unmap p self)"
    "Suc (length (page_table (unmap p self))) = length (page_table self)"
    "\<And>q. map_of (page_table (unmap p self)) q = (if q = p then None else map_of (page_table self) q)"
proof -
  let ?s = "unmap p self" and ?t = "AList.delete p (page_table self)"
  have wf: "table_wf (page_table self) (heap self)" and tr: "tracking self" and c: "contents_ok L self"
    using inv by (simp_all add: pool_inv_def)
  note tl = table_lookup [OF wf f]
  have dist: "distinct (map fst (page_table self))" "distinct (map snd (page_table self))"
    using wf by (simp_all add: table_wf_def)
  have t: "page_table ?s = ?t" "pool_replacer ?s = pool_replacer self" "pool_capacity ?s = pool_capacity self"
    "pool_disk ?s = pool_disk self" "length (heap ?s) = length (heap self)"
    using f by (simp_all add: unmap_def drop_frame_def)
  have h: "heap ?s ! g = heap self ! g" if "g \<noteq> f" for g
    using f that by (simp add: unmap_def drop_frame_def)
  then have nd: "node_at g ?s = node_at g self" if "g \<noteq> f" for g using that by (simp add: node_at_def)
  have other: "g \<noteq> f \<and> (q, g) \<in> set (page_table self) \<and> q \<noteq> p" if "(q, g) \<in> set ?t" for q g
  proof -
    have e: "(q, g) \<in> set (page_table self)" "q \<noteq> p" using that set_delete [OF dist(1)] by auto
    then have "g \<noteq> f" using table_inj [OF wf _ f] table_entries [OF wf] by blast
    with e show ?thesis by simp
  qed
  have keys: "fst ` set ?t = fst ` set (page_table self) - {p}" using set_delete [OF dist(1)] by force
  show len: "Suc (length (page_table ?s)) = length (page_table self)"
    using length_delete [OF dist(1) f] by (simp add: t)
  show look: "map_of (page_table ?s) q = (if q = p then None else map_of (page_table self) q)" for q
    by (simp add: t map_of_delete)
  have dv: "disk_view ?s = disk_view self" by (rule ext) (simp add: disk_view_def t)
  have dp: "disk_view self p = Some (disk_form (node_at f self))"
    using c tl(1) one clean by (auto simp: contents_ok_def)
  have view: "pool_view ?s q = pool_view self q" for q
  proof (cases "q = p")
    case True
    then show ?thesis using look [of p] f dp dv by (simp add: pool_view_def)
  next
    case False
    show ?thesis
    proof (cases "map_of (page_table self) q")
      case None
      then show ?thesis using look [of q] False dv by (simp add: pool_view_def)
    next
      case (Some g)
      then have "g \<noteq> f" using table_inj [OF wf Some] f False by blast
      then show ?thesis using look [of q] False Some nd by (simp add: pool_view_def)
    qed
  qed
  have "distinct (map fst ?t)" "distinct (map snd ?t)"
    using dist by (simp_all add: AList.delete_eq distinct_map_filter)
  moreover have "g < length (heap ?s) \<and> 1 \<le> strong (heap ?s ! g) \<and>
      (write_latched (heap ?s ! g) \<longrightarrow> 2 \<le> strong (heap ?s ! g))" if "(q, g) \<in> set ?t" for q g
    using other [OF that] h [of g] wf t(5) by (auto simp: table_wf_def)
  ultimately have "table_wf (page_table ?s) (heap ?s)" by (auto simp: table_wf_def t)
  moreover have "tracking ?s" using tr rec len keys by (auto simp: tracking_def t)
  moreover have "contents_ok L ?s" unfolding contents_ok_def
  proof (intro conjI ballI)
    show "page_offset q" if "q \<in> L" for q using that c by (simp add: contents_ok_def)
    show "fst ` set (page_table ?s) \<subseteq> L" using c keys by (auto simp: contents_ok_def t)
    show "q \<notin> fst ` set (page_table ?s) \<longrightarrow> (\<exists>n. disk_view ?s q = Some n \<and> node_wf n)" if "q \<in> L" for q
    proof (cases "q = p")
      case True
      have "node_wf (node_at f self)" using c tl(1) by (auto simp: contents_ok_def)
      then show ?thesis using True dp dv by simp
    next
      case False
      then show ?thesis using that c keys dv by (auto simp: contents_ok_def t)
    qed
    fix e assume "e \<in> set (page_table ?s)"
    moreover obtain q g where e: "e = (q, g)" by fastforce
    ultimately have o: "g \<noteq> f \<and> (q, g) \<in> set (page_table self) \<and> q \<noteq> p" using other by (simp add: t)
    then show "case e of (q, g) \<Rightarrow> node_wf (node_at g ?s) \<and> (strong (heap ?s ! g) = 1 \<and>
        \<not> node_is_dirty (node_at g ?s) \<longrightarrow> disk_view ?s q = Some (disk_form (node_at g ?s)))"
      using c h [of g] nd [of g] dv e by (auto simp: contents_ok_def)
  qed
  ultimately show "pool_inv L ?s" by (simp add: pool_inv_def)
  have "frame_kept self ?s g" if "2 \<le> strong (heap self ! g)" "g < length (heap self)" for g
  proof -
    have g: "g \<noteq> f" using that one by auto
    then have "map_of (page_table ?s) q = Some g" if "map_of (page_table self) q = Some g" for q
      using that look [of q] f by auto
    then show ?thesis using g h [OF g] nd [OF g] that(2) t(5) by (simp add: frame_kept_def)
  qed
  then show "keeps L self ?s" using view by (simp add: keeps_def t)
qed

text \<open>A call that comes back with a value or an error, and a flusher whose calls do.\<close>

primrec returns :: "'a result \<Rightarrow> bool" where
  "returns (Ok x) = True"
| "returns (Err e) = True"
| "returns (Panic p) = False"
| "returns Hang = False"

definition calm :: "'w flush_fn \<Rightarrow> bool" where
  "calm flush \<longleftrightarrow> (\<forall>lsn w. returns (fst (flush lsn w)))"

lemma returns_then_do:
  "returns r \<Longrightarrow> (\<And>x. r = Ok x \<Longrightarrow> returns (fst (f x s))) \<Longrightarrow> returns (fst (then_do (r, s) f))"
  by (cases r) auto

lemma write_page_returns: "returns (fst (write_page p img d))"
  by (auto simp: write_page_def write_all_at_def split: prod.splits option.splits)

lemma read_page_returns: "returns (fst (read_page p d))"
  by (auto simp: read_page_def read_exact_at_def split: prod.splits option.splits)

lemma encode_returns: "node_wf n \<Longrightarrow> returns (encode n page_new)"
  using codec.enc_dec [of n page_new] encode_full [of n page_new] by (cases "node_fits n") (auto simp: page_new_def)

lemma flush_wal_returns: "calm flush \<Longrightarrow> returns (fst (flush_wal flush lsn self))"
  by (auto simp: flush_wal_def calm_def split: option.splits prod.splits) (metis fst_conv)

lemma flush_page_returns:
  assumes "calm flush" "pool_inv L self"
    and latch: "\<And>f. map_of (page_table self) p = Some f \<Longrightarrow> \<not> write_latched (heap self ! f)"
  shows "returns (fst (flush_page flush p self))"
proof (cases "map_of (page_table self) p")
  case None
  then show ?thesis by (simp add: flush_page_def)
next
  case (Some f)
  obtain r self' where run: "flush_page flush p self = (r, self')" by fastforce
  have ok: "node_wf (node_at f self)"
    using assms(2) map_of_SomeD [OF Some] by (auto simp: pool_inv_def contents_ok_def)
  have enc: "returns (encode (node_at f self) page_new)" by (rule encode_returns [OF ok])
  show ?thesis
  proof (cases "node_is_dirty (node_at f self)")
    case False
    then show ?thesis using Some latch [OF Some] by (simp add: flush_page_def)
  next
    case True
    obtain r1 s1 where fw: "flush_wal flush (get_last_lsn (node_at f self)) self = (r1, s1)" by fastforce
    have "node_at f s1 = node_at f self" by (subst flush_wal_fields [OF fw]) simp
    moreover have "returns r1" using flush_wal_returns [OF assms(1)] fw by (metis fst_conv)
    moreover have "returns (fst (then_do (on_disk (write_page p img) s) (\<lambda>_ t. (Ok (), h t))))" for img s h
      using write_page_returns [of p img "pool_disk s"]
      by (cases "write_page p img (pool_disk s)"; cases "fst (write_page p img (pool_disk s))") (auto simp: on_disk_def)
    ultimately show ?thesis
      using Some latch [OF Some] True fw enc
      by (cases r1; cases "encode (node_at f self) page_new") (auto simp: flush_page_def)
  qed
qed

lemma tracking_evict:
  assumes "pool_inv L self"
  obtains (none) "evict_if (evictable self) (pool_replacer self) = Ok (None, pool_replacer self)"
  | (some) p f rp ps where "evict_if (evictable self) (pool_replacer self) = Ok (Some p, rp)"
      "map_of (page_table self) p = Some f" "strong (heap self ! f) = 1"
      "recency rp ps" "set ps \<subseteq> fst ` set (page_table self) - {p}"
      "lru_capacity rp = lru_capacity (pool_replacer self)"
proof -
  obtain ps where ps: "recency (pool_replacer self) ps" "set ps \<subseteq> fst ` set (page_table self)"
    using assms by (auto simp: pool_inv_def tracking_def)
  let ?P = "\<lambda>p. \<exists>f. map_of (page_table self) p = Some f \<and> strong (heap self ! f) = 1"
  have "\<forall>p \<in> set ps. evictable self p = Ok (?P p)" using ps(2) evictable_eq by blast
  from lru.evict_law [OF ps(1) this] show thesis
  proof (elim disjE exE conjE)
    fix us p vs rp f
    assume a: "ps = us @ p # vs" "evict_if (evictable self) (pool_replacer self) = Ok (Some p, rp)"
      "recency rp (us @ vs)" "lru_capacity rp = lru_capacity (pool_replacer self)"
      "map_of (page_table self) p = Some f" "strong (heap self ! f) = 1"
    have "p \<notin> set (us @ vs)" using lru.tracks_bound [OF ps(1)] a(1) by auto
    then have "set (us @ vs) \<subseteq> fst ` set (page_table self) - {p}" using ps(2) a(1) by auto
    with a show thesis using some by blast
  qed (use none in blast)
qed

lemma evict_page_spec:
  assumes inv: "pool_inv L self" and run: "evict_page flush self = (r, self')"
  shows "pool_inv L self' \<and> keeps L self self' \<and>
    (r = Ok () \<longrightarrow> Suc (length (page_table self')) = length (page_table self) \<and>
       (\<exists>p. \<forall>q. map_of (page_table self') q = (if q = p then None else map_of (page_table self) q))) \<and>
    (r \<noteq> Ok () \<longrightarrow> page_table self' = page_table self) \<and> (calm flush \<longrightarrow> returns r)"
proof (cases rule: tracking_evict [OF inv])
  case 1
  then show ?thesis using inv run by (auto simp: evict_page_def)
next
  case (2 p f rp ps)
  let ?s = "self\<lparr>pool_replacer := rp\<rparr>"
  have sub: "set ps \<subseteq> fst ` set (page_table self)" using 2(5) by blast
  note rs = replacer_step [OF inv 2(4) sub 2(6)]
  obtain r1 s1 where s1: "flush_page flush p ?s = (r1, s1)" by fastforce
  note fp = flush_page_spec [OF rs(1) s1]
  have t1: "page_table s1 = page_table self" "pool_replacer s1 = rp"
    and strong1: "strong (heap s1 ! f) = 1"
    using fp 2(3) by (simp_all add: same_shape_def)
  have keep1: "keeps L self s1" using keeps_trans [OF rs(2)] fp by blast
  have unlatched: "\<not> write_latched (heap ?s ! g)" if "map_of (page_table ?s) p = Some g" for g
  proof -
    have "table_wf (page_table self) (heap self)" using inv by (simp add: pool_inv_def)
    from table_lookup(4) [OF this 2(2)] show ?thesis using that 2(2,3) by auto
  qed
  have ret: "calm flush \<longrightarrow> returns r1"
    using flush_page_returns [OF _ rs(1)] unlatched s1 by (metis fst_conv)
  show ?thesis
  proof (cases "r1 = Ok ()")
    case True
    have inv1: "pool_inv L s1" and clean: "\<not> node_is_dirty (node_at f s1)" using fp True 2(2) by auto
    have "self' = unmap p s1" "r = Ok ()" using run 2(1) s1 True by (auto simp: evict_page_def)
    moreover note um = unmap_spec [OF inv1 2(2) [folded t1(1)] strong1 clean 2(4) [folded t1(2)] 2(5) [folded t1(1)]]
    moreover have "keeps L self (unmap p s1)" by (rule keeps_trans [OF keep1 um(2)])
    ultimately show ?thesis by (auto simp: t1)
  next
    case False
    then have "r = r1 \<and> self' = s1" using run 2(1) s1 by (cases r1) (auto simp: evict_page_def)
    then show ?thesis using fp keep1 t1 ret False by simp
  qed
qed

lemma evict_page_heap:
  assumes inv: "pool_inv L self" and run: "evict_page flush self = (r, self')"
  shows "length (heap self') = length (heap self)"
proof (cases rule: tracking_evict [OF inv])
  case 1
  then show ?thesis using run by (auto simp: evict_page_def)
next
  case (2 p f rp ps)
  let ?s = "self\<lparr>pool_replacer := rp\<rparr>"
  obtain r1 s1 where s1: "flush_page flush p ?s = (r1, s1)" by fastforce
  have "set ps \<subseteq> fst ` set (page_table self)" using 2(5) by blast
  from replacer_step(1) [OF inv 2(4) this 2(6)] have "same_shape ?s s1"
    using flush_page_spec [OF _ s1] by blast
  then have "length (heap s1) = length (heap self)" by (simp add: same_shape_def)
  then show ?thesis using run 2(1) s1
    by (cases r1) (auto simp: evict_page_def unmap_def drop_frame_def split: option.splits)
qed

lemma make_room_spec:
  assumes inv: "pool_inv L self" and run: "make_room flush self = (r, self')"
  shows "pool_inv L self' \<and> keeps L self self' \<and>
    (\<forall>q. map_of (page_table self) q = None \<longrightarrow> map_of (page_table self') q = None) \<and>
    (r = Ok () \<and> 0 < pool_capacity self \<longrightarrow> length (page_table self') < pool_capacity self') \<and>
    (r = Ok () \<longrightarrow> 0 < pool_capacity self) \<and>
    (calm flush \<longrightarrow> returns r)"
proof (cases "length (page_table self) \<ge> pool_capacity self")
  case True
  then have ev: "evict_page flush self = (r, self')" using run by (simp add: make_room_def)
  note ep = evict_page_spec [OF inv ev]
  have "length (page_table self) \<le> pool_capacity self" using inv by (simp add: pool_inv_def tracking_def)
  moreover have "pool_capacity self' = pool_capacity self" using ep by (simp add: keeps_def)
  moreover have "map_of (page_table self') q = None" if "map_of (page_table self) q = None" for q
    using ep that by (cases "r = Ok ()") auto
  ultimately show ?thesis using ep by auto
next
  case False
  then show ?thesis using inv run by (auto simp: make_room_def)
qed

section \<open>Fetching and creating pages\<close>

lemma touch_cached:
  assumes "tracking self" "distinct (map fst (page_table self))" "p \<in> fst ` set (page_table self)"
  obtains rp where "touch p self = (Ok (), self\<lparr>pool_replacer := rp\<rparr>)" "tracking (self\<lparr>pool_replacer := rp\<rparr>)"
proof -
  obtain ps where ps: "recency (pool_replacer self) ps" "set ps \<subseteq> fst ` set (page_table self)"
    and cap: "lru_capacity (pool_replacer self) = pool_capacity self"
      "length (page_table self) \<le> pool_capacity self"
    using assms(1) by (auto simp: tracking_def)
  have d: "distinct ps" using lru.tracks_bound [OF ps(1)] by simp
  have room: "p \<in> set ps \<or> length ps < lru_capacity (pool_replacer self)"
  proof (rule disjCI)
    assume "\<not> length ps < lru_capacity (pool_replacer self)"
    then have ge: "length (page_table self) \<le> length ps" using cap by simp
    have "card (set ps) = length ps" using d by (simp add: distinct_card)
    moreover have "card (fst ` set (page_table self)) = length (page_table self)"
      using distinct_card [OF assms(2)] by simp
    ultimately have "set ps = fst ` set (page_table self)"
      using ge ps(2) by (intro card_seteq) auto
    with assms(3) show "p \<in> set ps" by simp
  qed
  obtain rp where rp: "record_access p (pool_replacer self) = Ok rp" "recency rp (p # removeAll p ps)"
      "lru_capacity rp = lru_capacity (pool_replacer self)"
    using lru.touch_Ok [OF ps(1) room] by blast
  have "set (p # removeAll p ps) \<subseteq> fst ` set (page_table self)" using ps(2) assms(3) by auto
  then have "tracking (self\<lparr>pool_replacer := rp\<rparr>)"
    using rp(2,3) cap unfolding tracking_def by (intro conjI exI [of _ "p # removeAll p ps"]) simp_all
  then show thesis using that rp(1) by (simp add: touch_def)
qed

lemma clone_spec:
  assumes inv: "pool_inv L self" and f: "map_of (page_table self) p = Some f"
  shows "pool_inv L (clone_frame f self)" "keeps L self (clone_frame f self)"
    "node_at g (clone_frame f self) = node_at g self"
    "strong (heap (clone_frame f self) ! f) = strong (heap self ! f) + 1"
    "page_table (clone_frame f self) = page_table self"
proof -
  have wf: "table_wf (page_table self) (heap self)" using inv by (simp add: pool_inv_def)
  note tl = table_lookup [OF wf f]
  show nd: "node_at g (clone_frame f self) = node_at g self" for g
    by (auto simp: node_at_def clone_frame_def nth_update_if)
  show "strong (heap (clone_frame f self) ! f) = strong (heap self ! f) + 1"
    using tl(2) by (simp add: clone_frame_def)
  show t: "page_table (clone_frame f self) = page_table self" by (simp add: clone_frame_def)
  have h: "heap (clone_frame f self) ! g =
      (if g = f then (heap self ! f)\<lparr>strong := strong (heap self ! f) + 1\<rparr> else heap self ! g)" for g
    using tl(2) by (simp add: clone_frame_def nth_update_if)
  have l: "length (heap (clone_frame f self)) = length (heap self)" by (simp add: clone_frame_def)
  have dv: "disk_view (clone_frame f self) = disk_view self"
    by (rule ext) (simp add: disk_view_def clone_frame_def)
  have "table_wf (page_table (clone_frame f self)) (heap (clone_frame f self))"
    using wf tl(3) unfolding t table_wf_def l h by fastforce
  moreover have "tracking (clone_frame f self)"
    using inv by (simp add: pool_inv_def tracking_def clone_frame_def)
  moreover have "strong (heap (clone_frame f self) ! g) = 1 \<Longrightarrow>
      (q, g) \<in> set (page_table self) \<Longrightarrow> strong (heap self ! g) = 1" for q g
    using tl(3) by (simp add: h split: if_splits)
  then have "contents_ok L (clone_frame f self)"
    using inv unfolding pool_inv_def contents_ok_def t nd dv by fastforce
  ultimately show "pool_inv L (clone_frame f self)" by (simp add: pool_inv_def)
  have "pool_view (clone_frame f self) q = pool_view self q" for q
    by (simp add: pool_view_def t nd dv split: option.split)
  then show "keeps L self (clone_frame f self)"
    by (simp add: keeps_def frame_kept_def t nd l h) (simp add: clone_frame_def)
qed

lemma install_spec:
  assumes inv: "pool_inv L self" and none: "map_of (page_table self) p = None"
    and room: "length (page_table self) < pool_capacity self"
    and n: "node_wf n" and p: "page_offset p" "p \<in> L \<Longrightarrow> disk_view self p = Some (disk_form n)"
  obtains t s where "touch p (install p n self) = (Ok (), t)" "s = clone_frame (length (heap self)) t"
    "pool_inv (insert p L) s" "keeps L self s" "map_of (page_table s) p = Some (length (heap self))"
    "node_at (length (heap self)) s = n" "heap s = heap self @ [\<lparr>frame_node = n, strong = 2, write_latched = False\<rparr>]"
    "pool_view s p = Some (disk_form n)" "pool_disk s = pool_disk self"
proof -
  let ?f = "length (heap self)" and ?i = "install p n self"
  have wf: "table_wf (page_table self) (heap self)" and tr: "tracking self" and c: "contents_ok L self"
    using inv by (simp_all add: pool_inv_def)
  have nk: "p \<notin> fst ` set (page_table self)" using none by (simp add: map_of_eq_None_iff)
  have t: "page_table ?i = page_table self @ [(p, ?f)]" by (simp add: install_def alist_update_new [OF nk])
  have hi: "heap ?i = heap self @ [\<lparr>frame_node = n, strong = 1, write_latched = False\<rparr>]" by (simp add: install_def)
  have "\<forall>g \<in> snd ` set (page_table self). g < ?f" using wf by (auto simp: table_wf_def)
  then have "distinct (map fst (page_table ?i))" "distinct (map snd (page_table ?i))"
    using wf nk by (auto simp: t table_wf_def)
  then have wfi: "table_wf (page_table ?i) (heap ?i)"
    using wf unfolding table_wf_def t hi by (auto simp: nth_append)
  have tri: "tracking ?i"
    using tr room unfolding tracking_def t by (auto simp: install_def)
  obtain rp where rp: "touch p ?i = (Ok (), ?i\<lparr>pool_replacer := rp\<rparr>)" "tracking (?i\<lparr>pool_replacer := rp\<rparr>)"
    by (rule touch_cached [OF tri]) (use wfi in \<open>auto simp: table_wf_def t\<close>)
  define s where "s = clone_frame ?f (?i\<lparr>pool_replacer := rp\<rparr>)"
  have hs: "heap s = heap self @ [\<lparr>frame_node = n, strong = 2, write_latched = False\<rparr>]"
    by (simp add: s_def clone_frame_def hi)
  have ts: "page_table s = page_table self @ [(p, ?f)]" using t by (simp add: s_def clone_frame_def)
  have ds: "pool_disk s = pool_disk self" "pool_capacity s = pool_capacity self"
    by (simp_all add: s_def clone_frame_def install_def)
  have dv: "disk_view s = disk_view self" by (rule ext) (simp add: disk_view_def ds)
  have nd: "node_at g s = (if g = ?f then n else node_at g self)" if "g \<le> ?f" for g
    using that by (auto simp: node_at_def hs nth_append)
  have old: "g < ?f" if "(q, g) \<in> set (page_table self)" for q g using that wf by (auto simp: table_wf_def)
  have "table_wf (page_table s) (heap s)"
    using wfi old unfolding table_wf_def ts t hs hi by (auto simp: nth_append)
  moreover have "tracking s" using rp(2) by (simp add: tracking_def s_def clone_frame_def)
  moreover have "contents_ok (insert p L) s"
    unfolding contents_ok_def
  proof (intro conjI ballI)
    show "page_offset q" if "q \<in> insert p L" for q using that p(1) c by (auto simp: contents_ok_def)
    show "fst ` set (page_table s) \<subseteq> insert p L" using c by (auto simp: ts contents_ok_def)
    show "q \<notin> fst ` set (page_table s) \<longrightarrow> (\<exists>n. disk_view s q = Some n \<and> node_wf n)" if "q \<in> insert p L" for q
      using that c by (auto simp: ts dv contents_ok_def)
    fix e assume e: "e \<in> set (page_table s)"
    obtain q g where qg: "e = (q, g)" by fastforce
    show "case e of (q, g) \<Rightarrow> node_wf (node_at g s) \<and> (strong (heap s ! g) = 1 \<and>
        \<not> node_is_dirty (node_at g s) \<longrightarrow> disk_view s q = Some (disk_form (node_at g s)))"
    proof (cases "g = ?f")
      case True
      then show ?thesis using n nd [of g] qg by (simp add: hs)
    next
      case False
      then have o: "(q, g) \<in> set (page_table self)" using e qg by (simp add: ts)
      then show ?thesis using c old [OF o] nd [of g] qg by (auto simp: contents_ok_def dv hs nth_append)
    qed
  qed
  ultimately have inv_s: "pool_inv (insert p L) s" by (simp add: pool_inv_def)
  have look: "map_of (page_table s) q = (if q = p then Some ?f else map_of (page_table self) q)" for q
    using none by (auto simp: ts map_add_def split: option.split)
  have nf: "node_at ?f s = n" using nd by simp
  have view: "pool_view s q = pool_view self q" if "q \<in> L" for q
  proof (cases "q = p")
    case True
    then show ?thesis using that p(2) none look [of p] nf by (simp add: pool_view_def)
  next
    case False
    show ?thesis
    proof (cases "map_of (page_table self) q")
      case None
      then show ?thesis using False look [of q] by (simp add: pool_view_def dv)
    next
      case (Some g)
      then have "g < ?f" using old map_of_SomeD by fastforce
      then show ?thesis using False look [of q] Some nd [of g] by (simp add: pool_view_def)
    qed
  qed
  have kept: "frame_kept self s g" if "g < ?f" for g
    using that nd [of g] look none by (auto simp: frame_kept_def hs nth_append)
  have "keeps L self s" using view kept ds by (simp add: keeps_def)
  moreover have "pool_view s p = Some (disk_form n)" using look [of p] nf by (simp add: pool_view_def)
  ultimately show thesis using that [OF rp(1) s_def inv_s] look [of p] nf hs ds by simp
qed

text \<open>The holder of \<open>f\<close> may let go: if nobody else holds it, the node is dirty or on disk.\<close>

definition settled :: "'w buffer_pool \<Rightarrow> page_id \<Rightarrow> frame_ref \<Rightarrow> bool" where
  "settled self p f \<longleftrightarrow> strong (heap self ! f) = 2 \<and> \<not> node_is_dirty (node_at f self) \<longrightarrow>
     disk_view self p = Some (disk_form (node_at f self))"

lemma stored_load:
  assumes "read_page p d = (Ok raw, d')"
  shows "decode raw = Ok n \<longleftrightarrow> disk.stored d p = Some n" "disk.stored d' = disk.stored d"
  using disk.load_stored [OF assms] by auto

lemma read_page_stored: "read_page p d = (r, d') \<Longrightarrow> disk.stored d' = disk.stored d"
  by (intro stored_eqI disk_page_eqI) (use read_page_frame in blast)

lemma pool_view_mapped: "map_of (page_table self) p = Some f \<Longrightarrow>
   pool_view self p = Some (disk_form (node_at f self))"
  by (simp add: pool_view_def)

lemma touch_spec:
  assumes inv: "pool_inv L self" and f: "map_of (page_table self) p = Some f"
  obtains rp where "touch p self = (Ok (), self\<lparr>pool_replacer := rp\<rparr>)" "pool_inv L (self\<lparr>pool_replacer := rp\<rparr>)"
    "keeps L self (self\<lparr>pool_replacer := rp\<rparr>)"
proof -
  have "p \<in> fst ` set (page_table self)" using map_of_SomeD [OF f] by force
  then obtain rp where rp: "touch p self = (Ok (), self\<lparr>pool_replacer := rp\<rparr>)" "tracking (self\<lparr>pool_replacer := rp\<rparr>)"
    using touch_cached [of self p] inv by (auto simp: pool_inv_def table_wf_def)
  moreover have "pool_inv L (self\<lparr>pool_replacer := rp\<rparr>)"
    using inv rp(2) by (simp add: pool_inv_def contents_ok_def disk_view_def)
  moreover have "keeps L self (self\<lparr>pool_replacer := rp\<rparr>)"
    by (simp add: keeps_def frame_kept_def pool_view_def disk_view_def split: option.split)
  ultimately show thesis using that by blast
qed

lemma fetch_cached:
  assumes inv: "pool_inv L self" and f: "map_of (page_table self) p = Some f"
  obtains self' where "fetch_page flush p self = (Ok f, self')" "pool_inv L self'" "keeps L self self'"
    "map_of (page_table self') p = Some f" "node_at f self' = node_at f self"
    "strong (heap self' ! f) = strong (heap self ! f) + 1" "settled self' p f"
    "pool_disk self' = pool_disk self"
proof -
  obtain rp where rp: "touch p self = (Ok (), self\<lparr>pool_replacer := rp\<rparr>)" "pool_inv L (self\<lparr>pool_replacer := rp\<rparr>)"
    "keeps L self (self\<lparr>pool_replacer := rp\<rparr>)"
    by (rule touch_spec [OF inv f])
  have f': "map_of (page_table (self\<lparr>pool_replacer := rp\<rparr>)) p = Some f" using f by simp
  note cl = clone_spec [OF rp(2) f']
  have dv: "disk_view (clone_frame f (self\<lparr>pool_replacer := rp\<rparr>)) = disk_view self"
    by (rule ext) (simp add: disk_view_def clone_frame_def)
  have "settled (clone_frame f (self\<lparr>pool_replacer := rp\<rparr>)) p f"
    using inv map_of_SomeD [OF f] cl(3,4)
    by (auto simp: settled_def dv pool_inv_def contents_ok_def)
  then show thesis
    using that [of "clone_frame f (self\<lparr>pool_replacer := rp\<rparr>)"] f rp(1) cl keeps_trans [OF rp(3) cl(2)]
    by (simp add: fetch_page_def) (simp add: clone_frame_def)
qed

lemma fetch_page_spec:
  assumes inv: "pool_inv L self" and pL: "p \<in> L" and run: "fetch_page flush p self = (r, self')"
  shows "pool_inv L self' \<and> keeps L self self' \<and> (calm flush \<longrightarrow> returns r) \<and>
    (\<forall>f. r = Ok f \<longrightarrow> map_of (page_table self') p = Some f \<and> 2 \<le> strong (heap self' ! f) \<and> settled self' p f)"
proof (cases "map_of (page_table self) p")
  case (Some f)
  have "1 \<le> strong (heap self ! f)"
    using inv table_lookup(3) [OF _ Some] by (auto simp: pool_inv_def)
  moreover obtain s where "fetch_page flush p self = (Ok f, s)" "pool_inv L s" "keeps L self s"
    "map_of (page_table s) p = Some f" "strong (heap s ! f) = strong (heap self ! f) + 1" "settled s p f"
    by (rule fetch_cached [OF inv Some])
  ultimately show ?thesis using run by simp
next
  case None
  obtain r1 s1 where s1: "make_room flush self = (r1, s1)" by fastforce
  note mr = make_room_spec [OF inv s1]
  have step1: "fetch_page flush p self = then_do (r1, s1) (\<lambda>_ self.
       then_do (on_disk (read_page p) self) (\<lambda>raw_page self.
       then_do (decode raw_page, self) (\<lambda>node self.
         let f = length (heap self)
         in then_do (touch p (install p node self)) (\<lambda>_ self. (Ok f, clone_frame f self)))))"
    using None s1 by (simp add: fetch_page_def)
  show ?thesis
  proof (cases "r1 = Ok ()")
    case False
    then have "(\<forall>f. r \<noteq> Ok f) \<and> self' = s1 \<and> (returns r1 \<longrightarrow> returns r)"
      using run unfolding step1 by (cases r1) auto
    with mr show ?thesis by blast
  next
    case True
    have inv1: "pool_inv L s1" and none1: "map_of (page_table s1) p = None"
      and room: "length (page_table s1) < pool_capacity s1" and k1: "keeps L self s1"
      using mr None True by auto
    obtain r2 d where d: "read_page p (pool_disk s1) = (r2, d)" by fastforce
    let ?s2 = "s1\<lparr>pool_disk := d\<rparr>"
    have od: "on_disk (read_page p) s1 = (r2, ?s2)" using d by (simp add: on_disk_def)
    have st: "disk.stored d = disk.stored (pool_disk s1)" by (rule read_page_stored [OF d])
    have ds: "pool_inv L ?s2 \<and> keeps L s1 ?s2 \<and> same_shape s1 ?s2"
      by (rule disk_step [OF inv1]) (simp add: st)
    have k2: "keeps L self ?s2" using keeps_trans [OF k1] ds by blast
    show ?thesis
    proof (cases "\<exists>raw. r2 = Ok raw")
      case False
      then have "(\<forall>f. r \<noteq> Ok f) \<and> self' = ?s2 \<and> (returns r2 \<longrightarrow> returns r)"
        using run True unfolding step1 by (cases r2) (auto simp: od)
      then show ?thesis using ds k2 read_page_returns [of p "pool_disk s1"] d by auto
    next
      case ok: True
      then obtain raw where raw: "r2 = Ok raw" by blast
      have "p \<notin> fst ` set (page_table ?s2)" using none1 by (simp add: map_of_eq_None_iff)
      then obtain m where m: "disk_view ?s2 p = Some m" "node_wf m"
        using ds pL by (auto simp: pool_inv_def contents_ok_def)
      then obtain n where n: "disk.stored d p = Some n" "m = disk_form n" by (auto simp: disk_view_def)
      have dec: "decode raw = Ok n" using stored_load(1) [OF d [unfolded raw]] st n(1) by simp
      have okn: "node_wf n" using m(2) n(2) by simp
      have po: "page_offset p" using inv pL by (simp add: pool_inv_def contents_ok_def)
      have pre: "pool_inv L ?s2" "map_of (page_table ?s2) p = None" "length (page_table ?s2) < pool_capacity ?s2"
        using ds none1 room by simp_all
      have dvp: "disk_view ?s2 p = Some (disk_form n)" using m(1) n(2) by simp
      obtain t s where s: "touch p (install p n ?s2) = (Ok (), t)" "s = clone_frame (length (heap ?s2)) t"
          "pool_inv (insert p L) s" "keeps L ?s2 s" "map_of (page_table s) p = Some (length (heap ?s2))"
          "node_at (length (heap ?s2)) s = n"
          "heap s = heap ?s2 @ [\<lparr>frame_node = n, strong = 2, write_latched = False\<rparr>]" "pool_disk s = pool_disk ?s2"
        by (rule install_spec [OF pre okn po], rule dvp, rule that)
      have res: "r = Ok (length (heap s1))" "self' = s"
        using run True raw unfolding step1 by (simp_all add: od dec s(1,2) Let_def)
      have "insert p L = L" using pL by blast
      moreover have "disk_view s p = Some (disk_form n)" using m(1) n(2) s(8) by (simp add: disk_view_def)
      ultimately show ?thesis using s k2 keeps_trans [OF k2 s(4)] by (auto simp: res settled_def)
    qed
  qed
qed

section \<open>The holder of a frame\<close>

text \<open>Overwriting the cell of a cached page: the holder's writes, latching, letting go.\<close>

definition put_cell :: "frame_ref \<Rightarrow> frame_cell \<Rightarrow> 'w buffer_pool \<Rightarrow> 'w buffer_pool" where
  "put_cell f c self = self\<lparr>heap := (heap self)[f := c]\<rparr>"

lemma put_cell_eqs:
  "set_node f n self = put_cell f ((heap self ! f)\<lparr>frame_node := n\<rparr>) self"
  "set_latch f b self = put_cell f ((heap self ! f)\<lparr>write_latched := b\<rparr>) self"
  "drop_frame f self = put_cell f ((heap self ! f)\<lparr>strong := strong (heap self ! f) - 1\<rparr>) self"
  by (simp_all add: put_cell_def set_node_def set_latch_def drop_frame_def)

lemma put_cell_fields [simp]:
  "page_table (put_cell f c self) = page_table self" "pool_replacer (put_cell f c self) = pool_replacer self"
  "pool_capacity (put_cell f c self) = pool_capacity self" "pool_disk (put_cell f c self) = pool_disk self"
  "pool_flusher (put_cell f c self) = pool_flusher self" "length (heap (put_cell f c self)) = length (heap self)"
  "put_cell f c (put_cell f c' self) = put_cell f c self"
  by (simp_all add: put_cell_def)

lemma put_cell_nth: "f < length (heap self) \<Longrightarrow>
   heap (put_cell f c self) ! g = (if g = f then c else heap self ! g)"
  by (simp add: put_cell_def nth_update_if)

definition cell_ok :: "'w buffer_pool \<Rightarrow> page_id \<Rightarrow> frame_cell \<Rightarrow> bool" where
  "cell_ok self p c \<longleftrightarrow> 1 \<le> strong c \<and> (write_latched c \<longrightarrow> 2 \<le> strong c) \<and> node_wf (frame_node c) \<and>
     (strong c = 1 \<and> \<not> node_is_dirty (frame_node c) \<longrightarrow> disk_view self p = Some (disk_form (frame_node c)))"

lemma put_cell_spec:
  assumes inv: "pool_inv L self" and f: "map_of (page_table self) p = Some f" and c: "cell_ok self p c"
  shows "pool_inv L (put_cell f c self)"
    "pool_view (put_cell f c self) q = (if q = p then Some (disk_form (frame_node c)) else pool_view self q)"
proof -
  let ?s = "put_cell f c self"
  have wf: "table_wf (page_table self) (heap self)" and ct: "contents_ok L self" using inv by (simp_all add: pool_inv_def)
  note tl = table_lookup [OF wf f]
  have h: "heap ?s ! g = (if g = f then c else heap self ! g)" for g by (rule put_cell_nth [OF tl(2)])
  have nd: "node_at g ?s = (if g = f then frame_node c else node_at g self)" for g by (simp add: node_at_def h)
  have dv: "disk_view ?s = disk_view self" by (rule ext) (simp add: disk_view_def)
  have only: "q = p" if "(q, f) \<in> set (page_table self)" for q
    using table_inj [OF wf _ f] that table_entries [OF wf] by blast
  have "g < length (heap ?s) \<and> 1 \<le> strong (heap ?s ! g) \<and>
      (write_latched (heap ?s ! g) \<longrightarrow> 2 \<le> strong (heap ?s ! g))" if "(q, g) \<in> set (page_table self)" for q g
  proof (cases "g = f")
    case True
    then show ?thesis using c tl(2) by (simp add: h cell_ok_def)
  next
    case False
    then show ?thesis using wf that by (auto simp: h table_wf_def)
  qed
  then have "table_wf (page_table ?s) (heap ?s)" using wf by (auto simp: table_wf_def)
  moreover have "tracking ?s" using inv by (simp add: pool_inv_def tracking_def)
  moreover have "contents_ok L ?s" unfolding contents_ok_def
  proof (intro conjI ballI)
    fix e assume e: "e \<in> set (page_table ?s)"
    obtain q g where qg: "e = (q, g)" by fastforce
    show "case e of (q, g) \<Rightarrow> node_wf (node_at g ?s) \<and> (strong (heap ?s ! g) = 1 \<and>
        \<not> node_is_dirty (node_at g ?s) \<longrightarrow> disk_view ?s q = Some (disk_form (node_at g ?s)))"
    proof (cases "g = f")
      case True
      then show ?thesis using e qg only c by (auto simp: nd h dv cell_ok_def)
    next
      case False
      then show ?thesis using e qg ct by (auto simp: nd h dv contents_ok_def)
    qed
  qed (use ct dv in \<open>auto simp: contents_ok_def\<close>)
  ultimately show "pool_inv L ?s" by (simp add: pool_inv_def)
  show "pool_view ?s q = (if q = p then Some (disk_form (frame_node c)) else pool_view self q)"
  proof (cases "map_of (page_table self) q")
    case None
    then show ?thesis using f by (auto simp: pool_view_def dv)
  next
    case (Some g)
    show ?thesis
    proof (cases "q = p")
      case True
      then show ?thesis using f by (simp add: pool_view_def nd)
    next
      case False
      then have "g \<noteq> f" using table_inj [OF wf Some] f by blast
      then show ?thesis using Some False by (simp add: pool_view_def nd)
    qed
  qed
qed

section \<open>New pages\<close>

text \<open>The allocator is ahead of every page in use.\<close>

definition alloc_ok :: "page_id set \<Rightarrow> 'w buffer_pool \<Rightarrow> bool" where
  "alloc_ok L self \<longleftrightarrow> page_offset (next_free_offset (header (pool_disk self))) \<and>
     (\<forall>p \<in> L. unat p < unat (next_free_offset (header (pool_disk self))))"

lemma flush_page_header: "flush_page flush p self = (r, self') \<Longrightarrow> header (pool_disk self') = header (pool_disk self)"
proof -
  assume run: "flush_page flush p self = (r, self')"
  show ?thesis
  proof (cases "\<exists>f. map_of (page_table self) p = Some f \<and> \<not> write_latched (heap self ! f)")
    case False
    then show ?thesis using run by (auto simp: flush_page_def split: option.splits)
  next
    case True
    then obtain f where f: "map_of (page_table self) p = Some f" "\<not> write_latched (heap self ! f)" by blast
    show ?thesis
      by (rule flush_page_cases [OF f run]) (use write_page_any in \<open>auto split: if_splits\<close>)
  qed
qed

lemma unmap_header: "pool_disk (unmap p self) = pool_disk self"
  by (simp add: unmap_def drop_frame_def split: option.split)

lemma make_room_header:
  assumes "make_room flush self = (r, self')" shows "header (pool_disk self') = header (pool_disk self)"
proof (cases "length (page_table self) \<ge> pool_capacity self")
  case False
  then show ?thesis using assms by (simp add: make_room_def)
next
  case True
  then have ev: "evict_page flush self = (r, self')" using assms by (simp add: make_room_def)
  show ?thesis
  proof (cases "\<exists>p rp. evict_if (evictable self) (pool_replacer self) = Ok (Some p, rp)")
    case False
    then show ?thesis using ev by (auto simp: evict_page_def split: result.splits option.splits)
  next
    case True
    then obtain p rp where e: "evict_if (evictable self) (pool_replacer self) = Ok (Some p, rp)" by blast
    obtain r1 s1 where s1: "flush_page flush p (self\<lparr>pool_replacer := rp\<rparr>) = (r1, s1)" by fastforce
    have "header (pool_disk s1) = header (pool_disk self)" using flush_page_header [OF s1] by simp
    then show ?thesis using ev e s1 by (cases r1) (auto simp: evict_page_def unmap_header)
  qed
qed

lemma fetch_page_header:
  assumes "fetch_page flush p self = (r, self')" shows "header (pool_disk self') = header (pool_disk self)"
proof (cases "map_of (page_table self) p")
  case (Some f)
  then show ?thesis using assms by (auto simp: fetch_page_def touch_def clone_frame_def split: result.splits)
next
  case None
  obtain r1 s1 where s1: "make_room flush self = (r1, s1)" by fastforce
  obtain r2 d where d: "read_page p (pool_disk s1) = (r2, d)" by fastforce
  have h: "header d = header (pool_disk self)" "header (pool_disk s1) = header (pool_disk self)"
    using read_page_frame [OF d] make_room_header [OF s1] by simp_all
  show ?thesis
  proof (cases "r1 = Ok () \<and> (\<exists>raw n. r2 = Ok raw \<and> decode raw = Ok n)")
    case False
    then show ?thesis using assms None s1 d h
      by (cases r1; cases r2; cases "decode (case r2 of Ok x \<Rightarrow> x | _ \<Rightarrow> [])") (auto simp: fetch_page_def on_disk_def)
  next
    case True
    then show ?thesis using assms None s1 d h
      by (auto simp: fetch_page_def on_disk_def Let_def touch_def clone_frame_def install_def split: result.splits)
  qed
qed

lemma new_empty_fits: "node_fits (new_empty pid b)"
  by (simp add: new_empty_def leaf_fits_def leaf_bytes_def slot_records_def leaf_default_def
      inner_fits_def inner_bytes_def internal_default_def slot_entries_def size_consts)

lemma new_empty_wf: "node_wf (new_empty pid b)"
  by (simp add: new_empty_def leaf_wf_def slots_wf_def slot_records_def leaf_default_def
      inner_wf_def internal_default_def slot_entries_def)

lemma allocate_stored: "allocate_page d = (r, d') \<Longrightarrow> disk.stored d' = disk.stored d"
  by (intro stored_eqI disk_page_eqI) (auto simp: allocate_page_def Let_def split: if_splits)

lemma new_page_spec:
  assumes inv: "pool_inv L self" and al: "alloc_ok L self" and run: "new_page flush is_leaf self = (r, self')"
  shows "(\<forall>pid f. r = Ok (pid, f) \<longrightarrow> pid \<notin> L \<and> page_offset pid \<and> pool_inv (insert pid L) self' \<and>
      alloc_ok (insert pid L) self' \<and> keeps L self self' \<and> map_of (page_table self') pid = Some f \<and>
      node_at f self' = new_empty pid is_leaf \<and> strong (heap self' ! f) = 2 \<and> \<not> write_latched (heap self' ! f) \<and>
      length (heap self) \<le> f) \<and>
    ((\<forall>x. r \<noteq> Ok x) \<longrightarrow> pool_inv L self' \<and> alloc_ok L self' \<and> keeps L self self') \<and>
    (calm flush \<longrightarrow> returns r \<or> r = Panic ArithmeticOverflow)"
proof -
  obtain r1 s1 where s1: "make_room flush self = (r1, s1)" by fastforce
  note mr = make_room_spec [OF inv s1]
  have hd1: "header (pool_disk s1) = header (pool_disk self)" by (rule make_room_header [OF s1])
  then have al1: "alloc_ok L s1" using al by (simp add: alloc_ok_def)
  have step1: "new_page flush is_leaf self = then_do (r1, s1) (\<lambda>_ self.
     then_do (on_disk allocate_page self) (\<lambda>pid self.
       let node = new_empty pid is_leaf; f = length (heap self)
       in then_do (touch pid (install pid node self)) (\<lambda>_ self. (Ok (pid, f), clone_frame f self))))"
    by (simp add: new_page_def s1)
  show ?thesis
  proof (cases "r1 = Ok ()")
    case False
    then have "(\<forall>x. r \<noteq> Ok x) \<and> self' = s1 \<and> (returns r1 \<longrightarrow> returns r)"
      using run unfolding step1 by (cases r1) auto
    with mr al1 show ?thesis by blast
  next
    case True
    have inv1: "pool_inv L s1" and room: "length (page_table s1) < pool_capacity s1" and k1: "keeps L self s1"
      using mr True by auto
    obtain r2 d where d: "allocate_page (pool_disk s1) = (r2, d)" by fastforce
    let ?s2 = "s1\<lparr>pool_disk := d\<rparr>"
    have od: "on_disk allocate_page s1 = (r2, ?s2)" using d by (simp add: on_disk_def)
    have st: "disk.stored d = disk.stored (pool_disk s1)" by (rule allocate_stored [OF d])
    have ds: "pool_inv L ?s2 \<and> keeps L s1 ?s2 \<and> same_shape s1 ?s2"
      by (rule disk_step [OF inv1]) (simp add: st)
    have k2: "keeps L self ?s2" using keeps_trans [OF k1] ds by blast
    show ?thesis
    proof (cases "\<exists>pid. r2 = Ok pid")
      case False
      then have "(\<forall>x. r \<noteq> Ok x) \<and> self' = ?s2 \<and> r = Panic ArithmeticOverflow \<and> d = pool_disk s1"
        using run True d unfolding step1 by (auto simp: od allocate_page_def Let_def split: if_splits)
      then show ?thesis using ds k2 al1 by (simp add: alloc_ok_def)
    next
      case ok: True
      then obtain pid where pid: "r2 = Ok pid" by blast
      have a: "pid = next_free_offset (header (pool_disk self))" "unat pid + PAGE_SIZE < 2 ^ 64"
        "next_free_offset (header d) = pid + word_of_nat PAGE_SIZE"
        using d [unfolded pid allocate_page_eq] hd1 by auto
      have nxt: "unat (next_free_offset (header d)) = unat pid + PAGE_SIZE"
        using unat_next_page [OF a(2)] a(3) by simp
      have po: "page_offset pid" and fresh: "pid \<notin> L" and below: "\<forall>p \<in> L. unat p < unat pid"
        using al a(1) by (auto simp: alloc_ok_def)
      have keysL: "fst ` set (page_table s1) \<subseteq> L" using inv1 by (simp add: pool_inv_def contents_ok_def)
      have none: "map_of (page_table ?s2) pid = None"
        using fresh keysL by (auto simp: map_of_eq_None_iff)
      have pre: "pool_inv L ?s2" "length (page_table ?s2) < pool_capacity ?s2" using ds room by simp_all
      let ?n = "new_empty pid is_leaf" and ?f = "length (heap ?s2)"
      obtain t s where s: "touch pid (install pid ?n ?s2) = (Ok (), t)" "s = clone_frame ?f t"
          "pool_inv (insert pid L) s" "keeps L ?s2 s" "map_of (page_table s) pid = Some ?f"
          "node_at ?f s = ?n" "heap s = heap ?s2 @ [\<lparr>frame_node = ?n, strong = 2, write_latched = False\<rparr>]"
          "pool_disk s = pool_disk ?s2"
        by (rule install_spec [OF pre(1) none pre(2) new_empty_wf po], use fresh in blast, rule that)
      have res: "r = Ok (pid, ?f)" "self' = s"
        using run True pid unfolding step1 by (simp_all add: od s(1,2) Let_def)
      have "page_offset (next_free_offset (header d))" using po nxt by (simp add: page_offset_def)
      then have "alloc_ok (insert pid L) s"
        using below nxt s(8) by (auto simp: alloc_ok_def size_consts)
      moreover have "length (heap self) \<le> ?f"
      proof -
        have "length (heap s1) = length (heap self)"
        proof (cases "length (page_table self) \<ge> pool_capacity self")
          case True
          then have "evict_page flush self = (r1, s1)" using s1 by (simp add: make_room_def)
          then show ?thesis by (rule evict_page_heap [OF inv])
        qed (use s1 in \<open>simp add: make_room_def\<close>)
        then show ?thesis by simp
      qed
      moreover have "keeps L self s" by (rule keeps_trans [OF k2 s(4)])
      ultimately show ?thesis using s(3,5,6,7) fresh po unfolding res by simp
    qed
  qed
qed

end
