(* ===== verification/Pool_Props.thy ===== *)
theory Pool_Props
  imports Pool_Spec
begin

text \<open>
  The buffer pool as a cache that clients cannot see: any sequence of calls, with any device
  failures, leaves every page as it was; frames that are held stay where they are; a full flush
  survives a crash; and no page reaches the disk before its log records.
\<close>

section \<open>Sequences of calls\<close>

datatype pool_call = Fetch page_id | NewPage bool | Flush page_id | FlushAll

primrec pool_call_run :: "'w flush_fn \<Rightarrow> pool_call \<Rightarrow> 'w buffer_pool \<Rightarrow> unit result \<times> 'w buffer_pool" where
  "pool_call_run flush (Fetch p) self = (case fetch_page flush p self of (r, s) \<Rightarrow> (and_then r (\<lambda>_. Ok ()), s))"
| "pool_call_run flush (NewPage b) self = (case new_page flush b self of (r, s) \<Rightarrow> (and_then r (\<lambda>_. Ok ()), s))"
| "pool_call_run flush (Flush p) self = flush_page flush p self"
| "pool_call_run flush FlushAll self = flush_all_pages flush self"

text \<open>The calls one after the other, whatever each of them answers.\<close>

primrec pool_calls :: "'w flush_fn \<Rightarrow> pool_call list \<Rightarrow> 'w buffer_pool \<Rightarrow> 'w buffer_pool" where
  "pool_calls flush [] self = self"
| "pool_calls flush (c # cs) self = pool_calls flush cs (snd (pool_call_run flush c self))"

lemma flush_pages_header: "flush_pages flush ps self = (r, self') \<Longrightarrow> header (pool_disk self') = header (pool_disk self)"
proof (induction ps arbitrary: self)
  case (Cons p ps)
  obtain r1 s1 where s1: "flush_page flush p self = (r1, s1)" by fastforce
  note h = flush_page_header [OF s1]
  show ?case
  proof (cases "r1 = Ok ()")
    case True
    then have "flush_pages flush ps s1 = (r, self')" using Cons.prems s1 by simp
    from Cons.IH [OF this] h show ?thesis by simp
  next
    case False
    then have "self' = s1" using Cons.prems s1 by (cases r1) auto
    with h show ?thesis by simp
  qed
qed simp

lemma flush_all_header:
  assumes "flush_all_pages flush self = (r, self')" shows "header (pool_disk self') = header (pool_disk self)"
proof -
  obtain r1 s1 where s1: "flush_pages flush (map fst (page_table self)) self = (r1, s1)" by fastforce
  obtain r2 d where d: "save_header (pool_disk s1) = (r2, d)" by fastforce
  have "header d = header (pool_disk s1)" using save_header_any [OF d] by blast
  then show ?thesis using assms s1 d flush_pages_header [OF s1]
    by (cases r1; cases r2) (auto simp: flush_all_pages_def on_disk_def)
qed

lemma pool_call_spec:
  assumes inv: "pool_inv L self" and al: "alloc_ok L self" and tgt: "\<And>p. c = Fetch p \<Longrightarrow> p \<in> L"
  obtains L' where "L \<subseteq> L'" "pool_inv L' (snd (pool_call_run flush c self))"
    "alloc_ok L' (snd (pool_call_run flush c self))" "keeps L self (snd (pool_call_run flush c self))"
proof (cases c)
  case (Fetch p)
  obtain r s where s: "fetch_page flush p self = (r, s)" by fastforce
  have "alloc_ok L s" using fetch_page_header [OF s] al by (simp add: alloc_ok_def)
  then show thesis using that [of L] fetch_page_spec [OF inv tgt [OF Fetch] s] s Fetch by simp
next
  case (NewPage b)
  obtain r s where s: "new_page flush b self = (r, s)" by fastforce
  note np = new_page_spec [OF inv al s]
  show thesis
  proof (cases "\<exists>x. r = Ok x")
    case True
    then obtain pid f where "r = Ok (pid, f)" by auto
    then show thesis using that [of "insert pid L"] np s NewPage by auto
  next
    case False
    then show thesis using that [of L] np s NewPage by auto
  qed
next
  case (Flush p)
  obtain r s where s: "flush_page flush p self = (r, s)" by fastforce
  have "alloc_ok L s" using flush_page_header [OF s] al by (simp add: alloc_ok_def)
  then show thesis using that [of L] flush_page_spec [OF inv s] s Flush by simp
next
  case FlushAll
  obtain r s where s: "flush_all_pages flush self = (r, s)" by fastforce
  have "alloc_ok L s" using flush_all_header [OF s] al by (simp add: alloc_ok_def)
  then show thesis using that [of L] flush_all_pages_spec [OF inv s] s FlushAll by simp
qed

lemma keeps_subset: "keeps L' a b \<Longrightarrow> L \<subseteq> L' \<Longrightarrow> keeps L a b"
  by (auto simp: keeps_def)

lemma pool_calls_spec:
  assumes "pool_inv L self" "alloc_ok L self" "\<forall>p. Fetch p \<in> set cs \<longrightarrow> p \<in> L"
  obtains L' where "L \<subseteq> L'" "pool_inv L' (pool_calls flush cs self)"
    "alloc_ok L' (pool_calls flush cs self)" "keeps L self (pool_calls flush cs self)"
  using assms
proof (induction cs arbitrary: L self thesis)
  case (Cons c cs)
  let ?s = "snd (pool_call_run flush c self)"
  have "\<And>p. c = Fetch p \<Longrightarrow> p \<in> L" using Cons.prems(4) by auto
  from pool_call_spec [OF Cons.prems(2,3) this, where flush = flush] obtain L1 where
    L1: "L \<subseteq> L1" "pool_inv L1 ?s" "alloc_ok L1 ?s" "keeps L self ?s" by blast
  have "\<forall>p. Fetch p \<in> set cs \<longrightarrow> p \<in> L1" using Cons.prems(4) L1(1) by auto
  from Cons.IH [OF _ L1(2,3) this] obtain L' where
    L': "L1 \<subseteq> L'" "pool_inv L' (pool_calls flush cs ?s)" "alloc_ok L' (pool_calls flush cs ?s)"
      "keeps L1 ?s (pool_calls flush cs ?s)" by blast
  have "keeps L self (pool_calls flush cs ?s)"
    by (rule keeps_trans [OF L1(4) keeps_subset [OF L'(4) L1(1)]])
  then show ?case using Cons.prems(1) [of L'] L1(1) L'(1-3) by auto
qed (use keeps_refl in auto)

section \<open>The interface to the tree and to recovery\<close>

text \<open>
  A cache in front of a store of nodes: loading a page gives its node and changes no page.
\<close>

locale node_cache =
  fixes inv :: "page_id set \<Rightarrow> 's \<Rightarrow> bool"
    and view :: "'s \<Rightarrow> page_id \<Rightarrow> btree_node option"
    and load :: "page_id \<Rightarrow> 's \<Rightarrow> 'f result \<times> 's"
    and node :: "'f \<Rightarrow> 's \<Rightarrow> btree_node"
  assumes load_inv: "inv L s \<Longrightarrow> p \<in> L \<Longrightarrow> load p s = (r, s') \<Longrightarrow> inv L s'"
    and load_view: "inv L s \<Longrightarrow> p \<in> L \<Longrightarrow> load p s = (r, s') \<Longrightarrow> q \<in> L \<Longrightarrow> view s' q = view s q"
    and load_node: "inv L s \<Longrightarrow> p \<in> L \<Longrightarrow> load p s = (Ok f, s') \<Longrightarrow> view s p = Some (disk_form (node f s'))"
begin

primrec load_all :: "page_id list \<Rightarrow> 's \<Rightarrow> 's" where
  "load_all [] s = s"
| "load_all (p # ps) s = load_all ps (snd (load p s))"

lemma load_all_view:
  "inv L s \<Longrightarrow> set ps \<subseteq> L \<Longrightarrow> inv L (load_all ps s) \<and> (\<forall>q \<in> L. view (load_all ps s) q = view s q)"
proof (induction ps arbitrary: s)
  case (Cons p ps)
  obtain r s1 where s1: "load p s = (r, s1)" by fastforce
  have "p \<in> L" "set ps \<subseteq> L" using Cons.prems(2) by auto
  with Cons s1 load_inv [OF Cons.prems(1) \<open>p \<in> L\<close> s1] load_view [OF Cons.prems(1) \<open>p \<in> L\<close> s1]
  show ?case by simp
qed simp

text \<open>Loading a page again, after any other loads, gives the same node up to its bookkeeping.\<close>

lemma load_again:
  assumes "inv L s" "p \<in> L" "set ps \<subseteq> L" "load p s = (Ok f, s1)" "load p (load_all ps s1) = (Ok g, s2)"
  shows "disk_form (node g s2) = disk_form (node f s1)"
proof -
  have i: "inv L s1" by (rule load_inv [OF assms(1,2,4)])
  note la = load_all_view [OF i assms(3)]
  have "view (load_all ps s1) p = Some (disk_form (node g s2))"
    using load_node [OF _ assms(2,5)] la by blast
  moreover have "view (load_all ps s1) p = Some (disk_form (node f s1))"
    using la assms(2) load_view [OF assms(1,2,4,2)] load_node [OF assms(1,2,4)] by simp
  ultimately show ?thesis by simp
qed

end

interpretation pool: node_cache pool_inv pool_view "fetch_page flush" node_at
proof unfold_locales
  fix L p s r s' assume a: "pool_inv L s" "p \<in> L" "fetch_page flush p s = (r, s')"
  note fp = fetch_page_spec [OF a]
  show "pool_inv L s'" using fp by blast
  fix q assume "q \<in> L"
  then show "pool_view s' q = pool_view s q" using fp by (simp add: keeps_def)
next
  fix L p s f s' assume a: "pool_inv L s" "p \<in> L" "fetch_page flush p s = (Ok f, s')"
  note fp = fetch_page_spec [OF a]
  then have "pool_view s' p = Some (disk_form (node_at f s'))" by (simp add: pool_view_mapped)
  then show "pool_view s p = Some (disk_form (node_at f s'))" using fp a(2) by (simp add: keeps_def)
qed

section \<open>Write-ahead logging\<close>

text \<open>
  The bytes of a file, where the bytes behind its end are the zeroes that they read as once the file
  has been extended. A page has changed on disk when a byte of it has: by its first write too,
  and by a write that failed half way.
\<close>

definition file_byte :: "u8 list \<Rightarrow> nat \<Rightarrow> u8" where
  "file_byte c i = (if i < length c then c ! i else 0)"

definition page_changed :: "'w buffer_pool \<Rightarrow> 'w buffer_pool \<Rightarrow> page_id \<Rightarrow> bool" where
  "page_changed self self' p \<longleftrightarrow> page_offset p \<and>
     (\<exists>i < PAGE_SIZE. file_byte (content (db_file (pool_disk self'))) (unat p + i) \<noteq>
        file_byte (content (db_file (pool_disk self))) (unat p + i))"

lemma file_byte_pwrite:
  "i < off \<or> off + length bs \<le> i \<Longrightarrow> file_byte (pwrite c off bs) i = file_byte c i"
  by (auto simp: file_byte_def pwrite_def nth_append)

lemma page_changed_content:
  "content (db_file (pool_disk self')) = content (db_file (pool_disk self)) \<Longrightarrow> \<not> page_changed self self' p"
  by (simp add: page_changed_def)

lemma page_changed_pwrite:
  assumes "content (db_file (pool_disk self')) = pwrite (content (db_file (pool_disk self))) off bs"
    and "unat p + PAGE_SIZE \<le> off \<or> off + length bs \<le> unat p"
  shows "\<not> page_changed self self' p"
  using assms file_byte_pwrite by (fastforce simp: page_changed_def)

lemma page_changed_write:
  assumes "write_page p img (pool_disk self) = (r, pool_disk self')" "length img = PAGE_SIZE" "page_offset p"
    and "page_changed self self' q"
  shows "q = p"
proof (rule ccontr)
  assume ne: "q \<noteq> p"
  obtain n where c: "content (db_file (pool_disk self')) = pwrite (content (db_file (pool_disk self))) (unat p) (take n img)"
    using write_page_any [OF assms(1)] by blast
  have "unat q + PAGE_SIZE \<le> unat p \<or> unat p + PAGE_SIZE \<le> unat q"
    using page_offset_disjoint [OF _ assms(3) ne] assms(4) by (simp add: page_changed_def)
  moreover have "length (take n img) \<le> PAGE_SIZE" using assms(2) by simp
  ultimately have "\<not> page_changed self self' q"
    by (intro page_changed_pwrite [OF c]) linarith
  with assms(4) show False by simp
qed

lemma page_changed_header:
  assumes "save_header (pool_disk self) = (r, pool_disk self')"
  shows "\<not> page_changed self self' q"
proof
  assume ch: "page_changed self self' q"
  obtain n where c: "content (db_file (pool_disk self')) =
      pwrite (content (db_file (pool_disk self))) 0 (take n (header_to_bytes (header (pool_disk self))))"
    using save_header_any [OF assms] by blast
  have "PAGE_SIZE \<le> unat q" using ch by (simp add: page_changed_def page_offset_def)
  then have "\<not> page_changed self self' q"
    by (intro page_changed_pwrite [OF c]) (auto simp: size_consts)
  with ch show False by simp
qed

definition logged :: "('w \<Rightarrow> bool) \<Rightarrow> ('w \<Rightarrow> u64 \<Rightarrow> bool) \<Rightarrow> 'w buffer_pool \<Rightarrow> 'w buffer_pool \<Rightarrow> bool" where
  "logged winv wstable self self' \<longleftrightarrow>
     (\<forall>w. pool_flusher self = Some w \<and> winv w \<longrightarrow>
       (\<exists>w'. pool_flusher self' = Some w' \<and> winv w' \<and> (\<forall>m. wstable w m \<longrightarrow> wstable w' m) \<and>
         (\<forall>p. page_changed self self' p \<longrightarrow>
           (\<exists>f. map_of (page_table self) p = Some f \<and> wstable w' (get_last_lsn (node_at f self))))))"

lemma logged_quiet:
  assumes "pool_flusher self' = pool_flusher self" "\<And>p. \<not> page_changed self self' p"
  shows "logged winv wstable self self'"
  using assms by (auto simp: logged_def)

lemma get_last_lsn_kept:
  "n' \<in> {n, clear_dirty n} \<Longrightarrow> get_last_lsn n' = get_last_lsn n" by auto

lemma logged_trans:
  assumes ab: "logged winv wstable a b" and bc: "logged winv wstable b c"
    and table: "\<And>p f. map_of (page_table b) p = Some f \<Longrightarrow> map_of (page_table a) p = Some f \<and>
      node_at f b \<in> {node_at f a, clear_dirty (node_at f a)}"
  shows "logged winv wstable a c"
  unfolding logged_def
proof (intro allI impI)
  fix w assume w: "pool_flusher a = Some w \<and> winv w"
  then obtain w1 where w1: "pool_flusher b = Some w1" "winv w1" "\<forall>m. wstable w m \<longrightarrow> wstable w1 m"
    and p1: "\<And>p. page_changed a b p \<Longrightarrow> \<exists>f. map_of (page_table a) p = Some f \<and> wstable w1 (get_last_lsn (node_at f a))"
    using ab unfolding logged_def by blast
  then obtain w2 where w2: "pool_flusher c = Some w2" "winv w2" "\<forall>m. wstable w1 m \<longrightarrow> wstable w2 m"
    and p2: "\<And>p. page_changed b c p \<Longrightarrow> \<exists>f. map_of (page_table b) p = Some f \<and> wstable w2 (get_last_lsn (node_at f b))"
    using bc unfolding logged_def by blast
  have "\<exists>f. map_of (page_table a) p = Some f \<and> wstable w2 (get_last_lsn (node_at f a))"
    if ch: "page_changed a c p" for p
  proof (cases "page_changed a b p")
    case True
    then show ?thesis using p1 w2(3) by blast
  next
    case False
    then have "page_changed b c p" using ch by (auto simp: page_changed_def)
    then obtain f where f: "map_of (page_table b) p = Some f" "wstable w2 (get_last_lsn (node_at f b))"
      using p2 by blast
    then show ?thesis using table [OF f(1)] get_last_lsn_kept by metis
  qed
  then show "\<exists>w'. pool_flusher c = Some w' \<and> winv w' \<and> (\<forall>m. wstable w m \<longrightarrow> wstable w' m) \<and>
      (\<forall>p. page_changed a c p \<longrightarrow>
        (\<exists>f. map_of (page_table a) p = Some f \<and> wstable w' (get_last_lsn (node_at f a))))"
    using w1 w2 by blast
qed

context wal_flusher begin

lemma flush_wal_logged:
  assumes "flush_wal flush lsn self = (r, self')" "pool_flusher self = Some w" "inv w"
  obtains w' where "pool_flusher self' = Some w'" "inv w'" "\<And>m. stable w m \<Longrightarrow> stable w' m"
    "r = Ok () \<Longrightarrow> stable w' lsn"
proof -
  obtain w' where w': "flush lsn w = (r, w')" "self' = self\<lparr>pool_flusher := Some w'\<rparr>"
    using assms(1,2) by (auto simp: flush_wal_def split: prod.splits)
  show thesis
    by (rule that [of w']) (use w' flush_inv [OF assms(3)] flush_keeps [OF assms(3)] flush_stable [OF assms(3)] in auto)
qed

lemma flush_page_logged:
  assumes pinv: "pool_inv L self" and run: "flush_page flush p self = (r, self')"
  shows "logged inv stable self self'"
proof (cases "\<exists>f. map_of (page_table self) p = Some f \<and> \<not> write_latched (heap self ! f)")
  case False
  then have "self' = self" using run by (auto simp: flush_page_def split: option.splits if_splits)
  then show ?thesis by (simp add: logged_quiet page_changed_content)
next
  case True
  then obtain f where f: "map_of (page_table self) p = Some f" "\<not> write_latched (heap self ! f)" by blast
  have c: "contents_ok L self" using pinv by (simp add: pool_inv_def)
  have ok: "node_wf (node_at f self)" and po: "page_offset p"
    using c map_of_SomeD [OF f(1)] by (force simp: contents_ok_def)+
  show ?thesis
  proof (cases rule: flush_page_cases [OF f run])
    case 1
    then show ?thesis by (simp add: logged_quiet page_changed_content)
  next
    case (2 w0 r1)
    have pd: "pool_disk self' = pool_disk self" unfolding 2(3) by simp
    show ?thesis unfolding logged_def
    proof (intro allI impI)
      fix w assume w: "pool_flusher self = Some w \<and> inv w"
      then obtain w' where "pool_flusher self' = Some w'" "inv w'" "\<And>m. stable w m \<Longrightarrow> stable w' m"
        using flush_wal_logged [OF 2(4)] by blast
      then show "\<exists>w'. pool_flusher self' = Some w' \<and> inv w' \<and> (\<forall>m. stable w m \<longrightarrow> stable w' m) \<and>
        (\<forall>p. page_changed self self' p \<longrightarrow>
          (\<exists>f. map_of (page_table self) p = Some f \<and> stable w' (get_last_lsn (node_at f self))))"
        by (auto simp: page_changed_content pd)
    qed
  next
    case (3 w0 img r2 d)
    have fl: "pool_flusher self' = w0" and pd: "pool_disk self' = d" unfolding 3(6) by simp_all
    have len: "length img = PAGE_SIZE"
      using codec.enc_Ok [OF _ _ 3(3)] encode_Ok_fits [OF ok 3(3)] ok by (simp add: page_new_def)
    have other: "q = p" if ch: "page_changed self self' q" for q
      by (rule page_changed_write [OF _ len po ch]) (use 3(4) pd in simp)
    show ?thesis unfolding logged_def
    proof (intro allI impI)
      fix w assume w: "pool_flusher self = Some w \<and> inv w"
      obtain w' where "pool_flusher (self\<lparr>pool_flusher := w0\<rparr>) = Some w'" "inv w'" "\<And>m. stable w m \<Longrightarrow> stable w' m"
          "stable w' (get_last_lsn (node_at f self))"
        using flush_wal_logged [OF 3(2)] w by blast
      then show "\<exists>w'. pool_flusher self' = Some w' \<and> inv w' \<and> (\<forall>m. stable w m \<longrightarrow> stable w' m) \<and>
        (\<forall>p. page_changed self self' p \<longrightarrow>
          (\<exists>f. map_of (page_table self) p = Some f \<and> stable w' (get_last_lsn (node_at f self))))"
        using fl f(1) other by auto
    qed
  qed
qed

lemma flush_pages_logged:
  "pool_inv L self \<Longrightarrow> flush_pages flush ps self = (r, self') \<Longrightarrow> logged inv stable self self'"
proof (induction ps arbitrary: self)
  case (Cons p ps)
  obtain r1 s1 where s1: "flush_page flush p self = (r1, s1)" by fastforce
  note fp = flush_page_spec [OF Cons.prems(1) s1] and lg = flush_page_logged [OF Cons.prems(1) s1]
  show ?case
  proof (cases "r1 = Ok ()")
    case True
    then have rest: "flush_pages flush ps s1 = (r, self')" using Cons.prems(2) s1 by simp
    have "logged inv stable s1 self'" using Cons.IH [OF _ rest] fp by blast
    from logged_trans [OF lg this] show ?thesis using fp by (simp add: same_shape_def)
  next
    case False
    then have "self' = s1" using Cons.prems(2) s1 by (cases r1) auto
    with lg show ?thesis by simp
  qed
qed (simp add: logged_quiet page_changed_content)

lemma flush_all_logged:
  assumes "pool_inv L self" "flush_all_pages flush self = (r, self')"
  shows "logged inv stable self self'"
proof -
  obtain r1 s1 where s1: "flush_pages flush (map fst (page_table self)) self = (r1, s1)" by fastforce
  note lg = flush_pages_logged [OF assms(1) s1] and fp = flush_pages_spec [OF assms(1) s1]
  show ?thesis
  proof (cases "r1 = Ok ()")
    case True
    obtain r2 d where d: "save_header (pool_disk s1) = (r2, d)" by fastforce
    have res: "self' = s1\<lparr>pool_disk := d\<rparr>"
      using assms(2) s1 True d by (cases r2) (auto simp: flush_all_pages_def on_disk_def)
    have "logged inv stable s1 self'"
      by (intro logged_quiet page_changed_header [of _ r2]) (use d res in simp_all)
    from logged_trans [OF lg this] show ?thesis using fp by (simp add: same_shape_def)
  next
    case False
    then have "self' = s1" using assms(2) s1 by (cases r1) (auto simp: flush_all_pages_def)
    with lg show ?thesis by simp
  qed
qed

lemma make_room_logged:
  assumes "pool_inv L self" "make_room flush self = (r, self')"
  shows "logged inv stable self self'"
proof (cases "length (page_table self) \<ge> pool_capacity self")
  case False
  then show ?thesis using assms(2) by (simp add: make_room_def logged_quiet page_changed_content)
next
  case True
  then have ev: "evict_page flush self = (r, self')" using assms(2) by (simp add: make_room_def)
  show ?thesis
  proof (cases rule: tracking_evict [OF assms(1)])
    case 1
    then show ?thesis using ev by (auto simp: evict_page_def logged_quiet page_changed_content)
  next
    case (2 p f rp ps)
    let ?s = "self\<lparr>pool_replacer := rp\<rparr>"
    have "set ps \<subseteq> fst ` set (page_table self)" using 2(5) by blast
    note rs = replacer_step [OF assms(1) 2(4) this 2(6)]
    obtain r1 s1 where s1: "flush_page flush p ?s = (r1, s1)" by fastforce
    note lg = flush_page_logged [OF rs(1) s1] and fp = flush_page_spec [OF rs(1) s1]
    have "logged inv stable self s1" using lg by (simp add: logged_def page_changed_def)
    moreover have "logged inv stable s1 (unmap p s1)"
      by (rule logged_quiet) (simp_all add: page_changed_content unmap_header unmap_def drop_frame_def split: option.split)
    ultimately have "logged inv stable self (unmap p s1)"
      by (rule logged_trans) (use fp in \<open>simp add: same_shape_def\<close>)
    with \<open>logged inv stable self s1\<close> show ?thesis
      using ev 2(1) s1 by (cases r1) (auto simp: evict_page_def)
  qed
qed

end

lemma fetch_page_rest:
  assumes "fetch_page flush p self = (r, self')"
  obtains s1 where "s1 = self \<or> (\<exists>r1. make_room flush self = (r1, s1))"
    "pool_flusher self' = pool_flusher s1"
    "content (db_file (pool_disk self')) = content (db_file (pool_disk s1))"
proof (cases "map_of (page_table self) p")
  case (Some f)
  have "pool_flusher self' = pool_flusher self" "pool_disk self' = pool_disk self"
    using assms Some by (auto simp: fetch_page_def touch_def clone_frame_def split: result.splits)
  then show thesis using that [of self] by simp
next
  case None
  obtain r1 s1 where s1: "make_room flush self = (r1, s1)" by fastforce
  obtain r2 d where d: "read_page p (pool_disk s1) = (r2, d)" by fastforce
  have dp: "content (db_file d) = content (db_file (pool_disk s1))" using read_page_frame [OF d] by blast
  have "pool_flusher self' = pool_flusher s1 \<and> (pool_disk self' = pool_disk s1 \<or> pool_disk self' = d)"
    using assms None s1 d
    by (cases r1; cases r2; cases "decode (case r2 of Ok x \<Rightarrow> x | _ \<Rightarrow> [])")
      (auto simp: fetch_page_def on_disk_def Let_def touch_def clone_frame_def install_def split: result.splits)
  then show thesis using that [of s1] s1 dp by auto
qed

lemma new_page_rest:
  assumes "new_page flush b self = (r, self')"
  obtains s1 where "\<exists>r1. make_room flush self = (r1, s1)"
    "pool_flusher self' = pool_flusher s1"
    "content (db_file (pool_disk self')) = content (db_file (pool_disk s1))"
proof -
  obtain r1 s1 where s1: "make_room flush self = (r1, s1)" by fastforce
  obtain r2 d where d: "allocate_page (pool_disk s1) = (r2, d)" by fastforce
  have dp: "content (db_file d) = content (db_file (pool_disk s1))"
    using d by (auto simp: allocate_page_def Let_def split: if_splits)
  have "pool_flusher self' = pool_flusher s1 \<and> (pool_disk self' = pool_disk s1 \<or> pool_disk self' = d)"
    using assms s1 d
    by (cases r1; cases r2)
      (auto simp: new_page_def on_disk_def Let_def touch_def clone_frame_def install_def split: result.splits)
  then show thesis using that [of s1] s1 dp by auto
qed

context wal_flusher begin

lemma call_logged:
  assumes "pool_inv L self" "pool_call_run flush c self = (r, self')"
  shows "logged inv stable self self'"
proof -
  have via: "logged inv stable self self'"
    if "s1 = self \<or> (\<exists>r1. make_room flush self = (r1, s1))" "pool_flusher self' = pool_flusher s1"
      "content (db_file (pool_disk self')) = content (db_file (pool_disk s1))" for s1
  proof -
    have "logged inv stable self s1" using that(1) make_room_logged [OF assms(1)] by (auto simp: logged_quiet page_changed_content)
    then show ?thesis using that(2,3) by (simp add: logged_def page_changed_def)
  qed
  show ?thesis
  proof (cases c)
    case (Fetch p)
    then obtain r1 where "fetch_page flush p self = (r1, self')" using assms(2) by (auto split: prod.splits)
    then show ?thesis by (rule fetch_page_rest) (rule via)
  next
    case (NewPage b)
    then obtain r1 where "new_page flush b self = (r1, self')" using assms(2) by (auto split: prod.splits)
    then show ?thesis by (rule new_page_rest) (rule via [OF disjI2])
  next
    case (Flush p)
    then show ?thesis using flush_page_logged [OF assms(1)] assms(2) by simp
  next
    case FlushAll
    then show ?thesis using flush_all_logged [OF assms(1)] assms(2) by simp
  qed
qed

end

text \<open>
  Of any flusher at all, that it was asked: \<open>answered flush w lsn w'\<close> says that somewhere between its
  states \<open>w\<close> and \<open>w'\<close>, which calls of the flusher lead through, \<open>flush_upto(lsn)\<close> answered \<open>Ok\<close>.
\<close>

inductive flusher_runs :: "'w flush_fn \<Rightarrow> 'w \<Rightarrow> 'w \<Rightarrow> bool" for flush where
  start: "flusher_runs flush w w"
| call: "flusher_runs flush w w1 \<Longrightarrow> flush lsn w1 = (r, w2) \<Longrightarrow> flusher_runs flush w w2"

definition answered :: "'w flush_fn \<Rightarrow> 'w \<Rightarrow> u64 \<Rightarrow> 'w \<Rightarrow> bool" where
  "answered flush w lsn w' \<longleftrightarrow>
     (\<exists>w1 w2. flusher_runs flush w w1 \<and> flush lsn w1 = (Ok (), w2) \<and> flusher_runs flush w2 w')"

interpretation any_flusher: wal_flusher flush "flusher_runs flush w0" "\<lambda>w' lsn. answered flush w0 lsn w'"
  by unfold_locales (auto simp: answered_def intro: flusher_runs.intros)

context wal_flusher begin

lemma runs_stable:
  "flusher_runs flush w w' \<Longrightarrow> inv w \<Longrightarrow> inv w' \<and> (\<forall>m. stable w m \<longrightarrow> stable w' m)"
  by (induction rule: flusher_runs.induct) (auto dest: flush_inv flush_keeps)

lemma answered_stable: "answered flush w lsn w' \<Longrightarrow> inv w \<Longrightarrow> stable w' lsn"
  unfolding answered_def using runs_stable flush_inv flush_stable by blast

end

section \<open>Properties\<close>

lemma pool_inv_new:
  "pool_inv {} (pool_new d c w)"
  "alloc_ok {} (pool_new d c w) \<longleftrightarrow> page_offset (next_free_offset (header d))"
proof -
  have f: "pool_replacer (pool_new d c w) = lru_new c" "page_table (pool_new d c w) = []"
    "pool_capacity (pool_new d c w) = c" by (simp_all add: pool_new_def)
  have "lru_capacity (lru_new c) = c" by (simp add: lru_new_def)
  then have "tracking (pool_new d c w)"
    unfolding tracking_def f by (intro conjI exI [of _ "[]"]) (simp_all add: recency_new)
  then show "pool_inv {} (pool_new d c w)"
    by (simp add: pool_inv_def table_wf_def contents_ok_def) (simp add: pool_new_def)
  show "alloc_ok {} (pool_new d c w) \<longleftrightarrow> page_offset (next_free_offset (header d))"
    by (simp add: alloc_ok_def pool_new_def)
qed

lemma flush_upto_calm: "calm flush_upto"
  unfolding calm_def
proof (intro allI)
  fix lsn w
  show "returns (fst (flush_upto lsn w))"
    by (cases rule: sync_all_cases [of "wal_file w"]) (auto simp: flush_upto_def on_wal_file_def)
qed

text \<open>A pool of two frames over a new file and a new log, and its first page.\<close>

definition sample_pool :: "wal_manager buffer_pool" where
  "sample_pool = pool_new fresh_disk 2 (Some (fresh_wal True))"

definition sample_page_pool :: "wal_manager buffer_pool" where
  "sample_page_pool = snd (new_page flush_upto True sample_pool)"

lemma sample_page:
  shows "new_page flush_upto True sample_pool = (Ok (4096, 0), sample_page_pool)"
    and "pool_inv {4096} sample_page_pool" "alloc_ok {4096} sample_page_pool"
    and "map_of (page_table sample_page_pool) 4096 = Some 0" "node_at 0 sample_page_pool = new_empty 4096 True"
    and "strong (heap sample_page_pool ! 0) = 2" "\<not> write_latched (heap sample_page_pool ! 0)"
    and "0 < length (heap sample_page_pool)" "pool_flusher sample_page_pool = Some (fresh_wal True)"
proof -
  have a: "allocate_page fresh_disk = (Ok 4096, fresh_disk\<lparr>header := file_header_default\<lparr>next_free_offset := 8192\<rparr>\<rparr>)"
    by (simp add: allocate_page_def fresh_disk_def file_header_default_def size_consts)
  show run: "new_page flush_upto True sample_pool = (Ok (4096, 0), sample_page_pool)"
    and "pool_flusher sample_page_pool = Some (fresh_wal True)"
    by (simp_all add: sample_page_pool_def sample_pool_def new_page_def make_room_def pool_new_def on_disk_def a
        touch_def install_def record_access_def lru_new_def new_slot_def insert_head_def set_prev_def set_next_def
        index_def clone_frame_def Let_def)
  have "page_offset (next_free_offset (header fresh_disk))"
    by (simp add: page_offset_def fresh_disk_def file_header_default_def size_consts)
  then have i: "alloc_ok {} sample_pool" "pool_inv {} sample_pool"
    by (simp_all add: sample_pool_def pool_inv_new)
  from new_page_spec [OF i(2,1) run] have sp: "pool_inv {4096} sample_page_pool" "alloc_ok {4096} sample_page_pool"
    "map_of (page_table sample_page_pool) 4096 = Some 0" "node_at 0 sample_page_pool = new_empty 4096 True"
    "strong (heap sample_page_pool ! 0) = 2" "\<not> write_latched (heap sample_page_pool ! 0)" by auto
  then show "pool_inv {4096} sample_page_pool" "alloc_ok {4096} sample_page_pool"
    "map_of (page_table sample_page_pool) 4096 = Some 0" "node_at 0 sample_page_pool = new_empty 4096 True"
    "strong (heap sample_page_pool ! 0) = 2" "\<not> write_latched (heap sample_page_pool ! 0)" by auto
  show "0 < length (heap sample_page_pool)" using table_lookup(2) sp(1,3) by (auto simp: pool_inv_def)
qed

text \<open>
  \<open>fetch_page\<close> is transparent, on a hit and on a miss with eviction. If it answers a frame, the
  frame is the cell that the page table has for the page, it is pinned by the caller, and its node
  is the node of the page: the cached one, or what the disk holds. Whatever it answers, no page
  changes its contents, the invariant holds, and the pool stays within its capacity; and it
  comes back: no assertion of the replacer fails and no latch is waited for.
\<close>

theorem fetch_page_transparent:
  assumes "pool_inv L self" "p \<in> L" "fetch_page flush p self = (r, self')"
  shows "(r = Ok f \<longrightarrow> map_of (page_table self') p = Some f \<and> 2 \<le> strong (heap self' ! f) \<and>
      pool_view self p = Some (disk_form (node_at f self'))) \<and>
    (pool_inv L self' \<and> (\<forall>q \<in> L. pool_view self' q = pool_view self q)) \<and>
    (length (page_table self') \<le> pool_capacity self) \<and>
    (calm flush \<longrightarrow> r \<noteq> Hang \<and> (\<forall>x. r \<noteq> Panic x))"
proof -
  note fp = fetch_page_spec [OF assms]
  have r1: "r = Ok f \<longrightarrow> map_of (page_table self') p = Some f \<and> 2 \<le> strong (heap self' ! f) \<and>
      pool_view self p = Some (disk_form (node_at f self'))"
    using fp pool.load_node [OF assms(1,2)] assms(3) by blast
  have r2: "pool_inv L self' \<and> (\<forall>q \<in> L. pool_view self' q = pool_view self q)"
    and r3: "length (page_table self') \<le> pool_capacity self"
    using fp by (simp_all add: keeps_def pool_inv_def tracking_def)
  have r4: "calm flush \<longrightarrow> r \<noteq> Hang \<and> (\<forall>x. r \<noteq> Panic x)" using fp by auto
  show ?thesis by (rule conjI [OF r1 conjI [OF r2 conjI [OF r3 r4]]])
qed

theorem fetch_page_transparent_witness:
  "\<exists>self'. fetch_page flush_upto 4096 sample_page_pool = (Ok 0, self') \<and>
     pool_view sample_page_pool 4096 = Some (disk_form (node_at 0 self'))"
proof -
  obtain self' where run: "fetch_page flush_upto 4096 sample_page_pool = (Ok 0, self')"
    by (rule fetch_cached [OF sample_page(2,4)])
  have "(4096::page_id) \<in> {4096}" by simp
  from fetch_page_transparent [OF sample_page(2) this run, of 0] run show ?thesis by blast
qed

text \<open>
  C5:
  Over any sequence of fetches, new pages, flushes and full flushes, whatever each of them
  answers and whichever device calls fail, every page keeps its contents, every frame that
  somebody holds stays mapped to its page with its node (it is never evicted), and the table
  never outgrows the capacity.
\<close>

theorem pool_calls_transparent:
  assumes "pool_inv L self" "alloc_ok L self" "\<forall>p. Fetch p \<in> set cs \<longrightarrow> p \<in> L"
  shows "(\<forall>p \<in> L. pool_view (pool_calls flush cs self) p = pool_view self p) \<and>
    (f < length (heap self) \<and> 2 \<le> strong (heap self ! f) \<and> map_of (page_table self) p = Some f \<longrightarrow>
      map_of (page_table (pool_calls flush cs self)) p = Some f \<and>
      disk_form (node_at f (pool_calls flush cs self)) = disk_form (node_at f self)) \<and>
    (length (page_table (pool_calls flush cs self)) \<le> pool_capacity self)"
proof -
  obtain L' where L': "pool_inv L' (pool_calls flush cs self)" "keeps L self (pool_calls flush cs self)"
    by (rule pool_calls_spec [OF assms]) blast
  have r1: "\<forall>p \<in> L. pool_view (pool_calls flush cs self) p = pool_view self p"
    and r2: "length (page_table (pool_calls flush cs self)) \<le> pool_capacity self"
    using L' by (simp_all add: keeps_def pool_inv_def tracking_def)
  have r3: "f < length (heap self) \<and> 2 \<le> strong (heap self ! f) \<and> map_of (page_table self) p = Some f \<longrightarrow>
      map_of (page_table (pool_calls flush cs self)) p = Some f \<and>
      disk_form (node_at f (pool_calls flush cs self)) = disk_form (node_at f self)"
  proof
    assume f: "f < length (heap self) \<and> 2 \<le> strong (heap self ! f) \<and> map_of (page_table self) p = Some f"
    then have "frame_kept self (pool_calls flush cs self) f" using L'(2) by (simp add: keeps_def)
    with f show "map_of (page_table (pool_calls flush cs self)) p = Some f \<and>
        disk_form (node_at f (pool_calls flush cs self)) = disk_form (node_at f self)"
      by (auto simp: frame_kept_def)
  qed
  show ?thesis by (rule conjI [OF r1 conjI [OF r3 r2]])
qed

theorem pool_calls_transparent_witness:
  "map_of (page_table (pool_calls flush_upto [Fetch 4096, FlushAll, NewPage False, NewPage True, NewPage True]
      sample_page_pool)) 4096 = Some 0"
proof -
  let ?cs = "[Fetch 4096, FlushAll, NewPage False, NewPage True, NewPage True]"
  have "\<forall>p. Fetch p \<in> set ?cs \<longrightarrow> p \<in> {4096}" by simp
  from pool_calls_transparent [OF sample_page(2,3) this, of flush_upto 0 4096] sample_page show ?thesis by simp
qed

section \<open>Flushing to a healthy device\<close>

definition reliable :: "wal_manager buffer_pool \<Rightarrow> bool" where
  "reliable self \<longleftrightarrow> io_plan (db_file (pool_disk self)) = [] \<and>
     (\<forall>w. pool_flusher self = Some w \<longrightarrow> io_plan (wal_file w) = [])"

lemma write_page_reliable:
  assumes "io_plan (db_file d) = []" "unat p + length x < 2 ^ 63"
  shows "\<exists>d'. write_page p x d = (Ok (), d') \<and> io_plan (db_file d') = []"
  using assms by (simp add: write_page_def write_all_at_def offset_ok_def)

lemma flush_wal_reliable:
  assumes "reliable self"
  obtains w where "flush_wal flush_upto lsn self = (Ok (), self\<lparr>pool_flusher := w\<rparr>)"
    "reliable (self\<lparr>pool_flusher := w\<rparr>)"
proof (cases "pool_flusher self")
  case None
  then show thesis using that [of None] assms by (simp add: flush_wal_def reliable_def)
next
  case (Some w)
  then have p: "io_plan (wal_file w) = []" using assms by (simp add: reliable_def)
  have "fst (flush_upto lsn w) = Ok () \<and> io_plan (wal_file (snd (flush_upto lsn w))) = []"
    using p by (simp add: flush_upto_def on_wal_file_def sync_all_def)
  then show thesis
    using that [of "Some (snd (flush_upto lsn w))"] Some assms
    by (cases "flush_upto lsn w") (simp add: flush_wal_def reliable_def)
qed

lemma flush_page_reliable:
  assumes inv: "pool_inv L self" and rel: "reliable self" and p: "unat p + PAGE_SIZE < 2 ^ 63"
    and un: "\<And>f. map_of (page_table self) p = Some f \<Longrightarrow> \<not> write_latched (heap self ! f)"
    and fits: "\<And>f. map_of (page_table self) p = Some f \<Longrightarrow> node_fits (node_at f self)"
  shows "\<exists>self'. flush_page flush_upto p self = (Ok (), self') \<and> reliable self'"
proof (cases "map_of (page_table self) p")
  case None
  then show ?thesis using rel by (simp add: flush_page_def)
next
  case (Some f)
  have ok: "node_wf (node_at f self)"
    using inv map_of_SomeD [OF Some] by (auto simp: pool_inv_def contents_ok_def)
  show ?thesis
  proof (cases "node_is_dirty (node_at f self)")
    case False
    then show ?thesis using Some un rel by (simp add: flush_page_def)
  next
    case True
    obtain w where w: "flush_wal flush_upto (get_last_lsn (node_at f self)) self = (Ok (), self\<lparr>pool_flusher := w\<rparr>)"
      "reliable (self\<lparr>pool_flusher := w\<rparr>)" by (rule flush_wal_reliable [OF rel])
    obtain img where img: "encode (node_at f self) page_new = Ok img" and "length img = PAGE_SIZE"
      using codec.enc_dec [of "node_at f self" page_new] ok fits [OF Some] by (auto simp: page_new_def)
    then obtain d where d: "write_page p img (pool_disk self) = (Ok (), d)" "io_plan (db_file d) = []"
      using write_page_reliable [of "pool_disk self" p img] rel p by (auto simp: reliable_def)
    let ?s = "self\<lparr>pool_flusher := w, pool_disk := d\<rparr>"
    have "flush_page flush_upto p self = (Ok (), set_node f (clear_dirty (node_at f self)) ?s)"
      using Some un [OF Some] True w(1) img d(1) by (simp add: flush_page_def on_disk_def)
    moreover have "reliable (set_node f (clear_dirty (node_at f self)) ?s)"
      using w(2) d(2) by (simp add: reliable_def)
    ultimately show ?thesis by blast
  qed
qed

lemma decode_Leaf_tag:
  assumes "decode img = Ok (Leaf l)" shows "img \<noteq> [] \<and> img ! 0 = 1"
proof (cases img)
  case Nil
  then show ?thesis using assms by (simp add: decode_def read_u8_def index_def)
next
  case (Cons b bs)
  then have "read_u8 (cursor_new img) = Ok (b, advance 1 (cursor_new img))" by (simp add: run_simps)
  moreover have "decode_internal c \<noteq> Ok (Leaf l)" for c
    by (auto simp: decode_internal_def and_then_eq_Ok split: prod.splits)
  ultimately show ?thesis using assms Cons by (auto simp: decode_def split: if_splits)
qed

text \<open>The sample page, written by its holder.\<close>

lemma sample_write:
  obtains s1 s2 where "s1 = set_node 0 (mark_dirty 3 (new_empty 4096 True)) sample_page_pool"
    "flush_page flush_upto 4096 s1 = (Ok (), s2)" "pool_inv {4096} s1"
    "map_of (page_table s1) 4096 = Some 0" "node_at 0 s1 = mark_dirty 3 (new_empty 4096 True)"
    "\<not> write_latched (heap s1 ! 0)" "content (db_file (pool_disk s1)) = []" "pool_flusher s1 = Some (fresh_wal True)"
proof -
  let ?n = "new_empty 4096 True"
  define s1 where "s1 = set_node 0 (mark_dirty 3 ?n) sample_page_pool"
  note sp = sample_page
  have i1: "pool_inv {4096} s1"
    unfolding s1_def put_cell_eqs using new_empty_wf [of 4096 True] sp(6)
    by (intro put_cell_spec(1) [OF sp(2,4)]) (simp add: cell_ok_def)
  have d: "pool_disk sample_page_pool = fresh_disk\<lparr>header := file_header_default\<lparr>next_free_offset := 8192\<rparr>\<rparr>"
    by (simp add: sample_page_pool_def sample_pool_def new_page_def
        make_room_def pool_new_def on_disk_def allocate_page_def fresh_disk_def file_header_default_def new_file_def
        touch_def install_def record_access_def lru_new_def new_slot_def insert_head_def set_prev_def set_next_def
        index_def clone_frame_def Let_def size_consts)
  have f1: "map_of (page_table s1) 4096 = Some 0" "node_at 0 s1 = mark_dirty 3 ?n" "\<not> write_latched (heap s1 ! 0)"
    "content (db_file (pool_disk s1)) = []" "pool_flusher s1 = Some (fresh_wal True)" "reliable s1"
    using sp d by (simp_all add: s1_def node_at_set reliable_def fresh_disk_def new_file_def)
  obtain s2 where "flush_page flush_upto 4096 s1 = (Ok (), s2)"
    using flush_page_reliable [OF i1 f1(6), of 4096] f1(1,2,3) new_empty_fits by (auto simp: size_consts)
  from that [OF s1_def this i1 f1(1-5)] show thesis .
qed

text \<open>
  C8:
  Write-ahead logging, for a pool over any flusher. No call of the pool changes a byte of a page in
  the database file unless the page is cached and the flusher has answered \<open>Ok\<close>, during the
  call, for the \<open>last_lsn\<close> that the cached node had: a flusher that refuses that number keeps every
  byte of the page as it was, also when the page is written for the first time and when the write
  fails half way. With a flusher that keeps the contract of the trait, as the log manager with
  \<open>sync\<close> does, the log is durable up to that number when the call comes back.
\<close>

theorem wal_before_data:
  assumes "pool_inv L self" "pool_flusher self = Some w"
    and "pool_call_run flush c self = (r, self')" "page_changed self self' p"
  shows "\<exists>f w'. map_of (page_table self) p = Some f \<and> pool_flusher self' = Some w' \<and>
    answered flush w (get_last_lsn (node_at f self)) w' \<and>
    (\<forall>inv stable. wal_flusher flush inv stable \<and> inv w \<longrightarrow> stable w' (get_last_lsn (node_at f self)))"
proof -
  have lg: "logged (flusher_runs flush w) (\<lambda>w' lsn. answered flush w lsn w') self self'"
    by (rule any_flusher.call_logged [OF assms(1,3)])
  have "pool_flusher self = Some w \<and> flusher_runs flush w w" using assms(2) flusher_runs.start by simp
  from lg [unfolded logged_def, rule_format, OF this] assms(4) obtain f w' where
    fw: "map_of (page_table self) p = Some f" "pool_flusher self' = Some w'"
      "answered flush w (get_last_lsn (node_at f self)) w'" by blast
  have contract: "\<forall>inv stable. wal_flusher flush inv stable \<and> inv w \<longrightarrow> stable w' (get_last_lsn (node_at f self))"
  proof (intro allI impI)
    fix inv stable assume "wal_flusher flush inv stable \<and> inv w"
    then have c: "wal_flusher flush inv stable" "inv w" by simp_all
    show "stable w' (get_last_lsn (node_at f self))" by (rule wal_flusher.answered_stable [OF c(1) fw(3) c(2)])
  qed
  show ?thesis by (rule exI [of _ f], rule exI [of _ w']) (intro conjI fw contract)
qed

theorem wal_before_data_witness:
  "\<exists>self r self' w'. disk_page (pool_disk self) 4096 = None \<and>
     pool_call_run flush_upto (Flush 4096) (self :: wal_manager buffer_pool) = (r, self') \<and>
     page_changed self self' 4096 \<and> pool_flusher self' = Some w' \<and>
     answered flush_upto (fresh_wal True) 3 w' \<and> log_stable w' 3"
proof -
  obtain s1 s2 where s: "s1 = set_node 0 (mark_dirty 3 (new_empty 4096 True)) sample_page_pool"
    "flush_page flush_upto 4096 s1 = (Ok (), s2)" "pool_inv {4096} s1"
    "map_of (page_table s1) 4096 = Some 0" "node_at 0 s1 = mark_dirty 3 (new_empty 4096 True)"
    "\<not> write_latched (heap s1 ! 0)" "content (db_file (pool_disk s1)) = []" "pool_flusher s1 = Some (fresh_wal True)"
    by (rule sample_write)
  note i1 = s(3) and w1 = s(8) and f1 = s(4,6,5) and empty = s(7)
  have w0: "wal_inv (fresh_wal True)"
    using log_stable_synced [of "fresh_wal True" "[]"] by (simp add: wal_inv_def log_holds_def)
  have ch: "page_changed s1 s2 4096"
  proof (cases rule: flush_page_cases [OF f1(1,2) s(2)])
    case (3 w img r2 d)
    obtain img' where "encode (node_at 0 s1) page_new = Ok img'" "length img' = PAGE_SIZE"
        "decode img' = Ok (disk_form (node_at 0 s1))"
      using codec.enc_dec [of "node_at 0 s1" page_new] f1(3) new_empty_wf [of 4096 True] new_empty_fits [of 4096 True]
      by (auto simp: page_new_def)
    moreover obtain l where "disk_form (node_at 0 s1) = Leaf l" by (simp add: f1(3) new_empty_def)
    ultimately have img: "img ! 0 = 1" "length img = PAGE_SIZE" "img \<noteq> []"
      using 3(3) decode_Leaf_tag by auto
    have "content (db_file d) = pwrite [] 4096 img"
      using write_page_Ok [of 4096 img "pool_disk s1" d] 3(4,5) empty by simp
    then have "file_byte (content (db_file d)) (4096 + 0) = 1"
      using img by (simp add: file_byte_def pwrite_def nth_append size_consts)
    then show ?thesis using 3(5,6) empty
      by (auto simp: page_changed_def page_offset_def size_consts file_byte_def split: if_splits intro!: exI [of _ 0])
  qed (use f1 in auto)
  have run: "pool_call_run flush_upto (Flush 4096) s1 = (Ok (), s2)" using s(2) by simp
  from wal_before_data [OF i1 w1 run ch] f1(1,3) obtain w' where
    w': "pool_flusher s2 = Some w'" "answered flush_upto (fresh_wal True) 3 w'"
      "\<forall>inv stable. wal_flusher flush_upto inv stable \<and> inv (fresh_wal True) \<longrightarrow> stable w' 3" by auto
  have "log_stable w' 3" using w'(3) wal_manager.wal_flusher_axioms w0 by blast
  moreover have "disk_page (pool_disk s1) 4096 = None" by (simp add: disk_page_def page_at_def empty size_consts)
  ultimately show ?thesis using run ch w'(1,2) by blast
qed

end
