(* ===== verification/Pool_Client.thy ===== *)
theory Pool_Client
  imports Pool_Props
begin

text \<open>
  What a client of the buffer pool relies on when it works on frames under their latches: which
  latches are taken, what fetching does to other frames, and what letting go of a changed frame
  does to the view.
\<close>

section \<open>Latches\<close>

definition latches :: "'w buffer_pool \<Rightarrow> bool list" where
  "latches self = map write_latched (heap self)"

definition no_latch :: "'w buffer_pool \<Rightarrow> bool" where
  "no_latch self \<longleftrightarrow> True \<notin> set (latches self)"

lemma no_latch_nth: "no_latch self \<Longrightarrow> f < length (heap self) \<Longrightarrow> \<not> write_latched (heap self ! f)"
  by (auto simp: no_latch_def latches_def)

lemma same_shape_latches: "same_shape a b \<Longrightarrow> latches b = latches a"
  by (auto simp: same_shape_def latches_def intro: nth_equalityI)

lemma latches_fields [simp]:
  "latches (self\<lparr>pool_disk := d\<rparr>) = latches self" "latches (self\<lparr>pool_replacer := rp\<rparr>) = latches self"
  "latches (self\<lparr>pool_flusher := w\<rparr>) = latches self"
  "latches (self\<lparr>page_table := t\<rparr>) = latches self"
  "latches (install p n self) = latches self @ [False]"
  by (simp_all add: latches_def install_def)

lemma latches_clone [simp]: "latches (clone_frame f self) = latches self" "latches (drop_frame f self) = latches self"
  by (auto simp: latches_def clone_frame_def drop_frame_def nth_update_if intro!: nth_equalityI split: if_splits)

lemma latches_unmap [simp]: "latches (unmap p self) = latches self"
  by (simp add: unmap_def split: option.split)

lemma latches_touch: "touch p self = (r, self') \<Longrightarrow> latches self' = latches self"
  by (auto simp: touch_def split: result.splits)

lemma make_room_latches:
  assumes inv: "pool_inv L self" and run: "make_room flush self = (r, self')"
  shows "latches self' = latches self"
proof (cases "length (page_table self) \<ge> pool_capacity self")
  case False
  then show ?thesis using run by (simp add: make_room_def)
next
  case True
  then have ev: "evict_page flush self = (r, self')" using run by (simp add: make_room_def)
  show ?thesis
  proof (cases rule: tracking_evict [OF inv])
    case 1
    then show ?thesis using ev by (auto simp: evict_page_def)
  next
    case (2 p f rp ps)
    let ?s = "self\<lparr>pool_replacer := rp\<rparr>"
    have "set ps \<subseteq> fst ` set (page_table self)" using 2(5) by blast
    note rs = replacer_step [OF inv 2(4) this 2(6)]
    obtain r1 s1 where s1: "flush_page flush p ?s = (r1, s1)" by fastforce
    have "latches s1 = latches self"
      using flush_page_spec [OF rs(1) s1] same_shape_latches [of ?s s1] by simp
    then show ?thesis using ev 2(1) s1 by (cases r1) (auto simp: evict_page_def)
  qed
qed

lemma fetch_page_latches:
  assumes inv: "pool_inv L self" and run: "fetch_page flush p self = (r, self')"
  shows "latches self' \<in> {latches self, latches self @ [False]}"
proof (cases "map_of (page_table self) p")
  case (Some f)
  obtain r1 s1 where s1: "touch p self = (r1, s1)" by fastforce
  then show ?thesis using run Some latches_touch [OF s1] by (cases r1) (auto simp: fetch_page_def)
next
  case None
  obtain r1 s1 where s1: "make_room flush self = (r1, s1)" by fastforce
  obtain r2 d where d: "read_page p (pool_disk s1) = (r2, d)" by fastforce
  note l1 = make_room_latches [OF inv s1]
  show ?thesis
  proof (cases "r1 = Ok () \<and> (\<exists>raw n. r2 = Ok raw \<and> decode raw = Ok n)")
    case False
    then have "latches self' = latches self" using run None s1 d l1
      by (cases r1; cases r2; cases "decode (case r2 of Ok x \<Rightarrow> x | _ \<Rightarrow> [])") (auto simp: fetch_page_def on_disk_def)
    then show ?thesis by simp
  next
    case True
    then obtain raw n where ok: "r1 = Ok ()" "r2 = Ok raw" "decode raw = Ok n" by blast
    obtain r3 s3 where s3: "touch p (install p n (s1\<lparr>pool_disk := d\<rparr>)) = (r3, s3)" by fastforce
    show ?thesis using run None s1 d ok s3 l1 latches_touch [OF s3]
      by (cases r3) (auto simp: fetch_page_def on_disk_def Let_def)
  qed
qed

lemma fetch_no_latch:
  "pool_inv L self \<Longrightarrow> no_latch self \<Longrightarrow> fetch_page flush p self = (r, self') \<Longrightarrow> no_latch self'"
  using fetch_page_latches unfolding no_latch_def by fastforce

section \<open>Reference counts\<close>

lemma make_room_strong:
  assumes inv: "pool_inv L self" and run: "make_room flush self = (r, self')"
    and g: "map_of (page_table self') q = Some g"
  shows "map_of (page_table self) q = Some g \<and> strong (heap self' ! g) = strong (heap self ! g)"
proof (cases "length (page_table self) \<ge> pool_capacity self")
  case False
  then show ?thesis using run g by (simp add: make_room_def)
next
  case True
  then have ev: "evict_page flush self = (r, self')" using run by (simp add: make_room_def)
  show ?thesis
  proof (cases rule: tracking_evict [OF inv])
    case 1
    then show ?thesis using ev g by (auto simp: evict_page_def)
  next
    case (2 p f rp ps)
    let ?s = "self\<lparr>pool_replacer := rp\<rparr>"
    have "set ps \<subseteq> fst ` set (page_table self)" using 2(5) by blast
    note rs = replacer_step [OF inv 2(4) this 2(6)]
    obtain r1 s1 where s1: "flush_page flush p ?s = (r1, s1)" by fastforce
    have sh: "same_shape ?s s1" using flush_page_spec [OF rs(1) s1] by simp
    then have t1: "page_table s1 = page_table self" "strong (heap s1 ! h) = strong (heap self ! h)" for h
      by (simp_all add: same_shape_def)
    show ?thesis
    proof (cases "r1 = Ok ()")
      case False
      then have "self' = s1" using ev 2(1) s1 by (cases r1) (auto simp: evict_page_def)
      then show ?thesis using g t1 by simp
    next
      case True
      then have s': "self' = (drop_frame f s1)\<lparr>page_table := AList.delete p (page_table s1)\<rparr>"
        using ev 2(1,2) s1 t1(1) by (auto simp: evict_page_def unmap_def)
      have q: "q \<noteq> p" "map_of (page_table self) q = Some g"
        using g t1(1) unfolding s' by (simp_all add: map_of_delete split: if_splits)
      have "table_wf (page_table self) (heap self)" using inv by (simp add: pool_inv_def)
      from table_inj [OF this _ 2(2), of q] q have "f \<noteq> g" by auto
      then show ?thesis using q t1(2) unfolding s' by (simp add: drop_frame_def)
    qed
  qed
qed

lemma fetch_page_strong:
  assumes inv: "pool_inv L self" and run: "fetch_page flush p self = (r, self')"
    and g: "map_of (page_table self') q = Some g"
  shows "strong (heap self' ! g) =
    (if map_of (page_table self) q = Some g then strong (heap self ! g) else 1) + (if r = Ok g then 1 else 0)"
proof (cases "map_of (page_table self) p")
  case (Some f)
  obtain rp where rp: "touch p self = (Ok (), self\<lparr>pool_replacer := rp\<rparr>)"
    by (rule touch_spec [OF inv Some])
  have "f < length (heap self)" using inv table_lookup(2) [OF _ Some] by (simp add: pool_inv_def)
  moreover have "r = Ok f" "self' = clone_frame f (self\<lparr>pool_replacer := rp\<rparr>)"
    using run Some rp by (simp_all add: fetch_page_def)
  ultimately show ?thesis using g by (auto simp: clone_frame_def nth_update_if)
next
  case None
  obtain r1 s1 where s1: "make_room flush self = (r1, s1)" by fastforce
  obtain r2 d where d: "read_page p (pool_disk s1) = (r2, d)" by fastforce
  note ms = make_room_strong [OF inv s1, of q g]
  have inv1: "pool_inv L s1" using make_room_spec [OF inv s1] by simp
  show ?thesis
  proof (cases "r1 = Ok () \<and> (\<exists>raw n. r2 = Ok raw \<and> decode raw = Ok n)")
    case False
    then have "(\<forall>f. r \<noteq> Ok f) \<and> page_table self' = page_table s1 \<and> heap self' = heap s1" using run None s1 d
      by (cases r1; cases r2; cases "decode (case r2 of Ok x \<Rightarrow> x | _ \<Rightarrow> [])") (auto simp: fetch_page_def on_disk_def)
    then show ?thesis using ms g by simp
  next
    case True
    then obtain raw n where ok: "r1 = Ok ()" "r2 = Ok raw" "decode raw = Ok n" by blast
    let ?f = "length (heap s1)" and ?i = "install p n (s1\<lparr>pool_disk := d\<rparr>)"
    obtain r3 s3 where s3: "touch p ?i = (r3, s3)" by fastforce
    have t3: "page_table s3 = page_table ?i" "heap s3 = heap ?i"
      using s3 by (auto simp: touch_def split: result.splits)
    have res: "(r, self') = then_do (r3, s3) (\<lambda>_ self. (Ok ?f, clone_frame ?f self))"
      using run None s1 d ok s3 by (simp add: fetch_page_def on_disk_def Let_def)
    have r: "r = Ok ?f \<and> self' = clone_frame ?f s3 \<or> (\<forall>f. r \<noteq> Ok f) \<and> self' = s3"
      using res by (cases r3) auto
    have none1: "map_of (page_table s1) p = None" using make_room_spec [OF inv s1] None by blast
    then have tab: "page_table self' = page_table s1 @ [(p, ?f)]"
      using r t3 alist_update_new [of p "page_table s1"] by (auto simp: install_def clone_frame_def map_of_eq_None_iff)
    have old: "h < ?f" if "map_of (page_table s1) q = Some h" for h
      using inv1 table_lookup(2) [OF _ that] by (simp add: pool_inv_def)
    show ?thesis
    proof (cases "q = p")
      case True
      then have "g = ?f" using g tab none1 by (simp add: map_add_def)
      then show ?thesis using r t3 None True by (auto simp: install_def clone_frame_def)
    next
      case False
      then have m: "map_of (page_table s1) q = Some g" using g tab by (auto simp: map_add_def split: option.splits)
      note lt = old [OF m]
      have "strong (heap self' ! g) = strong (heap s1 ! g)" "r \<noteq> Ok g"
        using r t3 lt by (auto simp: install_def clone_frame_def nth_append nth_update_if)
      then show ?thesis using ms m by simp
    qed
  qed
qed

lemma fetch_cached_eq:
  assumes "pool_inv L self" "map_of (page_table self) p = Some f"
  obtains rp where "fetch_page flush p self = (Ok f, clone_frame f (self\<lparr>pool_replacer := rp\<rparr>))"
  by (rule touch_spec [OF assms]) (use assms(2) that in \<open>auto simp: fetch_page_def\<close>)

text \<open>Nobody holds a frame.\<close>

definition alone :: "'w buffer_pool \<Rightarrow> bool" where
  "alone self \<longleftrightarrow> (\<forall>p f. map_of (page_table self) p = Some f \<longrightarrow> strong (heap self ! f) = 1)"

lemma alone_unlatched:
  assumes "pool_inv L self" "alone self" "map_of (page_table self) p = Some f"
  shows "\<not> write_latched (heap self ! f)"
proof -
  have "table_wf (page_table self) (heap self)" using assms(1) by (simp add: pool_inv_def)
  from table_lookup(4) [OF this assms(3)] show ?thesis using assms(2,3) by (auto simp: alone_def)
qed

lemma fetch_alone:
  assumes "pool_inv L self" "alone self" "fetch_page flush p self = (r, self')"
    and "map_of (page_table self') q = Some g"
  shows "strong (heap self' ! g) = (if r = Ok g then 2 else 1)"
  using fetch_page_strong [OF assms(1,3,4)] assms(2) by (auto simp: alone_def)

section \<open>Holding one frame\<close>

text \<open>A frame that its holder has fetched, latched, changed and let go.\<close>

lemma hold_frame:
  assumes inv: "pool_inv L self" and f: "map_of (page_table self) p = Some f"
    and two: "2 \<le> strong (heap self ! f)" and set: "settled self p f"
    and n: "node_wf n" "n = node_at f self \<or> node_is_dirty n"
  shows "pool_inv L (release f (set_node f n (set_latch f True self)))"
    and "pool_view (release f (set_node f n (set_latch f True self))) q =
      (if q = p then Some (disk_form n) else pool_view self q)"
    and "no_latch self \<Longrightarrow> no_latch (release f (set_node f n (set_latch f True self)))"
    and "(\<forall>q g. map_of (page_table self) q = Some g \<longrightarrow> strong (heap self ! g) = (if g = f then 2 else 1)) \<Longrightarrow>
      alone (release f (set_node f n (set_latch f True self)))"
proof -
  have wf: "table_wf (page_table self) (heap self)" using inv by (simp add: pool_inv_def)
  note tl = table_lookup [OF wf f]
  let ?c = "\<lparr>frame_node = n, strong = strong (heap self ! f) - 1, write_latched = False\<rparr>"
  have eq: "release f (set_node f n (set_latch f True self)) = put_cell f ?c self"
    using tl(2) by (cases "heap self ! f") (simp add: release_def put_cell_eqs put_cell_nth)
  have ok: "cell_ok self p ?c"
    using two n set by (auto simp: cell_ok_def settled_def)
  show "pool_inv L (release f (set_node f n (set_latch f True self)))"
    unfolding eq by (rule put_cell_spec(1) [OF inv f ok])
  show "pool_view (release f (set_node f n (set_latch f True self))) q =
      (if q = p then Some (disk_form n) else pool_view self q)"
    unfolding eq using put_cell_spec(2) [OF inv f ok] by simp
  show "no_latch (release f (set_node f n (set_latch f True self)))" if "no_latch self"
  proof -
    have "write_latched x = False" if "x \<in> set ((heap self)[f := ?c])" for x
      using set_update_subset_insert [of "heap self" f ?c] that \<open>no_latch self\<close>
      by (auto simp: no_latch_def latches_def)
    then show ?thesis unfolding eq no_latch_def latches_def put_cell_def by auto
  qed
  show "alone (release f (set_node f n (set_latch f True self)))"
    if "\<forall>q g. map_of (page_table self) q = Some g \<longrightarrow> strong (heap self ! g) = (if g = f then 2 else 1)"
    using that tl(2) unfolding eq alone_def by (auto simp: put_cell_nth)
qed

lemma leaf_map_free [simp]:
  "leaf_map (l\<lparr>free_size := a, is_dirty := b\<rparr>) = leaf_map l" "leaf_map (l\<lparr>last_lsn := lsn, is_dirty := b\<rparr>) = leaf_map l"
  by (simp_all add: leaf_map_def slot_records_def)

lemma node_at_latch [simp]: "node_at f (set_latch f b self) = node_at f self"
  by (cases "f < length (heap self)") (simp_all add: node_at_def set_latch_def list_update_beyond not_less)

lemma set_node_same: "set_node f (node_at f self) self = self"
  by (simp add: set_node_def node_at_def)

section \<open>Holding several frames\<close>

text \<open>The frame \<open>f\<close> of page \<open>p\<close> is held by somebody beside the table; only frames of \<open>F\<close> are latched.\<close>

definition held :: "page_id \<Rightarrow> frame_ref \<Rightarrow> 'w buffer_pool \<Rightarrow> bool" where
  "held p f self \<longleftrightarrow> map_of (page_table self) p = Some f \<and> 2 \<le> strong (heap self ! f)"

definition latched_only :: "frame_ref set \<Rightarrow> 'w buffer_pool \<Rightarrow> bool" where
  "latched_only F self \<longleftrightarrow> (\<forall>g < length (latches self). latches self ! g \<longrightarrow> g \<in> F)"

lemma no_latch_only: "no_latch self = latched_only {} self"
  by (auto simp: no_latch_def latched_only_def in_set_conv_nth)

lemma latches_nth: "g < length (heap self) \<Longrightarrow> latches self ! g = write_latched (heap self ! g)"
  by (simp add: latches_def)

lemma length_latches [simp]: "length (latches self) = length (heap self)"
  by (simp add: latches_def)

lemma latched_only_grow:
  assumes "latched_only F self" "latches self' \<in> {latches self, latches self @ [False]}"
  shows "latched_only F self'"
proof -
  have "g \<in> F" if "g < length (latches self')" "latches self' ! g" for g
    using assms that unfolding latched_only_def
    by (auto simp: nth_append less_Suc_eq simp del: length_latches split: if_splits)
  then show ?thesis by (simp add: latched_only_def)
qed

lemma fetch_latched_only:
  "pool_inv L self \<Longrightarrow> latched_only F self \<Longrightarrow> fetch_page flush p self = (r, self') \<Longrightarrow> latched_only F self'"
  using latched_only_grow fetch_page_latches by blast

lemma new_page_latches:
  assumes inv: "pool_inv L self" and run: "new_page flush b self = (r, self')"
  shows "latches self' \<in> {latches self, latches self @ [False]}"
proof -
  obtain r1 s1 where s1: "make_room flush self = (r1, s1)" by fastforce
  obtain r2 d where d: "allocate_page (pool_disk s1) = (r2, d)" by fastforce
  note l1 = make_room_latches [OF inv s1]
  show ?thesis
  proof (cases "r1 = Ok () \<and> (\<exists>pid. r2 = Ok pid)")
    case False
    then have "latches self' = latches self" using run s1 d l1
      by (cases r1; cases r2) (auto simp: new_page_def on_disk_def)
    then show ?thesis by simp
  next
    case True
    then obtain pid where ok: "r1 = Ok ()" "r2 = Ok pid" by blast
    obtain r3 s3 where s3: "touch pid (install pid (new_empty pid b) (s1\<lparr>pool_disk := d\<rparr>)) = (r3, s3)" by fastforce
    show ?thesis using run s1 d ok s3 l1 latches_touch [OF s3]
      by (cases r3) (auto simp: new_page_def on_disk_def Let_def)
  qed
qed

lemma new_page_latched_only:
  "pool_inv L self \<Longrightarrow> latched_only F self \<Longrightarrow> new_page flush b self = (r, self') \<Longrightarrow> latched_only F self'"
  using latched_only_grow new_page_latches by blast

lemma held_frame: "pool_inv L self \<Longrightarrow> held p f self \<Longrightarrow> f < length (heap self)"
  using table_lookup(2) by (auto simp: held_def pool_inv_def)

lemma held_node_wf: "pool_inv L self \<Longrightarrow> held p f self \<Longrightarrow> node_wf (node_at f self)"
  using map_of_SomeD by (fastforce simp: held_def pool_inv_def contents_ok_def)

lemma held_view: "held p f self \<Longrightarrow> pool_view self p = Some (disk_form (node_at f self))"
  by (simp add: held_def pool_view_mapped)

lemma held_other: "pool_inv L self \<Longrightarrow> held p f self \<Longrightarrow> held q g self \<Longrightarrow> p \<noteq> q \<Longrightarrow> f \<noteq> g"
  using table_inj by (auto simp: held_def pool_inv_def)

lemma keeps_held:
  assumes "pool_inv L self" "keeps L self self'" "held p f self"
  shows "held p f self'" "node_at f self' \<in> {node_at f self, clear_dirty (node_at f self)}"
    "write_latched (heap self' ! f) = write_latched (heap self ! f)"
  using assms held_frame [OF assms(1,3)] by (fastforce simp: keeps_def frame_kept_def held_def)+

lemma keeps_held_leaf:
  assumes "pool_inv L self" "keeps L self self'" "held p f self" "node_at f self = Leaf l"
  obtains b where "node_at f self' = Leaf (l\<lparr>is_dirty := b\<rparr>)"
proof -
  have "node_at f self' = Leaf (l\<lparr>is_dirty := is_dirty l\<rparr>) \<or> node_at f self' = Leaf (l\<lparr>is_dirty := False\<rparr>)"
    using keeps_held(2) [OF assms(1-3)] assms(4) by auto
  then show thesis using that by blast
qed

text \<open>The holder writes, latches, and lets go.\<close>

lemma write_held:
  assumes inv: "pool_inv L self" and h: "held p f self" and n: "node_wf n"
  shows "pool_inv L (set_node f n self)"
    and "pool_view (set_node f n self) q = (if q = p then Some (disk_form n) else pool_view self q)"
    and "held q g (set_node f n self) = held q g self"
    and "node_at g (set_node f n self) = (if g = f then n else node_at g self)"
    and "latches (set_node f n self) = latches self"
proof -
  have m: "map_of (page_table self) p = Some f" and two: "2 \<le> strong (heap self ! f)" using h by (simp_all add: held_def)
  note lt = held_frame [OF inv h]
  have wf: "table_wf (page_table self) (heap self)" using inv by (simp add: pool_inv_def)
  have ok: "cell_ok self p ((heap self ! f)\<lparr>frame_node := n\<rparr>)" using two n by (simp add: cell_ok_def)
  show "pool_inv L (set_node f n self)"
    unfolding put_cell_eqs by (rule put_cell_spec(1) [OF inv m ok])
  show "pool_view (set_node f n self) q = (if q = p then Some (disk_form n) else pool_view self q)"
    unfolding put_cell_eqs using put_cell_spec(2) [OF inv m ok] by simp
  show "held q g (set_node f n self) = held q g self" by (simp add: held_def)
  show "node_at g (set_node f n self) = (if g = f then n else node_at g self)" by (rule node_at_set [OF lt])
  show "latches (set_node f n self) = latches self"
    by (rule nth_equalityI) (simp_all add: latches_nth)
qed

lemma latch_held:
  assumes inv: "pool_inv L self" and h: "held p f self" and free: "latched_only F self" "f \<notin> F"
  shows "latch_write f self = (Ok (), set_latch f True self)"
    and "pool_inv L (set_latch f True self)"
    and "pool_view (set_latch f True self) q = pool_view self q"
    and "held q g (set_latch f True self) = held q g self"
    and "node_at g (set_latch f True self) = node_at g self"
    and "latched_only (insert f F) (set_latch f True self)"
proof -
  have m: "map_of (page_table self) p = Some f" and two: "2 \<le> strong (heap self ! f)" using h by (simp_all add: held_def)
  note lt = held_frame [OF inv h]
  have "\<not> write_latched (heap self ! f)" using free lt by (auto simp: latched_only_def latches_nth)
  then show "latch_write f self = (Ok (), set_latch f True self)" by (simp add: latch_write_def)
  have ok: "cell_ok self p ((heap self ! f)\<lparr>write_latched := True\<rparr>)"
    using two held_node_wf [OF inv h] by (simp add: cell_ok_def node_at_def)
  show "pool_inv L (set_latch f True self)"
    unfolding put_cell_eqs by (rule put_cell_spec(1) [OF inv m ok])
  show "pool_view (set_latch f True self) q = pool_view self q"
    unfolding put_cell_eqs using put_cell_spec(2) [OF inv m ok] held_view [OF h] by (simp add: node_at_def)
  show "held q g (set_latch f True self) = held q g self"
    using lt by (auto simp: held_def set_latch_def nth_update_if)
  show "node_at g (set_latch f True self) = node_at g self"
    using lt by (auto simp: node_at_def set_latch_def nth_update_if)
  have "g \<in> insert f F" if "g < length (heap self)" "latches (set_latch f True self) ! g" for g
    using free(1) that lt by (auto simp: latched_only_def latches_def set_latch_def nth_update_if split: if_splits)
  then show "latched_only (insert f F) (set_latch f True self)"
    by (simp add: latched_only_def set_latch_def)
qed

lemma release_held:
  assumes inv: "pool_inv L self" and h: "held p f self" and n: "node_is_dirty (node_at f self) \<or> settled self p f"
  shows "pool_inv L (release f self)"
    and "pool_view (release f self) q = pool_view self q"
    and "g \<noteq> f \<Longrightarrow> held q g self \<Longrightarrow> held q g (release f self)"
    and "node_at g (release f self) = node_at g self"
    and "latched_only (insert f F) self \<Longrightarrow> latched_only F (release f self)"
proof -
  have m: "map_of (page_table self) p = Some f" and two: "2 \<le> strong (heap self ! f)" using h by (simp_all add: held_def)
  note lt = held_frame [OF inv h]
  let ?c = "\<lparr>frame_node = node_at f self, strong = strong (heap self ! f) - 1, write_latched = False\<rparr>"
  have eq: "release f self = put_cell f ?c self"
    using lt by (cases "heap self ! f") (simp add: release_def put_cell_eqs put_cell_nth node_at_def)
  have ok: "cell_ok self p ?c"
    using two n held_node_wf [OF inv h] by (auto simp: cell_ok_def settled_def)
  show "pool_inv L (release f self)" unfolding eq by (rule put_cell_spec(1) [OF inv m ok])
  show "pool_view (release f self) q = pool_view self q"
    unfolding eq using put_cell_spec(2) [OF inv m ok] held_view [OF h] by simp
  show "held q g (release f self)" if "g \<noteq> f" "held q g self"
    using that lt unfolding eq by (simp add: held_def put_cell_nth)
  show "node_at g (release f self) = node_at g self"
    unfolding eq using lt by (simp add: node_at_def put_cell_nth)
  have "g \<in> F" if "latched_only (insert f F) self" "g < length (heap self)" "latches (put_cell f ?c self) ! g" for g
    using that lt by (auto simp: latched_only_def latches_def put_cell_def nth_update_if split: if_splits)
  then show "latched_only F (release f self)" if "latched_only (insert f F) self"
    using that unfolding eq by (simp add: latched_only_def put_cell_def)
qed

lemma pool_disk_cells [simp]:
  "pool_disk (set_latch f b self) = pool_disk self" "pool_disk (release f self) = pool_disk self"
  "page_table (set_latch f b self) = page_table self" "page_table (release f self) = page_table self"
  by (simp_all add: set_latch_def release_def drop_frame_def)

lemma alloc_ok_cells [simp]:
  "alloc_ok L (set_node f n self) = alloc_ok L self" "alloc_ok L (set_latch f b self) = alloc_ok L self"
  "alloc_ok L (release f self) = alloc_ok L self"
  by (simp_all add: alloc_ok_def)

text \<open>Letting go changes neither nodes nor tables, whatever the state is.\<close>

lemma node_at_release [simp]: "node_at g (release f self) = node_at g self"
proof (cases "f < length (heap self)")
  case True
  then show ?thesis by (simp add: node_at_def release_def drop_frame_def set_latch_def nth_update_if)
qed (simp add: node_at_def release_def drop_frame_def set_latch_def list_update_beyond not_less)

lemma pool_view_release [simp]: "pool_view (release f self) q = pool_view self q"
  by (simp add: pool_view_def disk_view_def split: option.split)

lemma release_fields [simp]:
  "pool_replacer (release f self) = pool_replacer self" "pool_capacity (release f self) = pool_capacity self"
  by (simp_all add: release_def drop_frame_def set_latch_def)

lemma release_latched_only:
  assumes "latched_only (insert f F) self"
  shows "latched_only F (release f self)"
proof -
  have "latches (release f self) = (latches self)[f := False]"
    by (rule nth_equalityI) (auto simp: latches_def release_def drop_frame_def set_latch_def nth_update_if)
  moreover have "g \<in> F" if "g < length (heap self)" "(latches self)[f := False] ! g" for g
    using that assms by (cases "g = f") (auto simp: latched_only_def)
  ultimately show ?thesis by (simp add: latched_only_def del: length_latches)
    (simp add: release_def drop_frame_def set_latch_def)
qed

end
