(* ===== verification/Bp_Tree_Spec.thy ===== *)
theory Bp_Tree_Spec
  imports Bp_Tree Pool_Client Leaf_Props
begin

text \<open>
  The steps of \<open>insert_leaf\<close> and of the search, on the leaves and on the frames that hold them.
\<close>

section \<open>The two leaves of a split\<close>

definition links :: "leaf_node \<Rightarrow> page_id \<times> u64 \<times> bool \<times> bool \<times> u64 \<times> u64" where
  "links l = (page_id l, last_lsn l, has_prev l, has_next l, prev_page_id l, next_page_id l)"

lemma compact_links: "compact l = (r, l') \<Longrightarrow> links l' = links l"
  by (cases "compact_loop (records l) (slot_array l) [] [] 0")
    (auto simp: compact_def links_def Let_def split: if_splits)

lemma insert_record_links:
  assumes "insert_record k v l = (r, l')"
  shows "links l' = links l"
proof -
  let ?s = "binary_search_by_key k (slot_key l) (slot_array l)"
  have c: "links m' = links l" if "compact (l\<lparr>records := x\<rparr>) = (r', m')" for x r' m'
    using compact_links [OF that] by (simp add: links_def)
  show ?thesis
  proof (cases "length v > MAX_VALUE_SIZE")
    case True
    then show ?thesis using assms by (simp add: insert_record_def)
  next
    case False
    show ?thesis
    proof (cases ?s)
      case (Ok found)
      show ?thesis
      proof (cases found)
        case (Found i)
        then show ?thesis using assms False Ok c
          by (cases "index (slot_array l) i"; cases "index (records l) (unat (slot_array l ! i))")
            (auto simp: insert_record_def index_def split: if_splits)
      next
        case (InsertAt i)
        then show ?thesis using assms False Ok
          by (cases "map_result (slot_size l) (slot_array l)")
            (auto simp: insert_record_def Let_def links_def split: if_splits)
      qed
    qed (use assms False in \<open>auto simp: insert_record_def\<close>)
  qed
qed

lemma links_update: "l' = l\<lparr>records := a, slot_array := b, free_size := c\<rparr> \<Longrightarrow> links l' = links l"
  by (simp add: links_def)

lemma split_links:
  assumes "leaf_wf l" "leaf_fits l" "fresh_leaf sib" "split (l, sib) = (r, (l', sib'))"
  shows "links l' = links l \<and> links sib' = links sib"
proof (rule split_spec [OF assms(1-3)])
  fix t s
  assume run: "split (l, sib) = (if live (upper_half l) = [] then Err (CorruptPage EmptyRightSibling)
        else Ok (row_id (hd (live (upper_half l)))), (t, s))"
    and ts: "t = l\<lparr>records := records t, slot_array := slot_array t, free_size := free_size t\<rparr>"
      "s = sib\<lparr>records := records s, slot_array := slot_array s, free_size := free_size s\<rparr>"
  have "l' = t \<and> sib' = s" using run assms(4) by simp
  then show ?thesis using links_update [OF ts(1)] links_update [OF ts(2)] by simp
qed

lemma map_add_None: "(m ++ n) k = None \<longleftrightarrow> m k = None \<and> n k = None"
  by (auto simp: map_add_def split: option.split)

text \<open>The outcomes of cutting a leaf and inserting an absent key into one half.\<close>

lemma split_and_insert_Ok:
  assumes l: "leaf_wf l" "leaf_fits l" "fresh_leaf sib"
    and run: "split_and_insert k v (l, sib) = (Ok p, (l', sib'))"
  shows "leaf_wf l' \<and> leaf_fits l' \<and> leaf_wf sib' \<and> leaf_fits sib' \<and>
    leaf_map l' ++ leaf_map sib' = (leaf_map l)(k \<mapsto> v) \<and>
    (\<forall>x \<in> dom (leaf_map l'). x < p) \<and> (\<forall>x \<in> dom (leaf_map sib'). p \<le> x) \<and>
    links l' = links l \<and> links sib' = links sib"
proof -
  obtain r t s where s: "split (l, sib) = (r, (t, s))" by (metis surj_pair)
  have r: "r = Ok p" using run s by (cases r) (auto simp: split_and_insert_def then_do_eq_Ok)
  note sm = split_maps [OF l s] and sl = split_links [OF l s]
  have ts: "leaf_wf t" "leaf_fits t" "leaf_wf s" "leaf_fits s" "leaf_map l = leaf_map t ++ leaf_map s"
    "\<forall>x \<in> dom (leaf_map t). x < p" "\<forall>x \<in> dom (leaf_map s). p \<le> x"
    using sm r by (auto split: if_splits)
  show ?thesis
  proof (cases "k < p")
    case True
    then have ins: "insert_record k v t = (Ok (), l')" and s': "sib' = s"
      using run s r by (auto simp: split_and_insert_def on_fst_def then_do_eq_Ok split: prod.splits)
    note i = leaf.run_inv [of t "PutOp k v", simplified, OF ts(1) ins]
      leaf.run_map [of t "PutOp k v", simplified, OF ts(1) ins] insert_Ok_fresh(2) [OF ts(1) ins]
      insert_record_links [OF ins]
    have "k \<notin> dom (leaf_map s)" using ts(7) True by (meson not_le)
    then have "leaf_map l' ++ leaf_map s = (leaf_map l)(k \<mapsto> v)"
      unfolding i(2) ts(5) by (rule map_add_upd_left)
    then show ?thesis using i ts sl s' True by auto
  next
    case False
    then have ins: "insert_record k v s = (Ok (), sib')" and l': "l' = t"
      using run s r by (auto simp: split_and_insert_def on_snd_def then_do_eq_Ok split: prod.splits)
    note i = leaf.run_inv [of s "PutOp k v", simplified, OF ts(3) ins]
      leaf.run_map [of s "PutOp k v", simplified, OF ts(3) ins] insert_Ok_fresh(2) [OF ts(3) ins]
      insert_record_links [OF ins]
    have "leaf_map t ++ leaf_map sib' = (leaf_map l)(k \<mapsto> v)" by (simp add: i(2) ts(5))
    then show ?thesis using i ts sl l' False by auto
  qed
qed

lemma split_and_insert_full:
  assumes l: "leaf_wf l" "leaf_fits l" "fresh_leaf sib"
    and run: "split_and_insert k v (l, sib) = (Err PageFull, (l', sib'))"
  shows "leaf_wf l' \<and> (\<exists>x. leaf_map l x \<noteq> None \<and> leaf_map l' x = None)"
proof -
  obtain r t s where s: "split (l, sib) = (r, (t, s))" by (metis surj_pair)
  note sm = split_maps [OF l s]
  have "r \<noteq> Err PageFull" using sm by (auto split: if_splits)
  then obtain p where r: "r = Ok p" using run s by (cases r) (auto simp: split_and_insert_def)
  have ts: "leaf_wf t" "leaf_wf s" "leaf_map l = leaf_map t ++ leaf_map s" "p \<in> dom (leaf_map s)"
    "\<forall>x \<in> dom (leaf_map t). x < p"
    using sm r by (auto split: if_splits)
  obtain r2 t2 s2 where step: "(if k < p then on_fst (insert_record k v) (t, s)
      else on_snd (insert_record k v) (t, s)) = (r2, (t2, s2))" by (metis surj_pair)
  have "r2 = Err PageFull" "l' = t2"
    using run s r step by (cases r2; simp add: split_and_insert_def)+
  moreover have "t2 = t" if "r2 = Err PageFull"
    using step that leaf.run_err [of t "PutOp k v", simplified, OF ts(1)]
    by (auto simp: on_fst_def on_snd_def split: if_splits prod.splits)
  ultimately have "l' = t" by simp
  moreover have "leaf_map l p \<noteq> None" "leaf_map t p = None" using ts(3,4,5) by auto
  ultimately show ?thesis using ts(1) by blast
qed

section \<open>The frames\<close>

primrec relinked :: "page_id \<Rightarrow> u64 \<Rightarrow> btree_node \<Rightarrow> btree_node" where
  "relinked n lsn (Leaf l) = Leaf (l\<lparr>has_prev := True, prev_page_id := n, last_lsn := lsn\<rparr>)"
| "relinked n lsn (Internal i) = Internal i"

lemma relinked_disk_form:
  "disk_form (mark_dirty lsn (Leaf (l\<lparr>has_prev := True, prev_page_id := n\<rparr>))) = relinked n lsn (disk_form (Leaf l))"
  by (simp add: leaf_bytes_def slot_records_def)

lemma node_wf_links [simp]:
  "node_wf (Leaf (l\<lparr>has_prev := a, prev_page_id := b\<rparr>)) = node_wf (Leaf l)"
  "node_wf (Leaf (l\<lparr>has_next := a, next_page_id := b\<rparr>)) = node_wf (Leaf l)"
  "node_wf (Leaf (l\<lparr>has_prev := a, prev_page_id := b, has_next := c, next_page_id := d\<rparr>)) = node_wf (Leaf l)"
  by (simp_all add: leaf_wf_def slots_wf_def slot_records_def)

lemma settled_latch: "f < length (heap self) \<Longrightarrow> settled (set_latch f b self) p f = settled self p f"
  by (simp add: settled_def disk_view_def) (simp add: set_latch_def node_at_def)

text \<open>What a fetch, a latch and the end of their scope do for a page that is not held yet.\<close>

lemma fetch_latch:
  assumes inv: "pool_inv L self" and p: "p \<in> L" and la: "latched_only F self"
    and F: "\<forall>f \<in> F. \<exists>q. q \<noteq> p \<and> held q f self" and run: "fetch_page flush p self = (Ok f, s)"
  shows "f \<notin> F \<and> latch_write f s = (Ok (), set_latch f True s) \<and> pool_inv L (set_latch f True s) \<and>
    held p f (set_latch f True s) \<and> latched_only (insert f F) (set_latch f True s) \<and>
    settled (set_latch f True s) p f \<and> (\<forall>q \<in> L. pool_view (set_latch f True s) q = pool_view self q) \<and>
    (\<forall>q g. held q g self \<longrightarrow> held q g (set_latch f True s) \<and>
      node_at g (set_latch f True s) \<in> {node_at g self, clear_dirty (node_at g self)})"
proof -
  note fs = fetch_page_spec [OF inv p run]
  have inv1: "pool_inv L s" and k1: "keeps L self s" and h: "held p f s" and set1: "settled s p f"
    using fs by (simp_all add: held_def)
  have la1: "latched_only F s" by (rule fetch_latched_only [OF inv la run])
  have fF: "f \<notin> F"
  proof
    assume "f \<in> F"
    then obtain q where "q \<noteq> p" "held q f self" using F by blast
    with keeps_held(1) [OF inv k1] have "held q f s" "q \<noteq> p" by blast+
    with held_other [OF inv1 _ h] show False by blast
  qed
  note lh = latch_held [OF inv1 h la1 fF]
  have "settled (set_latch f True s) p f" using set1 settled_latch [OF held_frame [OF inv1 h]] by simp
  moreover have "\<forall>q \<in> L. pool_view (set_latch f True s) q = pool_view self q"
    using lh(3) k1 by (simp add: keeps_def)
  ultimately show ?thesis using fF lh(1,2,4,5,6) h keeps_held(1,2) [OF inv k1] by simp
qed

lemma connect_old_right_Ok:
  assumes inv: "pool_inv L self" and q: "q \<in> L" and la: "latched_only F self"
    and F: "\<forall>f \<in> F. \<exists>p. p \<noteq> q \<and> held p f self"
    and run: "connect_old_right flush q n lsn self = (Ok (), s')"
  shows "pool_inv L s' \<and> latched_only F s' \<and>
    (\<forall>x \<in> L. pool_view s' x = (if x = q then map_option (relinked n lsn) (pool_view self x) else pool_view self x)) \<and>
    (\<forall>p f. p \<noteq> q \<and> held p f self \<longrightarrow> held p f s' \<and> node_at f s' \<in> {node_at f self, clear_dirty (node_at f self)}) \<and>
    (alloc_ok L self \<longrightarrow> alloc_ok L s')"
proof -
  obtain f s where s: "fetch_page flush q self = (Ok f, s)"
    using run by (auto simp: connect_old_right_def then_do_eq_Ok)
  note fl = fetch_latch [OF inv q la F s]
  let ?s = "set_latch f True s"
  have inv1: "pool_inv L ?s" and h: "held q f ?s" and la1: "latched_only (insert f F) ?s"
    and set1: "settled ?s q f" and view1: "\<forall>x \<in> L. pool_view ?s x = pool_view self x"
    and others: "held p g self \<Longrightarrow> held p g ?s \<and> node_at g ?s \<in> {node_at g self, clear_dirty (node_at g self)}"
    and lw: "latch_write f s = (Ok (), ?s)" for p g
    using fl by blast+
  have ne: "g \<noteq> f" if "p \<noteq> q" "held p g self" for p g
    using held_other [OF inv1 _ h that(1)] others [OF that(2)] by blast
  have al: "alloc_ok L self \<longrightarrow> alloc_ok L ?s" using fetch_page_header [OF s] by (simp add: alloc_ok_def)
  have viewq: "pool_view self q = Some (disk_form (node_at f ?s))"
    using held_view [OF h] view1 q by simp
  show ?thesis
  proof (cases "node_at f ?s")
    case (Internal i)
    then have s': "s' = release f ?s" using run s lw by (simp add: connect_old_right_def leaving_def)
    note rh = release_held [OF inv1 h disjI2 [OF set1]]
    have "map_option (relinked n lsn) (pool_view self q) = pool_view self q" using viewq Internal by simp
    then have "pool_view s' x = (if x = q then map_option (relinked n lsn) (pool_view self x) else pool_view self x)"
      if "x \<in> L" for x
      using view1 that unfolding s' rh(2) by simp
    moreover have "held p g s' \<and> node_at g s' \<in> {node_at g self, clear_dirty (node_at g self)}"
      if "p \<noteq> q" "held p g self" for p g
      using others [OF that(2)] ne [OF that] rh(3) [of g p] rh(4) unfolding s' by simp
    moreover have "pool_inv L s'" "latched_only F s'" "alloc_ok L self \<longrightarrow> alloc_ok L s'"
      using rh(1) rh(5) [OF la1] al unfolding s' by simp_all
    ultimately show ?thesis by blast
  next
    case (Leaf l)
    let ?n = "mark_dirty lsn (Leaf (l\<lparr>has_prev := True, prev_page_id := n\<rparr>))"
    have s': "s' = release f (set_node f ?n ?s)" using run s lw Leaf by (simp add: connect_old_right_def leaving_def)
    have wf: "node_wf ?n" using held_node_wf [OF inv1 h] Leaf node_wf_links(1) by simp
    note wh = write_held [OF inv1 h wf]
    have h2: "held q f (set_node f ?n ?s)" using wh(3) h by simp
    have la2: "latched_only (insert f F) (set_node f ?n ?s)" using la1 wh(5) by (simp add: latched_only_def)
    have "node_is_dirty (node_at f (set_node f ?n ?s))" using wh(4) by simp
    note rh = release_held [OF wh(1) h2 disjI1 [OF this]]
    have "pool_view s' x = (if x = q then map_option (relinked n lsn) (pool_view self x) else pool_view self x)"
      if "x \<in> L" for x
      using viewq view1 that unfolding s' rh(2) wh(2) Leaf relinked_disk_form by simp
    moreover have "held p g s' \<and> node_at g s' \<in> {node_at g self, clear_dirty (node_at g self)}"
      if "p \<noteq> q" "held p g self" for p g
      using others [OF that(2)] ne [OF that] wh(3,4) rh(3) [of g p] rh(4) unfolding s' by simp
    moreover have "pool_inv L s'" "latched_only F s'" "alloc_ok L self \<longrightarrow> alloc_ok L s'"
      using rh(1) rh(5) [OF la2] al unfolding s' by simp_all
    ultimately show ?thesis by blast
  qed
qed

section \<open>Splitting a full leaf\<close>

lemma wire_fields:
  assumes "wire_siblings p n (l, r) = (lw, rw)"
  shows "leaf_map lw = leaf_map l" "leaf_map rw = leaf_map r" "has_next lw" "next_page_id lw = n"
    "has_prev rw" "prev_page_id rw = p" "has_next rw = has_next l" "next_page_id rw = next_page_id l"
    "has_prev lw = has_prev l" "prev_page_id lw = prev_page_id l"
    "leaf_wf lw = leaf_wf l" "leaf_wf rw = leaf_wf r" "leaf_fits lw = leaf_fits l" "leaf_fits rw = leaf_fits r"
  using assms by (auto simp: wire_siblings_def leaf_map_def leaf_wf_def slots_wf_def slot_records_def
      leaf_fits_def leaf_bytes_def)

lemma leaf_dirty_simps [simp]:
  "leaf_wf (l\<lparr>is_dirty := b\<rparr>) = leaf_wf l" "leaf_fits (l\<lparr>is_dirty := b\<rparr>) = leaf_fits l"
  "leaf_map (l\<lparr>is_dirty := b\<rparr>) = leaf_map l"
  by (simp_all add: leaf_map_def leaf_wf_def slots_wf_def slot_records_def leaf_fits_def leaf_bytes_def)

text \<open>The state in which the two halves are filled, and its two frames.\<close>

lemma new_sibling:
  assumes inv: "pool_inv L self" and al: "alloc_ok L self" and h: "held p f self" and la: "latched_only {f} self"
    and leaf: "node_at f self = Leaf l" and run: "new_page flush True self = (Ok (n, g), s)"
  obtains b where "latch_write g s = (Ok (), set_latch g True s)" "n \<notin> L" "n \<noteq> p" "g \<noteq> f"
    "pool_inv (insert n L) (set_latch g True s)" "alloc_ok (insert n L) (set_latch g True s)"
    "held p f (set_latch g True s)" "held n g (set_latch g True s)"
    "latched_only {f, g} (set_latch g True s)"
    "node_at f (set_latch g True s) = Leaf (l\<lparr>is_dirty := b\<rparr>)"
    "node_at g (set_latch g True s) = Leaf (leaf_default\<lparr>page_id := n\<rparr>)"
    "\<forall>q \<in> L. pool_view (set_latch g True s) q = pool_view self q"
proof -
  have np: "n \<notin> L" "pool_inv (insert n L) s" "alloc_ok (insert n L) s" "keeps L self s"
    "map_of (page_table s) n = Some g" "node_at g s = new_empty n True" "strong (heap s ! g) = 2"
    "length (heap self) \<le> g"
    using new_page_spec [OF inv al run] by simp_all
  have hg: "held n g s" using np(5,7) by (simp add: held_def)
  have hf: "held p f s" by (rule keeps_held(1) [OF inv np(4) h])
  have pL: "p \<in> L" using h map_of_SomeD inv by (force simp: held_def pool_inv_def contents_ok_def)
  then have "n \<noteq> p" using np(1) by blast
  have gf: "g \<noteq> f" using held_frame [OF inv h] np(8) by simp
  obtain b where b: "node_at f s = Leaf (l\<lparr>is_dirty := b\<rparr>)" by (rule keeps_held_leaf [OF inv np(4) h leaf])
  have las: "latched_only {f} s" by (rule new_page_latched_only [OF inv la run])
  have gF: "g \<notin> {f}" using gf by simp
  note lh = latch_held [OF np(2) hg las gF]
  have lfg: "latched_only {f, g} (set_latch g True s)" using lh(6) by (simp add: insert_commute)
  have v: "\<forall>q \<in> L. pool_view (set_latch g True s) q = pool_view self q"
    using np(4) by (simp add: keeps_def lh(3))
  show thesis
    by (rule that [of b]) (use lh(1,2,4,5) lfg v np(1,3,6) \<open>n \<noteq> p\<close> gf hf hg b in \<open>simp_all add: new_empty_def\<close>)
qed

lemma mark_both:
  assumes inv: "pool_inv L self" and hf: "held p f self" and hg: "held n g self" and ne: "n \<noteq> p"
  shows "pool_inv L (set_node g (mark_dirty lsn (node_at g self)) (set_node f (mark_dirty lsn (node_at f self)) self))"
proof -
  have "node_wf (mark_dirty lsn (node_at f self))" using held_node_wf [OF inv hf] by simp
  note w1 = write_held [OF inv hf this]
  have "node_wf (mark_dirty lsn (node_at g self))" using held_node_wf [OF inv hg] by simp
  then show ?thesis using write_held(1) [OF w1(1)] w1(3) hg by blast
qed

lemma mark_clear [simp]: "mark_dirty lsn (clear_dirty n) = mark_dirty lsn n"
  by (cases n) simp_all

lemma marked_leaf:
  obtains l' where "disk_form (mark_dirty lsn (Leaf l)) = Leaf l'" "leaf_map l' = leaf_map l" "last_lsn l' = lsn"
    "leaf_wf l' = leaf_wf l" "leaf_fits l' = leaf_fits l" "has_next l' = has_next l" "next_page_id l' = next_page_id l"
    "has_prev l' = has_prev l" "prev_page_id l' = prev_page_id l"
  by (rule that [of "l\<lparr>last_lsn := lsn, is_dirty := False, free_size := free_for (leaf_bytes l)\<rparr>"])
    (simp_all add: leaf_map_def leaf_wf_def slots_wf_def slot_records_def leaf_fits_def leaf_bytes_def)

text \<open>What a split of leaf \<open>l\<close> of page \<open>p\<close> has to make of it and of its new right sibling \<open>n\<close>.\<close>

definition split_done :: "u64 \<Rightarrow> u8 list \<Rightarrow> u64 \<Rightarrow> page_id \<Rightarrow> page_id \<Rightarrow> u64 \<Rightarrow> leaf_node \<Rightarrow> leaf_node \<Rightarrow> leaf_node \<Rightarrow> bool" where
  "split_done k v lsn p n promoted l l' r' \<longleftrightarrow>
     leaf_wf l' \<and> leaf_fits l' \<and> leaf_wf r' \<and> leaf_fits r' \<and> last_lsn l' = lsn \<and> last_lsn r' = lsn \<and>
     leaf_map l' ++ leaf_map r' = (leaf_map l)(k \<mapsto> v) \<and>
     (\<forall>x \<in> dom (leaf_map l'). x < promoted) \<and> (\<forall>x \<in> dom (leaf_map r'). promoted \<le> x) \<and>
     has_next l' \<and> next_page_id l' = n \<and> has_prev l' = has_prev l \<and> prev_page_id l' = prev_page_id l \<and>
     has_prev r' \<and> prev_page_id r' = p \<and> has_next r' = has_next l \<and> next_page_id r' = next_page_id l"

lemma split_leaf_Ok:
  assumes inv: "pool_inv L self" and al: "alloc_ok L self" and h: "held p f self" and la: "latched_only {f} self"
    and leaf: "node_at f self = Leaf l" and fits: "leaf_fits l"
    and right: "has_next l \<Longrightarrow> next_page_id l \<in> L \<and> next_page_id l \<noteq> p"
    and run: "split_leaf flush p k v lsn f self = (Ok x, s')"
  obtains promoted n l' r' where "x = Some \<lparr>promoted_row_id = promoted, new_page_id = n\<rparr>" "n \<notin> L"
    "split_done k v lsn p n promoted l l' r'" "pool_inv (insert n L) s'" "alloc_ok (insert n L) s'" "held p f s'"
    "latched_only {f} s'" "node_is_dirty (node_at f s')" "pool_view s' p = Some (Leaf l')" "pool_view s' n = Some (Leaf r')"
    "\<forall>q \<in> L - {p}. pool_view s' q = (if has_next l \<and> q = next_page_id l
       then map_option (relinked n lsn) (pool_view self q) else pool_view self q)"
proof -
  obtain n g s where s: "new_page flush True self = (Ok (n, g), s)"
    using run by (auto simp: split_leaf_def then_do_eq_Ok)
  let ?c = "set_latch g True s" and ?L = "insert n L"
  obtain b where lw: "latch_write g s = (Ok (), ?c)" and n: "n \<notin> L" "n \<noteq> p" "g \<noteq> f"
    and c: "pool_inv ?L ?c" "alloc_ok ?L ?c" "held p f ?c" "held n g ?c" "latched_only {f, g} ?c"
      "node_at f ?c = Leaf (l\<lparr>is_dirty := b\<rparr>)" "node_at g ?c = Leaf (leaf_default\<lparr>page_id := n\<rparr>)"
      "\<forall>q \<in> L. pool_view ?c q = pool_view self q"
    by (rule new_sibling [OF inv al h la leaf s])
  obtain r l1 r1 where si: "split_and_insert k v (l\<lparr>is_dirty := b\<rparr>, leaf_default\<lparr>page_id := n\<rparr>) = (r, (l1, r1))"
    by (metis surj_pair)
  obtain lw' rw' where wire: "wire_siblings p n (l1, r1) = (lw', rw')" by fastforce
  let ?raw = "set_node g (Leaf r1) (set_node f (Leaf l1) ?c)"
  let ?d = "set_node g (Leaf rw') (set_node f (Leaf lw') ?raw)"
  define E where "E = (if has_next l1 then connect_old_right flush (next_page_id l1) n lsn ?d else (Ok (), ?d))"
  let ?fin = "\<lambda>e. set_node g (mark_dirty lsn (node_at g (set_node f (mark_dirty lsn (node_at f e)) e)))
    (set_node f (mark_dirty lsn (node_at f e)) e)"
  have step: "(Ok x, s') = leaving g (then_do (r, ?raw) (\<lambda>promoted _. then_do E (\<lambda>_ e.
      (Ok (Some \<lparr>promoted_row_id = promoted, new_page_id = n\<rparr>), ?fin e))))"
    using run s lw c(6,7) si wire by (cases r) (simp_all add: split_leaf_def E_def Let_def)
  obtain pr e where pr: "r = Ok pr" and e: "E = (Ok (), e)"
    using step by (cases r; cases E; cases "fst E") (auto simp: leaving_def)
  have fin: "x = Some \<lparr>promoted_row_id = pr, new_page_id = n\<rparr>" "s' = release g (?fin e)"
    using step pr e by (simp_all add: leaving_def)
  have wfl: "leaf_wf l" using held_node_wf [OF inv h] leaf by simp
  have "leaf_wf (l\<lparr>is_dirty := b\<rparr>)" "leaf_fits (l\<lparr>is_dirty := b\<rparr>)" "fresh_leaf (leaf_default\<lparr>page_id := n\<rparr>)"
    using wfl fits by (simp_all add: fresh_leaf_def leaf_default_def)
  note so = split_and_insert_Ok [OF this si [unfolded pr]]
  have lk: "has_next l1 = has_next l" "next_page_id l1 = next_page_id l" "has_prev l1 = has_prev l" "prev_page_id l1 = prev_page_id l"
    using so by (simp_all add: links_def)
  note wf = wire_fields [OF wire]
  have wfn: "node_wf (Leaf l1)" "node_wf (Leaf r1)" "node_wf (Leaf lw')" "node_wf (Leaf rw')" using so wf by simp_all
  note w1 = write_held [OF c(1,3) wfn(1)]
  have h1: "held p f (set_node f (Leaf l1) ?c)" "held n g (set_node f (Leaf l1) ?c)" using w1(3) c(3,4) by simp_all
  note w2 = write_held [OF w1(1) h1(2) wfn(2)]
  have h2: "held p f ?raw" "held n g ?raw" using w2(3) h1 by simp_all
  note w3 = write_held [OF w2(1) h2(1) wfn(3)]
  have h3: "held p f (set_node f (Leaf lw') ?raw)" "held n g (set_node f (Leaf lw') ?raw)" using w3(3) h2 by simp_all
  note w4 = write_held [OF w3(1) h3(2) wfn(4)]
  have h4: "held p f ?d" "held n g ?d" using w4(3) h3 by simp_all
  have d: "node_at f ?d = Leaf lw'" "node_at g ?d = Leaf rw'" using n(3) by (simp_all add: w4(4) w3(4))
  have viewd: "pool_view ?d q = pool_view self q" if "q \<in> L" "q \<noteq> p" for q
    using that n(1) c(8) by (auto simp: w4(2) w3(2) w2(2) w1(2))
  have lad: "latched_only {f, g} ?d" using c(5) by (simp add: latched_only_def w1(5) w2(5) w3(5) w4(5))
  have ald: "alloc_ok ?L ?d" using c(2) by simp
  text \<open>The old right neighbour, if there is one.\<close>
  have E: "pool_inv ?L e \<and> latched_only {f, g} e \<and> alloc_ok ?L e \<and> held p f e \<and> held n g e \<and>
      node_at f e \<in> {Leaf lw', clear_dirty (Leaf lw')} \<and> node_at g e \<in> {Leaf rw', clear_dirty (Leaf rw')} \<and>
      (\<forall>q \<in> L - {p}. pool_view e q = (if has_next l \<and> q = next_page_id l
         then map_option (relinked n lsn) (pool_view self q) else pool_view self q))"
  proof (cases "has_next l")
    case False
    then have "e = ?d" using e lk by (simp add: E_def)
    then show ?thesis using w4(1) lad ald h4 d viewd False by simp
  next
    case True
    let ?q = "next_page_id l"
    have q: "?q \<in> ?L" "?q \<noteq> p" "?q \<noteq> n" using right [OF True] n(1) by auto
    have cr: "connect_old_right flush ?q n lsn ?d = (Ok (), e)" using e True lk by (simp add: E_def)
    have F: "\<forall>f' \<in> {f, g}. \<exists>p'. p' \<noteq> ?q \<and> held p' f' ?d"
      using h4 q(2,3) by (metis insertE singletonD)
    note co = connect_old_right_Ok [OF w4(1) q(1) lad F cr]
    have frames: "held p f e \<and> node_at f e \<in> {node_at f ?d, clear_dirty (node_at f ?d)}"
      "held n g e \<and> node_at g e \<in> {node_at g ?d, clear_dirty (node_at g ?d)}"
      using mp [OF spec [OF spec [OF conjunct1 [OF conjunct2 [OF conjunct2 [OF conjunct2 [OF co]]]]]]]
        h4 not_sym [OF q(2)] not_sym [OF q(3)] by simp_all
    have "pool_view e x = (if x = ?q then map_option (relinked n lsn) (pool_view self x) else pool_view self x)"
      if "x \<in> L" "x \<noteq> p" for x
    proof -
      have "x \<in> ?L" using that by simp
      from bspec [OF conjunct1 [OF conjunct2 [OF conjunct2 [OF co]]] this]
      show ?thesis unfolding viewd [OF that] .
    qed
    moreover have "pool_inv ?L e" "latched_only {f, g} e" "alloc_ok ?L e" using co ald by simp_all
    ultimately show ?thesis using frames True unfolding d by simp
  qed
  text \<open>Marking both, and letting the sibling go.\<close>
  let ?nf = "mark_dirty lsn (Leaf lw')" and ?ng = "mark_dirty lsn (Leaf rw')"
  have nodes: "mark_dirty lsn (node_at f e) = ?nf" "mark_dirty lsn (node_at g e) = ?ng"
    using E by auto
  have mf: "node_wf ?nf" "node_wf ?ng" using wfn by (simp_all del: mark_dirty.simps)
  have inve: "pool_inv ?L e" and hfe: "held p f e" and hge: "held n g e" using E by simp_all
  note w5 = write_held [OF inve hfe mf(1)]
  have h5: "held p f (set_node f ?nf e)" "held n g (set_node f ?nf e)" using w5(3) hfe hge by simp_all
  note w6 = write_held [OF w5(1) h5(2) mf(2)]
  have h6: "held p f (set_node g ?ng (set_node f ?nf e))" "held n g (set_node g ?ng (set_node f ?nf e))"
    using w6(3) h5 by simp_all
  have fe: "?fin e = set_node g ?ng (set_node f ?nf e)" using n(3) by (simp only: nodes w5(4) if_False)
  have dg: "node_is_dirty (node_at g (set_node g ?ng (set_node f ?nf e)))" unfolding w6(4) by simp
  note rg = release_held [OF w6(1) h6(2) disjI1 [OF dg]]
  have s': "s' = release g (set_node g ?ng (set_node f ?nf e))" using fin(2) fe by simp
  obtain l' where l': "disk_form ?nf = Leaf l'" "leaf_map l' = leaf_map lw'" "last_lsn l' = lsn"
    "leaf_wf l' = leaf_wf lw'" "leaf_fits l' = leaf_fits lw'" "has_next l' = has_next lw'" "next_page_id l' = next_page_id lw'"
    "has_prev l' = has_prev lw'" "prev_page_id l' = prev_page_id lw'" by (rule marked_leaf)
  obtain r' where r': "disk_form ?ng = Leaf r'" "leaf_map r' = leaf_map rw'" "last_lsn r' = lsn"
    "leaf_wf r' = leaf_wf rw'" "leaf_fits r' = leaf_fits rw'" "has_next r' = has_next rw'" "next_page_id r' = next_page_id rw'"
    "has_prev r' = has_prev rw'" "prev_page_id r' = prev_page_id rw'" by (rule marked_leaf)
  show thesis
  proof (rule that [OF fin(1) n(1)])
    show "split_done k v lsn p n pr l l' r'"
      using so wf lk by (simp add: split_done_def l' r')
    show "pool_inv ?L s'" unfolding s' by (rule rg(1))
    show "alloc_ok ?L s'" using E unfolding s' by simp
    show "held p f s'" unfolding s' by (rule rg(3) [OF n(3) [symmetric] h6(1)])
    have "latched_only (insert g {f}) (set_node g ?ng (set_node f ?nf e))"
      using conjunct1 [OF conjunct2 [OF E]] unfolding latched_only_def w5(5) w6(5) by (simp add: insert_commute)
    then show "latched_only {f} s'" unfolding s' by (rule rg(5))
    show "node_is_dirty (node_at f s')" using n(3) unfolding s' rg(4) w6(4) w5(4) by simp
    show "pool_view s' p = Some (Leaf l')" using n(2) unfolding s' rg(2) w6(2) w5(2) l'(1) by simp
    show "pool_view s' n = Some (Leaf r')" unfolding s' rg(2) w6(2) r'(1) by simp
    show "\<forall>q \<in> L - {p}. pool_view s' q = (if has_next l \<and> q = next_page_id l
       then map_option (relinked n lsn) (pool_view self q) else pool_view self q)"
    proof
      fix q assume q: "q \<in> L - {p}"
      then have "q \<noteq> n" "q \<noteq> p" using n(1) by auto
      then have "pool_view s' q = pool_view e q" unfolding s' rg(2) w6(2) w5(2) by simp
      then show "pool_view s' q = (if has_next l \<and> q = next_page_id l
         then map_option (relinked n lsn) (pool_view self q) else pool_view self q)" using E q by simp
    qed
  qed
qed

end
