(* ===== verification/Bp_Tree_Find.thy ===== *)
theory Bp_Tree_Find
  imports Bp_Tree_Spec
begin

text \<open>
  \<open>find_record\<close> along the routing entries: it ends where they lead to a leaf, and goes around forever
  where they lead around a cycle.
\<close>

section \<open>Searching\<close>

text \<open>The leaf that the routing entries lead to, from page \<open>p\<close>, over pages in use.\<close>

inductive routes :: "page_id set \<Rightarrow> (page_id \<Rightarrow> btree_node option) \<Rightarrow> u64 \<Rightarrow> page_id \<Rightarrow> leaf_node \<Rightarrow> bool"
  for L view k where
  here: "p \<in> L \<Longrightarrow> view p = Some (Leaf l) \<Longrightarrow> routes L view k p l"
| down: "p \<in> L \<Longrightarrow> view p = Some (Internal i) \<Longrightarrow>
    routes L view k (routed_child (slot_entries i) (rightmost_child_id i) k) l \<Longrightarrow> routes L view k p l"

lemma routes_cong:
  "routes L view k p l \<Longrightarrow> \<forall>q \<in> L. view' q = view q \<Longrightarrow> routes L view' k p l"
  by (induction rule: routes.induct) (auto intro: routes.intros)

lemma disk_form_InternalD:
  assumes "disk_form n = Internal i"
  obtains j where "n = Internal j" "slot_entries i = slot_entries j" "rightmost_child_id i = rightmost_child_id j"
  using assms by (cases n) (auto simp: slot_entries_def)

lemma drop_released:
  assumes "\<not> write_latched (heap s ! f)"
  shows "release f s = drop_frame f s"
proof -
  have eq: "(heap s ! f)\<lparr>write_latched := False\<rparr> = heap s ! f" using assms by (cases "heap s ! f") simp
  have "set_latch f False s = s" unfolding set_latch_def eq by simp
  then show ?thesis by (simp add: release_def)
qed

lemma find_turn_spec:
  assumes inv: "pool_inv L self" and nl: "no_latch self" and p: "p \<in> L"
    and run: "find_turn flush k p self = (r, s')"
  shows "pool_inv L s' \<and> no_latch s' \<and> (\<forall>q \<in> L. pool_view s' q = pool_view self q) \<and> (calm flush \<longrightarrow> returns r) \<and>
    (\<forall>x. r = Ok x \<longrightarrow> x = (case the (pool_view self p) of
        Leaf l \<Rightarrow> Return (leaf_map l k)
      | Internal i \<Rightarrow> GoTo (routed_child (slot_entries i) (rightmost_child_id i) k))) \<and>
    (\<forall>e. r = Err e \<longrightarrow> fetch_page flush p self = (Err e, s'))"
proof -
  obtain r1 s where s: "fetch_page flush p self = (r1, s)" by fastforce
  note fs = fetch_page_spec [OF inv p s]
  have inv1: "pool_inv L s" and k1: "\<forall>q \<in> L. pool_view s q = pool_view self q" using fs by (simp_all add: keeps_def)
  have nl1: "no_latch s" by (rule fetch_no_latch [OF inv nl s])
  show ?thesis
  proof (cases "\<exists>f. r1 = Ok f")
    case False
    then have "(\<forall>x. r \<noteq> Ok x) \<and> s' = s \<and> (returns r1 \<longrightarrow> returns r) \<and> (\<forall>e. r = Err e \<longrightarrow> r1 = Err e)"
      using run s by (cases r1) (auto simp: find_turn_def)
    then show ?thesis using fs inv1 nl1 k1 s by auto
  next
    case True
    then obtain f where f: "r1 = Ok f" by blast
    have h: "held p f s" and set1: "settled s p f" using fs f by (simp_all add: held_def)
    have free: "\<not> write_latched (heap s ! f)" by (rule no_latch_nth [OF nl1 held_frame [OF inv1 h]])
    note rh = release_held [OF inv1 h disjI2 [OF set1]]
    have "latched_only {f} s" using nl1 by (auto simp: no_latch_only latched_only_def)
    then have nl2: "no_latch (release f s)" unfolding no_latch_only by (rule rh(5))
    have step: "r = (case node_at f s of
          Internal node \<Rightarrow> and_then (route_key node k) (\<lambda>next_id. Ok (GoTo next_id))
        | Leaf node \<Rightarrow> and_then (get_record k node) (\<lambda>x. Ok (Return x)))" "s' = release f s"
      using run s f free drop_released [OF free] by (simp_all add: find_turn_def latch_read_def)
    have pv: "pool_view self p = Some (disk_form (node_at f s))" using held_view [OF h] k1 p by simp
    have wf: "node_wf (node_at f s)" by (rule held_node_wf [OF inv1 h])
    have res: "r = Ok (case disk_form (node_at f s) of
        Leaf l \<Rightarrow> Return (leaf_map l k)
      | Internal i \<Rightarrow> GoTo (routed_child (slot_entries i) (rightmost_child_id i) k))"
    proof (cases "node_at f s")
      case (Internal j)
      then have "route_key j k = Ok (routed_child (slot_entries j) (rightmost_child_id j) k)"
        using wf route_key_eq by simp
      then show ?thesis using Internal step(1) by (simp add: slot_entries_def)
    next
      case (Leaf m)
      then have "get_record k m = Ok (leaf_map m k)" using wf get_record_eq by simp
      then show ?thesis using Leaf step(1) by (simp add: leaf_map_def slot_records_def)
    qed
    show ?thesis using rh(1,2) nl2 k1 res pv unfolding step(2) by simp
  qed
qed

text \<open>
  The search from page \<open>p\<close> comes to a page that cannot be fetched: the fetch of \<open>p\<close> answers the
  error, or a turn on \<open>p\<close> goes on to a page from which it does.
\<close>

inductive fetch_fails :: "'w flush_fn \<Rightarrow> u64 \<Rightarrow> page_id \<Rightarrow> 'w buffer_pool \<Rightarrow> db_error \<Rightarrow> bool"
  for flush k where
  now: "fetch_page flush p self = (Err e, s') \<Longrightarrow> fetch_fails flush k p self e"
| later: "find_turn flush k p self = (Ok (GoTo q), s') \<Longrightarrow> fetch_fails flush k q s' e \<Longrightarrow>
    fetch_fails flush k p self e"

definition all_cached :: "page_id set \<Rightarrow> 'w buffer_pool \<Rightarrow> bool" where
  "all_cached L self \<longleftrightarrow> L \<subseteq> fst ` set (page_table self)"

lemma all_cached_at:
  assumes "all_cached L self" "p \<in> L"
  obtains f where "map_of (page_table self) p = Some f"
proof -
  have "p \<in> fst ` set (page_table self)" using assms by (auto simp: all_cached_def)
  then show thesis using that by (metis map_of_eq_None_iff not_None_eq)
qed

lemma find_turn_hit:
  assumes "all_cached L self" "p \<in> L" "find_turn flush k p self = (r, s')"
  shows "all_cached L s'"
proof (rule all_cached_at [OF assms(1,2)])
  fix f assume "map_of (page_table self) p = Some f"
  then have "page_table s' = page_table self" using assms(3)
    by (cases "touch p self"; cases "fst (touch p self)")
      (auto simp: find_turn_def fetch_page_def latch_read_def drop_frame_def clone_frame_def touch_def
        split: result.splits if_splits)
  then show ?thesis using assms(1) by (simp add: all_cached_def)
qed

lemma cached_fetch:
  assumes "pool_inv L self" "all_cached L self" "p \<in> L"
  shows "fetch_page flush p self \<noteq> (Err e, s')"
proof (rule all_cached_at [OF assms(2,3)])
  fix f assume "map_of (page_table self) p = Some f"
  from fetch_cached [OF assms(1) this, where flush = flush] show ?thesis by (metis Pair_inject result.distinct(1))
qed

lemma find_loop_spec:
  assumes "routes L view k p l" "\<forall>q \<in> L. pool_view self q = view q" "pool_inv L self" "no_latch self" "calm flush"
  shows "\<exists>r s'. find_loop flush k p self = Some (r, s') \<and>
    (r = Ok (leaf_map l k) \<or> (\<exists>e. r = Err e \<and> fetch_fails flush k p self e \<and> \<not> all_cached L self)) \<and>
    pool_inv L s' \<and> no_latch s' \<and> (\<forall>q \<in> L. pool_view s' q = view q)"
  using assms
proof (induction arbitrary: self rule: routes.induct)
  case (here p l)
  obtain r s' where t: "find_turn flush k p self = (r, s')" by fastforce
  note ft = find_turn_spec [OF here.prems(2,3) here.hyps(1) t]
  have pv: "the (pool_view self p) = Leaf l" using here by simp
  show ?case
  proof (cases r)
    case (Ok x)
    then have "x = Return (leaf_map l k)" using ft pv by simp
    then have "find_loop flush k p self = Some (Ok (leaf_map l k), s')"
      using t Ok by (subst find_loop.simps) simp
    then show ?thesis using ft here.prems(1) by simp
  next
    case (Err e)
    then have "find_loop flush k p self = Some (Err e, s')" using t by (subst find_loop.simps) simp
    moreover have fe: "fetch_page flush p self = (Err e, s')" using ft Err by simp
    moreover have "\<not> all_cached L self" using cached_fetch [OF here.prems(2) _ here.hyps(1)] fe by blast
    ultimately show ?thesis using ft here.prems(1) fetch_fails.now [OF fe] by simp
  qed (use ft here.prems(4) in simp_all)
next
  case (down p i l)
  obtain r s' where t: "find_turn flush k p self = (r, s')" by fastforce
  note ft = find_turn_spec [OF down.prems(2,3) down.hyps(1) t]
  have pv: "the (pool_view self p) = Internal i" using down by simp
  have view: "\<forall>q \<in> L. pool_view s' q = view q" and inv: "pool_inv L s'" "no_latch s'"
    using ft down.prems(1) by simp_all
  let ?q = "routed_child (slot_entries i) (rightmost_child_id i) k"
  show ?case
  proof (cases r)
    case (Ok x)
    then have x: "x = GoTo ?q" using ft pv by simp
    then have go: "find_loop flush k p self = find_loop flush k ?q s'"
      using t Ok by (subst find_loop.simps) simp
    have turn: "find_turn flush k p self = (Ok (GoTo ?q), s')" using t Ok x by simp
    have "all_cached L self \<Longrightarrow> all_cached L s'" using find_turn_hit [OF _ down.hyps(1) t] .
    then show ?thesis using down.IH [OF view inv down.prems(4)] fetch_fails.later [OF turn] unfolding go by blast
  next
    case (Err e)
    then have "find_loop flush k p self = Some (Err e, s')" using t by (subst find_loop.simps) simp
    moreover have fe: "fetch_page flush p self = (Err e, s')" using ft Err by simp
    moreover have "\<not> all_cached L self" using cached_fetch [OF down.prems(2) _ down.hyps(1)] fe by blast
    ultimately show ?thesis using view inv fetch_fails.now [OF fe] by simp
  qed (use ft down.prems(4) in simp_all)
qed

text \<open>A turn on a cached page touches the replacer only, and cannot fail.\<close>

lemma find_turn_cached:
  assumes tr: "tracking self" and d: "distinct (map fst (page_table self))" and m: "map_of (page_table self) p = Some f"
    and nl: "no_latch self" and f: "f < length (heap self)" and wf: "node_wf (node_at f self)"
  obtains s' where "find_turn flush k p self = (Ok (case node_at f self of
        Leaf l \<Rightarrow> Return (leaf_map l k)
      | Internal i \<Rightarrow> GoTo (routed_child (slot_entries i) (rightmost_child_id i) k)), s')"
    "page_table s' = page_table self" "\<And>g. node_at g s' = node_at g self" "no_latch s'" "tracking s'"
    "length (heap s') = length (heap self)"
proof -
  have "p \<in> fst ` set (page_table self)" using map_of_SomeD [OF m] by force
  from touch_cached [OF tr d this] obtain rp where
    rp: "touch p self = (Ok (), self\<lparr>pool_replacer := rp\<rparr>)" "tracking (self\<lparr>pool_replacer := rp\<rparr>)" by auto
  let ?s = "clone_frame f (self\<lparr>pool_replacer := rp\<rparr>)"
  have fe: "fetch_page flush p self = (Ok f, ?s)" using m rp(1) by (simp add: fetch_page_def)
  have nd: "node_at g ?s = node_at g self" for g
    using f by (simp add: node_at_def clone_frame_def nth_update_if)
  have ls: "latches ?s = latches self" by simp
  then have "no_latch ?s" using nl by (simp add: no_latch_def)
  then have free: "\<not> write_latched (heap ?s ! f)" by (rule no_latch_nth) (use f in \<open>simp add: clone_frame_def\<close>)
  have step: "(case node_at f self of
          Internal node \<Rightarrow> and_then (route_key node k) (\<lambda>next_id. Ok (GoTo next_id))
        | Leaf node \<Rightarrow> and_then (get_record k node) (\<lambda>x. Ok (Return x))) = Ok (case node_at f self of
        Leaf l \<Rightarrow> Return (leaf_map l k)
      | Internal i \<Rightarrow> GoTo (routed_child (slot_entries i) (rightmost_child_id i) k))"
    using wf by (cases "node_at f self") (simp_all add: route_key_eq get_record_eq)
  show thesis
  proof (rule that [of "drop_frame f ?s"])
    show "find_turn flush k p self = (Ok (case node_at f self of
        Leaf l \<Rightarrow> Return (leaf_map l k)
      | Internal i \<Rightarrow> GoTo (routed_child (slot_entries i) (rightmost_child_id i) k)), drop_frame f ?s)"
      using fe free step nd by (simp add: find_turn_def latch_read_def)
    show "page_table (drop_frame f ?s) = page_table self" by (simp add: drop_frame_def clone_frame_def)
    show "node_at g (drop_frame f ?s) = node_at g self" for g
      using f by (simp add: node_at_def drop_frame_def clone_frame_def nth_update_if)
    show "no_latch (drop_frame f ?s)" using ls nl by (simp add: no_latch_def)
    show "tracking (drop_frame f ?s)" using rp(2) by (simp add: tracking_def drop_frame_def clone_frame_def)
    show "length (heap (drop_frame f ?s)) = length (heap self)" by (simp add: drop_frame_def clone_frame_def)
  qed
qed

text \<open>A set of cached internal pages that route the key among themselves.\<close>

definition routing_cycle :: "page_id set \<Rightarrow> u64 \<Rightarrow> 'w buffer_pool \<Rightarrow> bool" where
  "routing_cycle C k self \<longleftrightarrow> (\<forall>p \<in> C. \<exists>f i. map_of (page_table self) p = Some f \<and> f < length (heap self) \<and>
     node_at f self = Internal i \<and> inner_wf i \<and> routed_child (slot_entries i) (rightmost_child_id i) k \<in> C)"

lemma find_loop_cycles:
  assumes "find_loop flush k p self = Some y" "p \<in> C" "routing_cycle C k self" "tracking self" "no_latch self"
    "distinct (map fst (page_table self))"
  shows False
  using assms
proof (induction rule: find_loop.raw_induct [rotated, consumes 1])
  case (1 find flush k p self y)
  obtain f i where i: "map_of (page_table self) p = Some f" "f < length (heap self)" "node_at f self = Internal i"
    "inner_wf i" "routed_child (slot_entries i) (rightmost_child_id i) k \<in> C"
    using 1(3,4) by (auto simp: routing_cycle_def)
  have wf: "node_wf (node_at f self)" using i(3,4) by simp
  obtain s' where s': "find_turn flush k p self = (Ok (case node_at f self of
        Leaf l \<Rightarrow> Return (leaf_map l k)
      | Internal i \<Rightarrow> GoTo (routed_child (slot_entries i) (rightmost_child_id i) k)), s')"
    "page_table s' = page_table self" "\<And>g. node_at g s' = node_at g self" "no_latch s'" "tracking s'"
    "length (heap s') = length (heap self)"
    by (rule find_turn_cached [OF 1(5,7) i(1) 1(6) i(2) wf, where flush = flush and k = k], rule that)
  have "routing_cycle C k s'" using 1(4) s'(2,3,6) by (simp add: routing_cycle_def)
  moreover have "find flush k (routed_child (slot_entries i) (rightmost_child_id i) k) s' = Some y"
    using 1(2) s'(1) i(3) by simp
  ultimately show False using 1(1) i(5) s'(2,4,5) 1(7) by metis
qed

end
