(* ===== verification/Bp_Tree_Insert.thy ===== *)
theory Bp_Tree_Insert
  imports Bp_Tree_Spec
begin

text \<open>
  \<open>insert_leaf\<close> from end to end, on the view that the pool gives of the pages: in place, with a
  split, and with a split that finds no room.
\<close>

section \<open>Inserting\<close>

lemma disk_form_LeafD:
  assumes "disk_form n = Leaf l"
  obtains m where "n = Leaf m" "leaf_map l = leaf_map m" "leaf_fits l = leaf_fits m" "leaf_wf l = leaf_wf m"
    "links l = links m" "slot_records l = slot_records m"
proof (cases n)
  case (Leaf m)
  then have "l = m\<lparr>free_size := free_for (leaf_bytes m), is_dirty := False\<rparr>" using assms by simp
  then show thesis using Leaf that [of m]
    by (simp add: leaf_map_def leaf_wf_def slots_wf_def slot_records_def leaf_fits_def leaf_bytes_def links_def)
qed (use assms in simp)

text \<open>Up to the first insertion: the page is fetched and latched, and its leaf is at hand.\<close>

lemma insert_enter:
  assumes inv: "pool_inv L self" and nl: "no_latch self" and p: "p \<in> L" and v: "pool_view self p = Some (Leaf l)"
  obtains (failed) s where "\<And>k w lsn. \<exists>r. insert_leaf_pool flush p k w lsn self = (r, s) \<and> (\<forall>x. r \<noteq> Ok x)"
      "pool_inv L s" "\<forall>q \<in> L. pool_view s q = pool_view self q"
  | (entered) f s m where "\<And>k w lsn. insert_leaf_pool flush p k w lsn self = leaving f
        (case insert_record k w m of
           (Ok _, m) \<Rightarrow> (Ok None, set_node f (mark_dirty lsn (Leaf m)) s)
         | (Err err, m) \<Rightarrow>
             if err = PageFull then split_leaf flush p k w lsn f (set_node f (Leaf m) s)
             else (Err err, set_node f (Leaf m) s)
         | (Panic p, m) \<Rightarrow> (Panic p, set_node f (Leaf m) s)
         | (Hang, m) \<Rightarrow> (Hang, set_node f (Leaf m) s))"
      "pool_inv L s" "held p f s" "settled s p f" "latched_only {f} s" "\<forall>q \<in> L. pool_view s q = pool_view self q"
      "node_at f s = Leaf m" "leaf_wf m" "leaf_map l = leaf_map m" "leaf_fits l = leaf_fits m" "links l = links m"
      "slot_records l = slot_records m" "alloc_ok L self \<Longrightarrow> alloc_ok L s"
proof -
  obtain r s where s: "fetch_page flush p self = (r, s)" by fastforce
  note fs = fetch_page_spec [OF inv p s]
  show thesis
  proof (cases "\<exists>f. r = Ok f")
    case False
    have e: "\<exists>r. insert_leaf_pool flush p k w lsn self = (r, s) \<and> (\<forall>x. r \<noteq> Ok x)" for k w lsn
      using s False by (cases r) (simp_all add: insert_leaf_pool_def)
    have "pool_inv L s" "\<forall>q \<in> L. pool_view s q = pool_view self q" using fs by (simp_all add: keeps_def)
    then show thesis by (rule failed [OF e])
  next
    case True
    then obtain f where f: "fetch_page flush p self = (Ok f, s)" using s by blast
    have la: "latched_only {} self" using nl by (simp add: no_latch_only)
    note fl = fetch_latch [OF inv p la _ f, simplified]
    let ?s = "set_latch f True s"
    have h: "held p f ?s" and view: "\<forall>q \<in> L. pool_view ?s q = pool_view self q" using fl by simp_all
    have "disk_form (node_at f ?s) = Leaf l" using held_view [OF h] view p v by simp
    then obtain m where m: "node_at f ?s = Leaf m" "leaf_map l = leaf_map m" "leaf_fits l = leaf_fits m"
      "leaf_wf l = leaf_wf m" "links l = links m" "slot_records l = slot_records m" by (rule disk_form_LeafD)
    have inv1: "pool_inv L ?s" using fl by simp
    have wf: "leaf_wf m" using held_node_wf [OF inv1 h] m(1) by simp
    have al: "alloc_ok L self \<Longrightarrow> alloc_ok L ?s" using fetch_page_header [OF f] by (simp add: alloc_ok_def)
    have run: "insert_leaf_pool flush p k w lsn self = leaving f
        (case insert_record k w m of
           (Ok _, m) \<Rightarrow> (Ok None, set_node f (mark_dirty lsn (Leaf m)) ?s)
         | (Err err, m) \<Rightarrow>
             if err = PageFull then split_leaf flush p k w lsn f (set_node f (Leaf m) ?s)
             else (Err err, set_node f (Leaf m) ?s)
         | (Panic p, m) \<Rightarrow> (Panic p, set_node f (Leaf m) ?s)
         | (Hang, m) \<Rightarrow> (Hang, set_node f (Leaf m) ?s))" for k w lsn
      using f fl m(1) by (simp add: insert_leaf_pool_def)
    show thesis
      by (rule entered [OF run inv1 h _ _ view m(1) wf m(2,3,5,6)]) (use fl al in simp_all)
  qed
qed

lemma insert_leaf_run:
  "insert_leaf flush p k w lsn t = (r, t') \<Longrightarrow>
   insert_leaf_pool flush p k w lsn (buffer_pool t) = (r, buffer_pool t') \<and> root_page_id t' = root_page_id t"
  by (auto simp: insert_leaf_def on_pool_def split: prod.splits)

text \<open>An error of the first insertion, other than a full page: nothing has changed.\<close>

lemma leave_unchanged:
  assumes "pool_inv L s" "held p f s" "settled s p f" "latched_only {f} s" "node_at f s = Leaf m"
  shows "pool_inv L (release f (set_node f (Leaf m) s))" "no_latch (release f (set_node f (Leaf m) s))"
    "pool_view (release f (set_node f (Leaf m) s)) q = pool_view s q"
proof -
  have same: "set_node f (Leaf m) s = s" using set_node_same [of f s] assms(5) by simp
  note rh = release_held [OF assms(1,2) disjI2 [OF assms(3)]]
  show "pool_inv L (release f (set_node f (Leaf m) s))" "no_latch (release f (set_node f (Leaf m) s))"
    "pool_view (release f (set_node f (Leaf m) s)) q = pool_view s q"
    unfolding same no_latch_only using rh(1,2) rh(5) [OF assms(4)] by simp_all
qed

lemma leaving_Ok: "leaving f X = (Ok x, s') \<longleftrightarrow> (\<exists>s. X = (Ok x, s) \<and> s' = release f s)"
  by (cases X) (auto simp: leaving_def)

lemma split_leaf_Some:
  assumes "split_leaf flush p k w lsn f s = (Ok x, s')"
  shows "x \<noteq> None"
proof -
  obtain n g s1 where s1: "new_page flush True s = (Ok (n, g), s1)"
    using assms by (auto simp: split_leaf_def then_do_eq_Ok)
  obtain r2 s2 where s2: "latch_write g s1 = (r2, s2)" by fastforce
  show ?thesis
  proof (cases "node_at f s2"; cases "node_at g s2"; cases r2)
    fix l r u assume lr: "node_at f s2 = Leaf l" "node_at g s2 = Leaf r" "r2 = Ok u"
    obtain q l1 r1 where si: "split_and_insert k w (l, r) = (q, (l1, r1))" by (metis surj_pair)
    obtain lw rw where "wire_siblings p n (l1, r1) = (lw, rw)" by fastforce
    with assms s1 s2 lr si show "x \<noteq> None"
      by (auto simp: split_leaf_def then_do_eq_Ok leaving_Ok Let_def)
  qed (use assms s1 s2 in \<open>auto simp: split_leaf_def leaving_def\<close>)
qed

lemma insert_in_place:
  assumes inv: "pool_inv L self" and nl: "no_latch self" and p: "p \<in> L" and v: "pool_view self p = Some (Leaf l)"
    and run: "insert_leaf_pool flush p k w lsn self = (r, self')"
  shows "r = Ok None \<Longrightarrow> leaf_map l k = None \<and> pool_inv L self' \<and> no_latch self' \<and>
      (\<exists>l'. pool_view self' p = Some (Leaf l') \<and> leaf_map l' = (leaf_map l)(k \<mapsto> w) \<and> last_lsn l' = lsn \<and>
        has_next l' = has_next l \<and> next_page_id l' = next_page_id l \<and> leaf_fits l') \<and>
      (\<forall>q \<in> L - {p}. pool_view self' q = pool_view self q)"
    and "leaf_map l k \<noteq> None \<or> MAX_VALUE_SIZE < length w \<Longrightarrow>
      (\<forall>x. r \<noteq> Ok x) \<and> pool_inv L self' \<and> (\<forall>q \<in> L. pool_view self' q = pool_view self q)"
proof -
  have good: "leaf_map l k = None \<and> pool_inv L self' \<and> no_latch self' \<and>
      (\<exists>l'. pool_view self' p = Some (Leaf l') \<and> leaf_map l' = (leaf_map l)(k \<mapsto> w) \<and> last_lsn l' = lsn \<and>
        has_next l' = has_next l \<and> next_page_id l' = next_page_id l \<and> leaf_fits l') \<and>
      (\<forall>q \<in> L - {p}. pool_view self' q = pool_view self q)"
    if s: "pool_inv L s" "held p f s" "latched_only {f} s" "\<forall>q \<in> L. pool_view s q = pool_view self q"
      "leaf_map l = leaf_map m" "links l = links m" and self': "self' = release f (set_node f (mark_dirty lsn (Leaf m')) s)"
      and ins: "insert_record k w m = (Ok (), m')" "leaf_map m k = None" "leaf_wf m'" "leaf_fits m'"
        "leaf_map m' = (leaf_map m)(k \<mapsto> w)" for f s m m'
  proof -
    let ?n = "mark_dirty lsn (Leaf m')"
    have "node_wf ?n" using ins(3) by (simp del: mark_dirty.simps)
    note wh = write_held [OF s(1,2) this]
    have h: "held p f (set_node f ?n s)" using wh(3) s(2) by simp
    have d: "node_is_dirty (node_at f (set_node f ?n s))" unfolding wh(4) by simp
    note rh = release_held [OF wh(1) h disjI1 [OF d]]
    have la: "latched_only (insert f {}) (set_node f ?n s)"
      using s(3) unfolding latched_only_def wh(5) by simp
    obtain l' where l': "disk_form ?n = Leaf l'" "leaf_map l' = leaf_map m'" "last_lsn l' = lsn" "leaf_fits l' = leaf_fits m'"
      "has_next l' = has_next m'" "next_page_id l' = next_page_id m'" by (rule marked_leaf)
    have lk: "has_next m' = has_next l" "next_page_id m' = next_page_id l"
      using insert_record_links [OF ins(1)] s(6) by (simp_all add: links_def)
    have "pool_view self' p = Some (Leaf l')" unfolding self' rh(2) wh(2) l'(1) by simp
    moreover have "pool_view self' q = pool_view self q" if "q \<in> L - {p}" for q
      using that s(4) unfolding self' rh(2) wh(2) by simp
    moreover have "no_latch self'" unfolding self' no_latch_only by (rule rh(5) [OF la])
    moreover have "pool_inv L self'" unfolding self' by (rule rh(1))
    ultimately show ?thesis using ins(2,4,5) l' lk s(5) by simp
  qed
  have cases: "(r = Ok None \<longrightarrow> leaf_map l k = None \<and> pool_inv L self' \<and> no_latch self' \<and>
      (\<exists>l'. pool_view self' p = Some (Leaf l') \<and> leaf_map l' = (leaf_map l)(k \<mapsto> w) \<and> last_lsn l' = lsn \<and>
        has_next l' = has_next l \<and> next_page_id l' = next_page_id l \<and> leaf_fits l') \<and>
      (\<forall>q \<in> L - {p}. pool_view self' q = pool_view self q)) \<and>
    (leaf_map l k \<noteq> None \<or> MAX_VALUE_SIZE < length w \<longrightarrow>
      (\<forall>x. r \<noteq> Ok x) \<and> pool_inv L self' \<and> (\<forall>q \<in> L. pool_view self' q = pool_view self q))"
  proof (cases rule: insert_enter [OF inv nl p v, where flush = flush])
    case (1 s)
    then show ?thesis using run by (metis Pair_inject)
  next
    case (2 f s m)
    note run2 = run [unfolded 2(1)]
    show ?thesis
    proof (cases rule: insert_record_cases [OF 2(8), of k w])
      case 1
      then have "r = Err (TupleTooLarge (length w))" "self' = release f (set_node f (Leaf m) s)"
        using run2 by (simp_all add: leaving_def)
      then show ?thesis using leave_unchanged [OF 2(2-5,7)] 2(6) by simp
    next
      case 2
      then have "r = Err (DuplicateKey k)" "self' = release f (set_node f (Leaf m) s)"
        using run2 by (simp_all add: leaving_def)
      then show ?thesis using leave_unchanged [OF \<open>pool_inv L s\<close> \<open>held p f s\<close> \<open>settled s p f\<close> \<open>latched_only {f} s\<close>
          \<open>node_at f s = Leaf m\<close>] \<open>\<forall>q \<in> L. pool_view s q = pool_view self q\<close> by simp
    next
      case 3
      then have "leaving f (split_leaf flush p k w lsn f (set_node f (Leaf m) s)) = (r, self')"
        using run2 by simp
      then have "r \<noteq> Ok None" using split_leaf_Some by (fastforce simp: leaving_def split: prod.splits)
      then show ?thesis using 3(2,5) 2(9) by simp
    next
      case (4 m')
      then have "r = Panic Unreachable" using run2 by (simp add: leaving_def)
      then show ?thesis using 4(2,5) 2(9) by simp
    next
      case (5 m')
      then have "r = Ok None" and self': "self' = release f (set_node f (mark_dirty lsn (Leaf m')) s)"
        using run2 by (simp_all add: leaving_def)
      then show ?thesis using good [OF 2(2,3,5,6,9,11) self' 5(1,2,5,6,8)] 5(2,9) 2(9) by simp
    next
      case (6 m')
      then have "r = Ok None" and self': "self' = release f (set_node f (mark_dirty lsn (Leaf m')) s)"
        using run2 by (simp_all add: leaving_def)
      then show ?thesis using good [OF 2(2,3,5,6,9,11) self' 6(1,2,5,6,8)] 6(2,9) 2(9) by simp
    qed
  qed
  show "r = Ok None \<Longrightarrow> leaf_map l k = None \<and> pool_inv L self' \<and> no_latch self' \<and>
      (\<exists>l'. pool_view self' p = Some (Leaf l') \<and> leaf_map l' = (leaf_map l)(k \<mapsto> w) \<and> last_lsn l' = lsn \<and>
        has_next l' = has_next l \<and> next_page_id l' = next_page_id l \<and> leaf_fits l') \<and>
      (\<forall>q \<in> L - {p}. pool_view self' q = pool_view self q)"
    and "leaf_map l k \<noteq> None \<or> MAX_VALUE_SIZE < length w \<Longrightarrow>
      (\<forall>x. r \<noteq> Ok x) \<and> pool_inv L self' \<and> (\<forall>q \<in> L. pool_view self' q = pool_view self q)"
    using cases by blast+
qed

lemma insert_splits:
  assumes inv: "pool_inv L self" and al: "alloc_ok L self" and nl: "no_latch self" and p: "p \<in> L"
    and v: "pool_view self p = Some (Leaf l)" and fits: "leaf_fits l"
    and right: "has_next l \<longrightarrow> next_page_id l \<in> L \<and> next_page_id l \<noteq> p"
    and run: "insert_leaf_pool flush p k w lsn self = (Ok (Some sr), self')"
  shows "leaf_map l k = None \<and> new_page_id sr \<notin> L \<and> pool_inv (insert (new_page_id sr) L) self' \<and>
    alloc_ok (insert (new_page_id sr) L) self' \<and> no_latch self' \<and>
    (\<exists>l' r'. split_done k w lsn p (new_page_id sr) (promoted_row_id sr) l l' r' \<and>
      pool_view self' p = Some (Leaf l') \<and> pool_view self' (new_page_id sr) = Some (Leaf r')) \<and>
    (\<forall>q \<in> L - {p}. pool_view self' q = (if has_next l \<and> q = next_page_id l
       then map_option (relinked (new_page_id sr) lsn) (pool_view self q) else pool_view self q))"
proof (cases rule: insert_enter [OF inv nl p v, where flush = flush])
  case (1 s)
  then show ?thesis using run by (metis Pair_inject)
next
  case (2 f s m)
  note run2 = run [unfolded 2(1)]
  show ?thesis
  proof (cases rule: insert_record_cases [OF 2(8), of k w])
    case 3
    have same: "set_node f (Leaf m) s = s" using set_node_same [of f s] 2(7) by simp
    obtain s2 where sl: "split_leaf flush p k w lsn f s = (Ok (Some sr), s2)" and self': "self' = release f s2"
      using run2 3(1) same by (auto simp: leaving_Ok)
    have fm: "leaf_fits m" and lk: "has_next m = has_next l" "next_page_id m = next_page_id l"
      "has_prev m = has_prev l" "prev_page_id m = prev_page_id l"
      using 2(10,11) fits by (simp_all add: links_def)
    have rm: "has_next m \<Longrightarrow> next_page_id m \<in> L \<and> next_page_id m \<noteq> p" using right lk by simp
    show ?thesis
    proof (rule split_leaf_Ok [OF 2(2) 2(13) [OF al] 2(3,5,7) fm rm sl])
      fix promoted n l' r'
      assume o: "Some sr = Some \<lparr>promoted_row_id = promoted, new_page_id = n\<rparr>" "n \<notin> L"
        "split_done k w lsn p n promoted m l' r'" "pool_inv (insert n L) s2" "alloc_ok (insert n L) s2" "held p f s2"
        "latched_only {f} s2" "node_is_dirty (node_at f s2)" "pool_view s2 p = Some (Leaf l')" "pool_view s2 n = Some (Leaf r')"
        "\<forall>q \<in> L - {p}. pool_view s2 q = (if has_next m \<and> q = next_page_id m
           then map_option (relinked n lsn) (pool_view s q) else pool_view s q)"
      have sr: "new_page_id sr = n" "promoted_row_id sr = promoted" using o(1) by simp_all
      note rh = release_held [OF o(4,6) disjI1 [OF o(8)]]
      have "no_latch self'" unfolding self' no_latch_only by (rule rh(5) [OF o(7)])
      moreover have "split_done k w lsn p n promoted l l' r'"
        using o(3) 2(9) lk by (simp add: split_done_def)
      moreover have "leaf_map l k = None" using 3(2) 2(9) by simp
      moreover have "pool_view self' q = (if has_next l \<and> q = next_page_id l
          then map_option (relinked n lsn) (pool_view self q) else pool_view self q)" if "q \<in> L - {p}" for q
        using bspec [OF o(11) that] that 2(6) lk unfolding self' rh(2) by auto
      ultimately show ?thesis using o(2,5,9,10) rh(1) unfolding sr self' rh(2) by auto
    qed
  qed (use run2 in \<open>auto simp: leaving_def split: if_splits\<close>)
qed

text \<open>
  A full page without a right neighbour whose split finds no room for the new record either: the
  page has lost its upper half, and nothing is marked dirty.
\<close>

lemma insert_full_cases:
  assumes inv: "pool_inv L self" and al: "alloc_ok L self" and nl: "no_latch self" and p: "p \<in> L"
    and v: "pool_view self p = Some (Leaf l)" and fits: "leaf_fits l" and last: "\<not> has_next l"
    and run: "insert_leaf_pool flush p k w lsn self = (Err PageFull, self')"
  obtains "pool_view self' p = pool_view self p"
  | f l' where "map_of (page_table self') p = Some f" "node_at f self' = Leaf l'" "leaf_wf l'"
      "\<exists>x. leaf_map l x \<noteq> None \<and> leaf_map l' x = None" "tracking self'" "f < length (heap self')"
      "distinct (map fst (page_table self'))" "no_latch self'"
proof (cases rule: insert_enter [OF inv nl p v, where flush = flush])
  case (1 s)
  have "self' = s" using run 1(1) by (metis Pair_inject)
  then show thesis using that(1) 1(3) p by simp
next
  case (2 f s m)
  note run2 = run [unfolded 2(1)]
  have viewp: "pool_view self p = Some (disk_form (Leaf m))" using held_view [OF 2(3)] 2(6,7) p by simp
  show thesis
  proof (cases rule: insert_record_cases [OF 2(8), of k w])
    case 3
    have same: "set_node f (Leaf m) s = s" using set_node_same [of f s] 2(7) by simp
    obtain s2 where sl: "split_leaf flush p k w lsn f s = (Err PageFull, s2)" and self': "self' = release f s2"
      using run2 3(1) same by (cases "split_leaf flush p k w lsn f s") (auto simp: leaving_def)
    obtain r3 s3 where s3: "new_page flush True s = (r3, s3)" by fastforce
    note np = new_page_spec [OF 2(2) 2(13) [OF al] s3]
    show thesis
    proof (cases "\<exists>x. r3 = Ok x")
      case False
      then have k3: "keeps L s s3" "s2 = s3" using np sl s3 by (cases r3; simp add: split_leaf_def)+
      then have "pool_view self' p = pool_view self p" using 2(6) p by (simp add: self' keeps_def)
      then show thesis by (rule that(1))
    next
      case True
      then obtain n g where r3: "new_page flush True s = (Ok (n, g), s3)" using s3 by auto
      let ?c = "set_latch g True s3"
      obtain b where c: "latch_write g s3 = (Ok (), ?c)" "n \<notin> L" "n \<noteq> p" "g \<noteq> f"
        "pool_inv (insert n L) ?c" "alloc_ok (insert n L) ?c" "held p f ?c" "held n g ?c" "latched_only {f, g} ?c"
        "node_at f ?c = Leaf (m\<lparr>is_dirty := b\<rparr>)" "node_at g ?c = Leaf (leaf_default\<lparr>page_id := n\<rparr>)"
        "\<forall>q \<in> L. pool_view ?c q = pool_view s q"
        by (rule new_sibling [OF 2(2) 2(13) [OF al] 2(3,5,7) r3])
      obtain r l1 r1 where si: "split_and_insert k w (m\<lparr>is_dirty := b\<rparr>, leaf_default\<lparr>page_id := n\<rparr>) = (r, (l1, r1))"
        by (metis surj_pair)
      have pre: "leaf_wf (m\<lparr>is_dirty := b\<rparr>)" "leaf_fits (m\<lparr>is_dirty := b\<rparr>)" "fresh_leaf (leaf_default\<lparr>page_id := n\<rparr>)"
        using 2(8,10) fits by (simp_all add: fresh_leaf_def leaf_default_def)
      obtain lw' rw' where wire: "wire_siblings p n (l1, r1) = (lw', rw')" by fastforce
      let ?raw = "set_node g (Leaf r1) (set_node f (Leaf l1) ?c)"
      have full: "r = Err PageFull" "s2 = release g ?raw"
      proof -
        have "\<not> has_next l1" if "r = Ok q" for q
          using split_and_insert_Ok [OF pre si [unfolded that]] 2(11) last by (simp add: links_def)
        then show "r = Err PageFull" "s2 = release g ?raw"
          using sl r3 c(1,10,11) si wire by (cases r; simp add: split_leaf_def leaving_def Let_def)+
      qed
      note lost = split_and_insert_full [OF pre si [unfolded full(1)]]
      have lt: "f < length (heap ?c)" "g < length (heap ?c)"
        by (rule held_frame [OF c(5,7)], rule held_frame [OF c(5,8)])
      have "node_at f self' = Leaf l1"
        using lt c(4) by (simp add: self' full(2) node_at_set)
      moreover have "map_of (page_table self') p = Some f" using c(7) by (simp add: self' full(2) held_def)
      moreover have "\<exists>x. leaf_map l x \<noteq> None \<and> leaf_map l1 x = None" using lost 2(9) by simp
      moreover have "tracking self'" "distinct (map fst (page_table self'))"
        using c(5) by (simp_all add: self' full(2) pool_inv_def tracking_def table_wf_def)
      moreover have "f < length (heap self')"
        using lt by (simp add: self' full(2) release_def drop_frame_def set_latch_def)
      moreover have "no_latch self'"
      proof -
        have "latches ?raw = latches ?c" by (rule nth_equalityI) (simp_all add: latches_nth)
        then have "latched_only {f, g} ?raw" using c(9) by (simp add: latched_only_def)
        then have "latched_only {f} (release g ?raw)" by (intro release_latched_only) (simp add: insert_commute)
        then show ?thesis unfolding self' full(2) no_latch_only by (rule release_latched_only)
      qed
      ultimately show thesis using that(2) lost by blast
    qed
  qed (use run2 in \<open>auto simp: leaving_def split: if_splits\<close>)
qed

end
