(* ===== verification/Recovery.thy ===== *)
theory Recovery
  imports Buffer_Pool
begin

text \<open>
  \<open>RecoveryEngine\<close> of \<open>src/storage/recovery.rs\<close>: at startup the log is read and its entries
  are applied to the pages that do not bear them yet; then the pages are flushed and the log is
  truncated. A log manager and a buffer pool are threaded as a pair.
\<close>

definition apply_entry :: "btree_node \<Rightarrow> wal_entry \<Rightarrow> unit result \<times> btree_node" where
  "apply_entry node entry =
     (case opcode entry of
        Insert \<Rightarrow> (case node of
            Leaf n \<Rightarrow> (case insert_record (wal_row_id entry) (payload entry) n of (r, n) \<Rightarrow> (r, Leaf n))
          | Internal n \<Rightarrow> (Err (CorruptPage ApplyOnInternal), node))
      | Update \<Rightarrow> (case node of
            Leaf n \<Rightarrow> (case update_record (wal_row_id entry) (payload entry) n of (r, n) \<Rightarrow> (r, Leaf n))
          | Internal n \<Rightarrow> (Err (CorruptPage ApplyOnInternal), node))
      | Delete \<Rightarrow> (case node of
            Leaf n \<Rightarrow> (case delete_record (wal_row_id entry) n of (r, n) \<Rightarrow> (r, Leaf n))
          | Internal n \<Rightarrow> (Err (CorruptPage ApplyOnInternal), node)))"

text \<open>
  The body of the replay loop: fetch, latch, skip or apply and mark, and let go of the frame at the
  end of the block, on the early exits too.
\<close>

definition replay_entry :: "'w flush_fn \<Rightarrow> wal_entry \<Rightarrow> 'w buffer_pool \<Rightarrow> unit result \<times> 'w buffer_pool" where
  "replay_entry flush entry pool =
     then_do (fetch_page flush (wal_page_id entry) pool) (\<lambda>frame pool.
     then_do (latch_write frame pool) (\<lambda>_ pool.
       if wal_lsn entry \<le> get_last_lsn (node_at frame pool) then (Ok (), release frame pool)
       else case apply_entry (node_at frame pool) entry of
          (Ok _, node) \<Rightarrow> (Ok (), release frame (set_node frame (mark_dirty (wal_lsn entry) node) pool))
        | (Err e, node) \<Rightarrow> (Err e, release frame (set_node frame node pool))
        | (Panic p, node) \<Rightarrow> (Panic p, release frame (set_node frame node pool))
        | (Hang, node) \<Rightarrow> (Hang, set_node frame node pool)))"

primrec replay_loop :: "'w flush_fn \<Rightarrow> wal_entry list \<Rightarrow> u64 \<Rightarrow> 'w buffer_pool \<Rightarrow> u64 result \<times> 'w buffer_pool" where
  "replay_loop flush [] max_observed_lsn pool = (Ok max_observed_lsn, pool)"
| "replay_loop flush (entry # batch) max_observed_lsn pool =
     then_do (replay_entry flush entry pool) (\<lambda>_ pool.
       replay_loop flush batch (max max_observed_lsn (wal_lsn entry)) pool)"

definition replay :: "'w flush_fn \<Rightarrow> wal_entry list \<Rightarrow> 'w buffer_pool \<Rightarrow> u64 result \<times> 'w buffer_pool" where
  "replay flush batch pool =
     then_do (replay_loop flush batch 0 pool) (\<lambda>mx pool.
     then_do (flush_all_pages flush pool) (\<lambda>_ pool. (Ok mx, pool)))"

definition recover :: "'w flush_fn \<Rightarrow> wal_manager \<times> 'w buffer_pool \<Rightarrow> u64 result \<times> (wal_manager \<times> 'w buffer_pool)" where
  "recover flush st =
     then_do (on_fst read_batch st) (\<lambda>batch st.
       if batch = [] then (Ok (flushed_lsn (fst st)), st)
       else then_do (on_snd (replay flush batch) st) (\<lambda>mx st.
            then_do (on_fst wal_truncate st) (\<lambda>_ st.
            then_do (on_fst explicit_sync st) (\<lambda>_ st. (Ok mx, st)))))"

text \<open>\<open>init\<close>: the state is the log file and the pool; the manager lives for the call only.\<close>

definition recovery_init :: "'w flush_fn \<Rightarrow> os_file \<times> 'w buffer_pool \<Rightarrow> u64 result \<times> (os_file \<times> 'w buffer_pool)" where
  "recovery_init flush st =
     (case wal_open (fst st) False of
        (Ok wal, f) \<Rightarrow> (case recover flush (wal, snd st) of (r, (wal, pool)) \<Rightarrow> (r, (wal_file wal, pool)))
      | (Err e, f) \<Rightarrow> (Err e, (f, snd st))
      | (Panic p, f) \<Rightarrow> (Panic p, (f, snd st))
      | (Hang, f) \<Rightarrow> (Hang, (f, snd st)))"

end
