(* ===== verification/Pool_Crash.thy ===== *)
theory Pool_Crash
  imports Pool_Props
begin

text \<open>
  The buffer pool across a crash and on failing devices: a full flush is a checkpoint from which
  every page is recovered; a page that was created and never marked dirty is not; an eviction
  whose flush fails takes its page out of the replacer for good.
\<close>

section \<open>Reopening the database\<close>

lemma checkpoint_reopens:
  assumes inv: "pool_inv L self" and run: "flush_all_pages flush self = (Ok (), self')"
    and alone: "\<forall>p f. map_of (page_table self) p = Some f \<longrightarrow> strong (heap self ! f) = 1"
    and g: "content g = durable (db_file (pool_disk self'))" "io_plan g = []"
  shows "\<exists>e. disk_open g = (Ok e, g) \<and> header e = header (pool_disk self) \<and>
    (\<forall>p \<in> L. pool_view (pool_new e c w) p = pool_view self p) \<and> pool_inv L (pool_new e c w)"
proof -
  note fa = flush_all_pages_spec [OF inv run]
  have inv': "pool_inv L self'" and sh: "same_shape self self'" using fa by simp_all
  obtain s1 where s1: "flush_pages flush (map fst (page_table self)) self = (Ok (), s1)"
    and hd: "save_header (pool_disk s1) = (Ok (), pool_disk self')"
    using run by (fastforce simp: flush_all_pages_def then_do_eq_Ok on_disk_fields)
  obtain e where e: "disk_open g = (Ok e, g)" "header e = header (pool_disk s1)"
    and pages: "\<And>q y. page_offset q \<Longrightarrow> disk_page (pool_disk s1) q = Some y \<Longrightarrow> disk_page e q = Some y"
    using reopen_saved [OF hd g] by blast
  have h1: "header (pool_disk s1) = header (pool_disk self)" by (rule flush_pages_header [OF s1])
  note fp = flush_pages_spec [OF inv s1]
  have i1: "pool_inv L s1" and sh1: "same_shape self s1" using fp by simp_all
  have c1: "contents_ok L s1" using i1 by (simp add: pool_inv_def)
  have view1: "disk_view s1 p = pool_view self p" if p: "p \<in> L" for p
  proof -
    have k: "pool_view s1 p = pool_view self p" using fp p by (simp add: keeps_def)
    show ?thesis
    proof (cases "map_of (page_table s1) p")
      case None
      then show ?thesis using k by (simp add: pool_view_def)
    next
      case (Some f)
      then have f: "map_of (page_table self) p = Some f" using sh1 by (simp add: same_shape_def)
      have "p \<in> set (map fst (page_table self))" using map_of_SomeD [OF f] by force
      then have "\<not> node_is_dirty (node_at f s1)" using fp f by blast
      moreover have "strong (heap s1 ! f) = 1" using alone f sh1 by (simp add: same_shape_def)
      ultimately have "disk_view s1 p = Some (disk_form (node_at f s1))"
        using c1 map_of_SomeD [OF Some] by (auto simp: contents_ok_def)
      then show ?thesis using k Some by (simp add: pool_view_def)
    qed
  qed
  have st: "disk.stored e q = Some m" if po: "page_offset q" and sq: "disk.stored (pool_disk s1) q = Some m" for q m
  proof -
    obtain y where "disk_page (pool_disk s1) q = Some y" using sq
      by (cases "disk_page (pool_disk s1) q") (auto simp: disk.stored_def)
    with pages [OF po] sq show ?thesis by (simp add: disk.stored_def)
  qed
  have pd: "pool_disk (pool_new e c w) = e" "page_table (pool_new e c w) = []" by (simp_all add: pool_new_def)
  have view: "disk_view (pool_new e c w) p = pool_view self p" if p: "p \<in> L" for p
  proof -
    obtain n where n: "pool_view self p = Some n" using pool_view_ok [OF inv p] by blast
    have "page_offset p" using c1 p by (simp add: contents_ok_def)
    moreover obtain m where "disk.stored (pool_disk s1) p = Some m" "disk_form m = n"
      using view1 [OF p] n by (auto simp: disk_view_def)
    ultimately show ?thesis using st n by (simp add: disk_view_def pd)
  qed
  have "contents_ok L (pool_new e c w)"
    unfolding contents_ok_def pd
  proof (intro conjI ballI)
    show "page_offset p" if "p \<in> L" for p using c1 that by (simp add: contents_ok_def)
    show "p \<notin> fst ` set [] \<longrightarrow> (\<exists>n. disk_view (pool_new e c w) p = Some n \<and> node_wf n)" if "p \<in> L" for p
      using view [OF that] pool_view_ok [OF inv that] by auto
  qed auto
  then have "pool_inv L (pool_new e c w)"
    using pool_inv_new(1) [of e c w] by (simp add: pool_inv_def)
  moreover have "pool_view (pool_new e c w) p = pool_view self p" if "p \<in> L" for p
    using view [OF that] by (simp add: pool_view_def pd)
  ultimately show ?thesis using e h1 by auto
qed

text \<open>The sample page, dirty, written by its holder who then let it go.\<close>

definition released_pool :: "wal_manager buffer_pool" where
  "released_pool = put_cell 0 \<lparr>frame_node = mark_dirty 3 (new_empty 4096 True), strong = 1, write_latched = False\<rparr>
     sample_page_pool"

lemma released_pool:
  shows "pool_inv {4096} released_pool" "map_of (page_table released_pool) 4096 = Some 0"
    "\<And>p f. map_of (page_table released_pool) p = Some f \<Longrightarrow> p = 4096 \<and> f = 0"
    "heap released_pool ! 0 = \<lparr>frame_node = mark_dirty 3 (new_empty 4096 True), strong = 1, write_latched = False\<rparr>"
proof -
  note sp = sample_page
  show i: "pool_inv {4096} released_pool"
    unfolding released_pool_def using new_empty_wf [of 4096 True]
    by (intro put_cell_spec(1) [OF sp(2,4)]) (simp add: cell_ok_def)
  show m: "map_of (page_table released_pool) 4096 = Some 0" using sp(4) by (simp add: released_pool_def)
  show "p = 4096 \<and> f = 0" if "map_of (page_table released_pool) p = Some f" for p f
  proof -
    have "p \<in> {4096}" using i map_of_SomeD [OF that] by (force simp: pool_inv_def contents_ok_def)
    then show ?thesis using m that by simp
  qed
  show "heap released_pool ! 0 = \<lparr>frame_node = mark_dirty 3 (new_empty 4096 True), strong = 1, write_latched = False\<rparr>"
    using sp(8) by (simp add: released_pool_def put_cell_nth)
qed

lemma read_page_past_end:
  assumes "length (content (db_file d)) < unat p + PAGE_SIZE"
  shows "\<exists>k. fst (read_page p d) = Err (Io k) \<and>
    (io_plan (db_file d) = [] \<and> unat p + PAGE_SIZE < 2 ^ 63 \<longrightarrow> k = UnexpectedEof)"
proof (cases rule: io_step_cases [of "db_file d"])
  case 1
  then show ?thesis using assms by (simp add: read_page_def read_exact_at_def offset_ok_def)
next
  case (2 x ps)
  then show ?thesis using assms by (cases x) (simp_all add: read_page_def read_exact_at_def offset_ok_def)
qed

section \<open>Properties\<close>

text \<open>
  C9:
  \<open>flush_all_pages\<close> is a checkpoint. When it answers \<open>Ok\<close> and no frame is held outside the pool, a
  crash that leaves only the durable bytes of the database file loses nothing: the file opens with
  the header of the pool, and a new pool over it presents every page as it was.
\<close>

theorem flush_all_survives_crash:
  assumes "pool_inv L self" "flush_all_pages flush self = (Ok (), self')"
    and "\<forall>p f. map_of (page_table self) p = Some f \<longrightarrow> strong (heap self ! f) = 1"
    and "content g = durable (db_file (pool_disk self'))" "io_plan g = []"
  shows "\<exists>e. disk_open g = (Ok e, g) \<and> header e = header (pool_disk self) \<and>
    (\<forall>p \<in> L. pool_view (pool_new e c w) p = pool_view self p)"
  using checkpoint_reopens [OF assms] by blast

lemma flush_all_reliable:
  assumes inv: "pool_inv L self" and rel: "reliable self" and small: "\<forall>p \<in> L. unat p + PAGE_SIZE < 2 ^ 63"
    and un: "\<forall>p f. map_of (page_table self) p = Some f \<longrightarrow> \<not> write_latched (heap self ! f)"
    and fits: "\<forall>p f. map_of (page_table self) p = Some f \<longrightarrow> node_fits (node_at f self)"
  obtains self' where "flush_all_pages flush_upto self = (Ok (), self')" "reliable self'"
proof -
  have loop: "\<exists>s. flush_pages flush_upto ps t = (Ok (), s) \<and> reliable s"
    if "pool_inv L t" "reliable t" "same_shape self t" "set ps \<subseteq> L" for ps t
    using that
  proof (induction ps arbitrary: t)
    case (Cons p ps)
    have "\<not> write_latched (heap t ! f)" if "map_of (page_table t) p = Some f" for f
      using that un Cons.prems(3) by (simp add: same_shape_def)
    moreover have "node_fits (node_at f t)" if "map_of (page_table t) p = Some f" for f
    proof -
      have "node_at f t \<in> {node_at f self, clear_dirty (node_at f self)}"
        "map_of (page_table self) p = Some f" using that Cons.prems(3) by (simp_all add: same_shape_def)
      then show ?thesis using fits by auto
    qed
    ultimately obtain t1 where t1: "flush_page flush_upto p t = (Ok (), t1)" "reliable t1"
      using flush_page_reliable [OF Cons.prems(1,2), of p] small Cons.prems(4) by auto
    have fp: "pool_inv L t1" "same_shape self t1"
      using flush_page_spec [OF Cons.prems(1) t1(1)] same_shape_trans [OF Cons.prems(3)] by auto
    from Cons.IH [OF fp(1) t1(2) fp(2)] Cons.prems(4) t1(1) show ?case by auto
  qed simp
  have keys: "set (map fst (page_table self)) \<subseteq> L" using inv by (simp add: pool_inv_def contents_ok_def)
  obtain s where s: "flush_pages flush_upto (map fst (page_table self)) self = (Ok (), s)" "reliable s"
    using loop [OF inv rel same_shape_refl keys] by blast
  have "\<exists>d. save_header (pool_disk s) = (Ok (), d) \<and> io_plan (db_file d) = []"
    using s(2) by (simp add: save_header_def write_all_at_def sync_all_def offset_ok_def reliable_def)
  then obtain d where "save_header (pool_disk s) = (Ok (), d)" "io_plan (db_file d) = []" by blast
  then show thesis using that [of "s\<lparr>pool_disk := d\<rparr>"] s
    by (simp add: flush_all_pages_def on_disk_def reliable_def)
qed

lemma released_reliable: "reliable released_pool"
  by (simp add: reliable_def released_pool_def sample_page(9))
    (simp add: sample_page_pool_def sample_pool_def new_page_def
        make_room_def pool_new_def on_disk_def allocate_page_def fresh_disk_def file_header_default_def new_file_def
        touch_def install_def record_access_def lru_new_def new_slot_def insert_head_def set_prev_def set_next_def
        index_def clone_frame_def Let_def size_consts)

theorem flush_all_survives_crash_witness:
  "\<exists>self' e. flush_all_pages flush_upto released_pool = (Ok (), self') \<and>
     disk_open ((db_file (pool_disk self'))\<lparr>content := durable (db_file (pool_disk self')), io_plan := []\<rparr>) =
       (Ok e, (db_file (pool_disk self'))\<lparr>content := durable (db_file (pool_disk self')), io_plan := []\<rparr>) \<and>
     pool_view (pool_new e 2 (None :: wal_manager option)) 4096 = Some (disk_form (mark_dirty 3 (new_empty 4096 True)))"
proof -
  have un: "\<forall>p f. map_of (page_table released_pool) p = Some f \<longrightarrow> \<not> write_latched (heap released_pool ! f)"
    and one: "\<forall>p f. map_of (page_table released_pool) p = Some f \<longrightarrow> strong (heap released_pool ! f) = 1"
    using released_pool(3,4) by fastforce+
  have fits: "\<forall>p f. map_of (page_table released_pool) p = Some f \<longrightarrow> node_fits (node_at f released_pool)"
    using released_pool(3,4) new_empty_fits by (fastforce simp: node_at_def)
  obtain self' where run: "flush_all_pages flush_upto released_pool = (Ok (), self')"
    using flush_all_reliable [OF released_pool(1) released_reliable _ un fits] by (auto simp: size_consts)
  let ?g = "(db_file (pool_disk self'))\<lparr>content := durable (db_file (pool_disk self')), io_plan := []\<rparr>"
  have g: "content ?g = durable (db_file (pool_disk self'))" "io_plan ?g = []" by simp_all
  obtain e where e: "disk_open ?g = (Ok e, ?g)"
    "\<forall>p \<in> {4096}. pool_view (pool_new e 2 (None :: wal_manager option)) p = pool_view released_pool p"
    using flush_all_survives_crash [OF released_pool(1) run one g] by blast
  have "pool_view released_pool 4096 = Some (disk_form (mark_dirty 3 (new_empty 4096 True)))"
    using pool_view_mapped [OF released_pool(2)] released_pool(4) by (simp add: node_at_def)
  with e run show ?thesis by auto
qed



text \<open>A pool whose only page is cached and not tracked; it can be brought back by a fetch of it only.\<close>

definition wedged :: "page_id set \<Rightarrow> page_id \<Rightarrow> 'w buffer_pool \<Rightarrow> bool" where
  "wedged L p self \<longleftrightarrow> pool_inv L self \<and> pool_capacity self = 1 \<and> recency (pool_replacer self) [] \<and>
     fst ` set (page_table self) = {p} \<and> length (page_table self) = 1"

lemma wedged_same_shape: "wedged L p self \<Longrightarrow> same_shape self self' \<Longrightarrow> pool_inv L self' \<Longrightarrow> wedged L p self'"
  by (simp add: wedged_def same_shape_def)

lemma wedged_make_room:
  assumes "wedged L p self"
  shows "make_room flush self = (Err LruEviction, self)"
proof -
  have "recency (pool_replacer self) []" using assms by (simp add: wedged_def)
  from lru.evict_law [OF this, of "evictable self" "\<lambda>_. True"]
  have "evict_if (evictable self) (pool_replacer self) = Ok (None, pool_replacer self)" by simp
  then show ?thesis using assms by (simp add: make_room_def evict_page_def wedged_def)
qed

lemma wedged_refuses:
  assumes "wedged L p self"
  shows "q \<noteq> p \<Longrightarrow> fetch_page flush q self = (Err LruEviction, self)"
    and "new_page flush b self = (Err LruEviction, self)"
proof -
  assume "q \<noteq> p"
  then have "map_of (page_table self) q = None" using assms by (auto simp: wedged_def map_of_eq_None_iff)
  then show "fetch_page flush q self = (Err LruEviction, self)"
    using wedged_make_room [OF assms] by (simp add: fetch_page_def)
next
  show "new_page flush b self = (Err LruEviction, self)"
    using wedged_make_room [OF assms] by (simp add: new_page_def)
qed

lemma wedged_calls:
  "wedged L p self \<Longrightarrow> Fetch p \<notin> set cs \<Longrightarrow> wedged L p (pool_calls flush cs self)"
proof (induction cs arbitrary: self)
  case (Cons c cs)
  have inv: "pool_inv L self" using Cons.prems(1) by (simp add: wedged_def)
  have "wedged L p (snd (pool_call_run flush c self))"
  proof (cases c)
    case (Fetch q)
    then show ?thesis using wedged_refuses(1) [OF Cons.prems(1), of q flush] Cons.prems by auto
  next
    case (NewPage b)
    then show ?thesis using wedged_refuses(2) [OF Cons.prems(1), of flush b] Cons.prems(1) by simp
  next
    case (Flush q)
    obtain r s where s: "flush_page flush q self = (r, s)" by fastforce
    then show ?thesis using flush_page_spec [OF inv s] wedged_same_shape [OF Cons.prems(1)] Flush by simp
  next
    case FlushAll
    obtain r s where s: "flush_all_pages flush self = (r, s)" by fastforce
    then show ?thesis using flush_all_pages_spec [OF inv s] wedged_same_shape [OF Cons.prems(1)] FlushAll by simp
  qed
  then show ?case using Cons by simp
qed simp

lemma recency_untracked: "recency r ps \<Longrightarrow> map_of (pages r) p = None \<longleftrightarrow> p \<notin> set ps"
proof -
  assume "recency r ps"
  then obtain xs where xs: "ps = map (page_of r) xs" "set (pages r) = (\<lambda>i. (page_of r i, i)) ` set xs"
    by (auto simp: recency_def lru_rep_def lru_slots_def)
  have "fst ` set (pages r) = set ps" unfolding xs by (simp add: image_image)
  then show ?thesis by (simp add: map_of_eq_None_iff)
qed

lemma failed_eviction:
  assumes inv: "pool_inv L self" and ei: "evict_if (evictable self) (pool_replacer self) = Ok (Some p, rp)"
    and run: "evict_page flush self = (Err e, self')"
  obtains ps f where "pool_inv L self'" "page_table self' = page_table self" "map_of (page_table self') p = Some f"
    "pool_capacity self' = pool_capacity self"
    "recency (pool_replacer self') ps" "set ps \<subseteq> fst ` set (page_table self) - {p}"
proof (cases rule: tracking_evict [OF inv])
  case 1
  then show thesis using ei by simp
next
  case (2 v f rp' ps)
  then have v: "v = p" "rp' = rp" using ei by simp_all
  note ep = evict_page_spec [OF inv run]
  let ?s = "self\<lparr>pool_replacer := rp\<rparr>"
  have sub: "set ps \<subseteq> fst ` set (page_table self)" using 2(5) by blast
  note rs = replacer_step [OF inv 2(4) sub 2(6)]
  obtain r1 s1 where s1: "flush_page flush p ?s = (r1, s1)" by fastforce
  have sh: "pool_replacer s1 = rp"
    using flush_page_spec [OF rs(1) [unfolded v(2)] s1] by (simp add: same_shape_def)
  have "self' = s1" using run 2(1) s1 v by (cases r1) (auto simp: evict_page_def)
  then have "recency (pool_replacer self') ps" using 2(4) sh v(2) by simp
  then show thesis using that ep 2(2,5) v by (simp add: keeps_def)
qed

lemma fetch_cached_tracks:
  assumes inv: "pool_inv L self" and f: "map_of (page_table self) p = Some f"
  obtains self' where "fetch_page flush p self = (Ok f, self')" "map_of (pages (pool_replacer self')) p \<noteq> None"
proof -
  obtain rp where rp: "touch p self = (Ok (), self\<lparr>pool_replacer := rp\<rparr>)"
    by (rule touch_spec [OF inv f])
  obtain ps where ps: "recency (pool_replacer self) ps" using inv by (auto simp: pool_inv_def tracking_def)
  have ra: "record_access p (pool_replacer self) = Ok rp"
    using rp by (auto simp: touch_def dest!: arg_cong [where f = pool_replacer] split: result.splits)
  have "recency rp (p # removeAll p ps)"
    by (cases rule: lru.touch_cases [OF ps, of p]) (use ra in auto)
  then have "map_of (pages rp) p \<noteq> None" using recency_untracked by fastforce
  then show thesis
    using that [of "clone_frame f (self\<lparr>pool_replacer := rp\<rparr>)"] f rp
    by (simp add: fetch_page_def) (simp add: clone_frame_def)
qed


text \<open>A flusher that always fails, and a pool of one dirty page that nobody holds.\<close>

definition broken_flush :: "unit flush_fn" where
  "broken_flush lsn w = (Err (Io OtherIo), w)"

lemma one_frame_pool:
  obtains s where "pool_inv {4096} s" "pool_capacity s = 1" "map_of (page_table s) 8192 = None"
    "evict_if (evictable s) (pool_replacer s) = Ok (Some 4096, lru_new 1\<lparr>arena := arena (pool_replacer s), free_list := [0]\<rparr>)"
    "fst (evict_page broken_flush s) = Err (Io OtherIo)"
proof -
  let ?n = "new_empty 4096 True"
  define s0 where "s0 = snd (new_page broken_flush True (pool_new fresh_disk 1 (Some ())))"
  have run: "new_page broken_flush True (pool_new fresh_disk 1 (Some ())) = (Ok (4096, 0), s0)"
    and s0: "s0 = \<lparr>pool_disk = fresh_disk\<lparr>header := file_header_default\<lparr>next_free_offset := 8192\<rparr>\<rparr>,
      pool_replacer = (lru_new 1)\<lparr>pages := [(4096, 0)], arena := [\<lparr>node_prev = None, node_page = 4096, node_next = None\<rparr>],
        head_idx := Some 0, tail_idx := Some 0\<rparr>, page_table = [(4096, 0)], pool_capacity = 1, pool_flusher = Some (),
      heap = [\<lparr>frame_node = ?n, strong = 2, write_latched = False\<rparr>]\<rparr>"
    unfolding s0_def by (simp_all add: new_page_def make_room_def pool_new_def on_disk_def allocate_page_def
      fresh_disk_def file_header_default_def new_file_def touch_def install_def record_access_def lru_new_def
      new_slot_def insert_head_def set_prev_def set_next_def index_def clone_frame_def Let_def size_consts)
  have "page_offset (next_free_offset (header fresh_disk))"
    by (simp add: page_offset_def fresh_disk_def file_header_default_def size_consts)
  then have "alloc_ok {} (pool_new fresh_disk 1 (Some ()))" by (simp add: pool_inv_new)
  from new_page_spec [OF pool_inv_new(1) this run] have i0: "pool_inv {4096} s0"
    and m0: "map_of (page_table s0) 4096 = Some 0" by auto
  define s where "s = put_cell 0 \<lparr>frame_node = mark_dirty 3 ?n, strong = 1, write_latched = False\<rparr> s0"
  have "pool_inv {4096} s"
    unfolding s_def using new_empty_wf [of 4096 True]
    by (intro put_cell_spec(1) [OF i0 m0]) (simp add: cell_ok_def)
  moreover have "pool_capacity s = 1" "map_of (page_table s) 8192 = None"
    by (simp_all add: s_def s0)
  moreover have ev: "evict_if (evictable s) (pool_replacer s) =
      Ok (Some 4096, lru_new 1\<lparr>arena := arena (pool_replacer s), free_list := [0]\<rparr>)"
    by (simp add: s_def s0 put_cell_def evict_if_def evictable_def drop_node_def unlink_def index_def lru_new_def Let_def)
  moreover have "fst (evict_page broken_flush s) = Err (Io OtherIo)"
    using ev by (simp add: evict_page_def)
      (simp add: s_def s0 put_cell_def flush_page_def node_at_def flush_wal_def broken_flush_def)
  ultimately show thesis by (rule that)
qed


end
