(* ===== verification/Recovery_Spec.thy ===== *)
theory Recovery_Spec
  imports Recovery Pool_Client Pool_Crash
begin

text \<open>
  What recovery has to do, on pages seen as a log sequence number and a map of live records: redo
  each entry that the page does not bear yet. Then the lemmas by which the replay loop does it.
\<close>

section \<open>Redo\<close>

type_synonym page_state = "u64 \<times> (u64 \<rightharpoonup> u8 list)"

definition entry_op :: "wal_entry \<Rightarrow> store_op" where
  "entry_op e = (case opcode e of Insert \<Rightarrow> PutOp (wal_row_id e) (payload e)
     | Update \<Rightarrow> SetOp (wal_row_id e) (payload e) | Delete \<Rightarrow> DelOp (wal_row_id e))"

definition redo :: "wal_entry \<Rightarrow> page_state \<Rightarrow> page_state" where
  "redo e = (\<lambda>(lsn, m). if wal_lsn e \<le> lsn then (lsn, m) else (wal_lsn e, map_op (entry_op e) m))"

definition redo_page :: "wal_entry \<Rightarrow> (page_id \<Rightarrow> page_state) \<Rightarrow> (page_id \<Rightarrow> page_state)" where
  "redo_page e st = st(wal_page_id e := redo e (st (wal_page_id e)))"

definition redo_all :: "wal_entry list \<Rightarrow> (page_id \<Rightarrow> page_state) \<Rightarrow> (page_id \<Rightarrow> page_state)" where
  "redo_all es = fold redo_page es"

lemma redo_all_simps [simp]:
  "redo_all [] st = st" "redo_all (e # es) st = redo_all es (redo_page e st)"
  "redo_all (es @ fs) st = redo_all fs (redo_all es st)"
  by (simp_all add: redo_all_def)

text \<open>A page only sees its own entries.\<close>

lemma redo_all_at: "redo_all es st p = fold redo (filter (\<lambda>e. wal_page_id e = p) es) (st p)"
  by (induction es arbitrary: st) (auto simp: redo_page_def)

lemma redo_all_cong:
  assumes "\<forall>p \<in> L. st p = st' p"
  shows "\<forall>p \<in> L. redo_all es st p = redo_all es st' p"
  using assms by (simp add: redo_all_at)

text \<open>The number of a page covers every entry that was redone on it, and never falls.\<close>

lemma redo_lsn: "fst (redo e x) = max (fst x) (wal_lsn e)"
  by (cases x) (auto simp: redo_def)

lemma fold_redo_lsn: "fst x \<le> fst (fold redo es x) \<and> (\<forall>e \<in> set es. wal_lsn e \<le> fst (fold redo es x))"
proof (induction es arbitrary: x)
  case (Cons e es)
  from Cons [of "redo e x"] show ?case by (auto simp: redo_lsn)
qed simp

lemma redo_skip: "wal_lsn e \<le> fst x \<Longrightarrow> redo e x = x"
  by (cases x) (simp add: redo_def)

lemma fold_redo_skip: "\<forall>e \<in> set es. wal_lsn e \<le> fst x \<Longrightarrow> fold redo es x = x"
  by (induction es) (auto simp: redo_skip)

text \<open>Redoing a log over pages that bear any prefix of it each completes it.\<close>

lemma redo_resumes:
  assumes "st p = redo_all (take k es) st0 p"
  shows "redo_all es st p = redo_all es st0 p"
proof -
  let ?on = "filter (\<lambda>e. wal_page_id e = p)"
  have split: "?on es = ?on (take k es) @ ?on (drop k es)" by (metis append_take_drop_id filter_append)
  have "fold redo (?on (take k es)) (st p) = st p"
    using fold_redo_lsn [where es = "?on (take k es)" and x = "st0 p"]
    by (intro fold_redo_skip) (simp add: assms redo_all_at)
  then show ?thesis unfolding redo_all_at split by (simp add: assms redo_all_at)
qed

section \<open>The pages of a pool\<close>

primrec node_map :: "btree_node \<Rightarrow> (u64 \<rightharpoonup> u8 list)" where
  "node_map (Leaf l) = leaf_map l"
| "node_map (Internal n) = Map.empty"

definition node_state :: "btree_node \<Rightarrow> page_state" where
  "node_state n = (get_last_lsn n, node_map n)"

definition page_state :: "'w buffer_pool \<Rightarrow> page_id \<Rightarrow> page_state" where
  "page_state pool p = (case pool_view pool p of None \<Rightarrow> (0, Map.empty) | Some n \<Rightarrow> node_state n)"

lemma node_state_simps [simp]:
  "node_map (disk_form n) = node_map n" "node_state (disk_form n) = node_state n"
  "node_state (mark_dirty lsn n) = (lsn, node_map n)" "node_map (mark_dirty lsn n) = node_map n"
  by (cases n; simp add: node_state_def)+

lemma page_state_mapped:
  "map_of (page_table pool) p = Some f \<Longrightarrow> page_state pool p = node_state (node_at f pool)"
  by (simp add: page_state_def pool_view_mapped)

lemma page_state_view: "pool_view a p = pool_view b p \<Longrightarrow> page_state a p = page_state b p"
  by (simp add: page_state_def)

lemma keeps_page_state: "keeps L a b \<Longrightarrow> p \<in> L \<Longrightarrow> page_state b p = page_state a p"
  by (simp add: keeps_def page_state_def)

text \<open>A crash that leaves the durable bytes of the database file leaves these pages.\<close>

definition saved :: "page_id set \<Rightarrow> (page_id \<Rightarrow> page_state) \<Rightarrow> disk_manager \<Rightarrow> bool" where
  "saved L st d \<longleftrightarrow> (\<forall>g. content g = durable (db_file d) \<and> io_plan g = [] \<longrightarrow>
     (\<exists>e. disk_open g = (Ok e, g) \<and>
       (\<forall>c. \<forall>p \<in> L. page_state (pool_new e c (None :: wal_manager option)) p = st p)))"

lemma flush_all_saved:
  assumes "pool_inv L self" "flush_all_pages flush self = (Ok (), self')" "alone self"
    and st: "\<forall>p \<in> L. page_state self p = st p"
  shows "saved L st (pool_disk self')"
  unfolding saved_def
proof (intro allI impI)
  fix g :: os_file assume g: "content g = durable (db_file (pool_disk self')) \<and> io_plan g = []"
  have one: "\<forall>p f. map_of (page_table self) p = Some f \<longrightarrow> strong (heap self ! f) = 1"
    using assms(3) by (simp add: alone_def)
  note cr = checkpoint_reopens [OF assms(1,2) one conjunct1 [OF g] conjunct2 [OF g]]
  from cr [of undefined None] obtain e where e: "disk_open g = (Ok e, g)" by blast
  have "page_state (pool_new e c (None :: wal_manager option)) p = st p" if "p \<in> L" for c p
  proof -
    have "pool_view (pool_new e c (None :: wal_manager option)) p = pool_view self p"
      using cr [of c "None :: wal_manager option"] e that by auto
    then show ?thesis using st that by (simp add: page_state_def)
  qed
  with e show "\<exists>e. disk_open g = (Ok e, g) \<and>
      (\<forall>c. \<forall>p \<in> L. page_state (pool_new e c (None :: wal_manager option)) p = st p)" by blast
qed

section \<open>Applying one entry\<close>

lemma apply_entry_leaf:
  "apply_entry (Leaf l) e = (case leaf_run (entry_op e) l of (r, l) \<Rightarrow> (r, Leaf l))"
  by (simp add: apply_entry_def entry_op_def split: wal_op.split)

lemma apply_entry_internal: "apply_entry (Internal n) e = (Err (CorruptPage ApplyOnInternal), Internal n)"
  by (simp add: apply_entry_def split: wal_op.split)

lemma leaf_run_comes_back: "leaf_wf l \<Longrightarrow> fst (leaf_run p l) \<noteq> Hang"
proof (cases p)
  case (PutOp k v)
  assume "leaf_wf l"
  then show ?thesis unfolding PutOp by (cases rule: insert_record_cases [of l k v]) auto
next
  case (SetOp k v)
  assume "leaf_wf l"
  then show ?thesis unfolding SetOp by (cases rule: update_record_cases [of l k v]) auto
next
  case (DelOp k)
  assume "leaf_wf l"
  then show ?thesis unfolding DelOp by (cases rule: delete_record_cases [of l k]) auto
qed

lemma apply_entry_Ok:
  assumes "node_wf n" "apply_entry n e = (Ok (), n')"
  shows "node_wf n'" "node_map n' = map_op (entry_op e) (node_map n)"
proof -
  obtain l l' where l: "n = Leaf l" "leaf_run (entry_op e) l = (Ok (), l')" "n' = Leaf l'"
    using assms(2) by (cases n) (auto simp: apply_entry_leaf apply_entry_internal split: prod.splits)
  have wf: "leaf_wf l" using assms(1) l(1) by simp
  show "node_wf n'" using leaf.run_inv [OF wf l(2)] l(3) by simp
  show "node_map n' = map_op (entry_op e) (node_map n)" using leaf.run_map [OF wf l(2)] l(1,3) by simp
qed

lemma apply_entry_Err: "node_wf n \<Longrightarrow> apply_entry n e = (Err err, n') \<Longrightarrow> n' = n"
  by (cases n) (auto simp: apply_entry_leaf apply_entry_internal dest: leaf.run_err split: prod.splits)

lemma apply_entry_comes_back: "node_wf n \<Longrightarrow> fst (apply_entry n e) \<noteq> Hang"
proof (cases n)
  case (Leaf l)
  assume "node_wf n"
  then have "fst (leaf_run (entry_op e) l) \<noteq> Hang" using Leaf leaf_run_comes_back by simp
  then show ?thesis by (cases "leaf_run (entry_op e) l") (simp add: Leaf apply_entry_leaf)
qed (simp add: apply_entry_internal)

section \<open>The replay loop\<close>

lemma latch_write_free:
  "\<not> write_latched (heap self ! f) \<Longrightarrow> latch_write f self = (Ok (), set_latch f True self)"
  by (simp add: latch_write_def)

text \<open>The pool at startup: no frame is held or latched.\<close>

definition idle :: "page_id set \<Rightarrow> 'w buffer_pool \<Rightarrow> bool" where
  "idle L self \<longleftrightarrow> pool_inv L self \<and> alone self \<and> no_latch self"

lemma fetch_idle:
  assumes "idle L self" "p \<in> L" "fetch_page flush p self = (r, s)"
  obtains (failed) "\<forall>f. r \<noteq> Ok f" "idle L s" "keeps L self s" "calm flush \<longrightarrow> returns r"
  | (fetched) f where "r = Ok f" "keeps L self s" "map_of (page_table s) p = Some f" "node_wf (node_at f s)"
      "latch_write f s = (Ok (), set_latch f True s)" "page_state self p = node_state (node_at f s)"
      "\<And>n. node_wf n \<Longrightarrow> n = node_at f s \<or> node_is_dirty n \<Longrightarrow>
        idle L (release f (set_node f n (set_latch f True s))) \<and>
        (\<forall>q \<in> L. page_state (release f (set_node f n (set_latch f True s))) q =
          ((page_state self)(p := node_state n)) q)"
proof -
  have inv: "pool_inv L self" and al: "alone self" and nl: "no_latch self"
    using assms(1) by (simp_all add: idle_def)
  note fs = fetch_page_spec [OF inv assms(2,3)] and fa = fetch_alone [OF inv al assms(3)]
  have inv1: "pool_inv L s" and k1: "keeps L self s" using fs by simp_all
  note ps1 = keeps_page_state [OF k1]
  have nl1: "no_latch s" by (rule fetch_no_latch [OF inv nl assms(3)])
  show thesis
  proof (cases "\<exists>f. r = Ok f")
    case False
    then have "alone s" using fa by (auto simp: alone_def)
    then show thesis using failed False inv1 nl1 k1 fs by (auto simp: idle_def)
  next
    case True
    then obtain f where f: "r = Ok f" by blast
    have mp: "map_of (page_table s) p = Some f" and two: "2 \<le> strong (heap s ! f)" and set1: "settled s p f"
      using fs f by simp_all
    have count: "\<forall>q g. map_of (page_table s) q = Some g \<longrightarrow> strong (heap s ! g) = (if g = f then 2 else 1)"
      using fa f by auto
    have wfn: "node_wf (node_at f s)"
      using inv1 map_of_SomeD [OF mp] by (auto simp: pool_inv_def contents_ok_def)
    have st: "page_state self p = node_state (node_at f s)"
      using ps1 [OF assms(2)] page_state_mapped [OF mp] by simp
    have "f < length (heap s)" using inv1 table_lookup(2) [OF _ mp] by (simp add: pool_inv_def)
    then have free: "latch_write f s = (Ok (), set_latch f True s)"
      using latch_write_free no_latch_nth [OF nl1] by blast
    show thesis
    proof (rule fetched [OF f k1 mp wfn free st])
      fix n assume n: "node_wf n" "n = node_at f s \<or> node_is_dirty n"
      note h = hold_frame [OF inv1 mp two set1 n]
      show "idle L (release f (set_node f n (set_latch f True s))) \<and>
          (\<forall>q \<in> L. page_state (release f (set_node f n (set_latch f True s))) q =
            ((page_state self)(p := node_state n)) q)"
        using h(1) h(3) [OF nl1] h(4) [OF count] h(2) ps1 by (simp add: idle_def page_state_def)
    qed
  qed
qed

text \<open>The pages in use that one entry leaves behind, also when the body of the loop fails.\<close>

lemma replay_entry_spec:
  assumes idle: "idle L self" and p: "wal_page_id e \<in> L" and run: "replay_entry flush e self = (r, self')"
  shows "(r = Ok () \<longrightarrow> idle L self' \<and> (\<forall>q \<in> L. page_state self' q = redo_page e (page_state self) q)) \<and>
    (\<forall>err. r = Err err \<longrightarrow> idle L self' \<and> (\<forall>q \<in> L. page_state self' q = page_state self q)) \<and>
    (calm flush \<longrightarrow> r \<noteq> Hang)"
proof -
  obtain r1 s where s: "fetch_page flush (wal_page_id e) self = (r1, s)" by fastforce
  show ?thesis
  proof (cases rule: fetch_idle [OF idle p s])
    case 1
    then have "(\<forall>x. r \<noteq> Ok x) \<and> self' = s \<and> (r = Hang \<longrightarrow> r1 = Hang)"
      using run s by (cases r1) (auto simp: replay_entry_def)
    then show ?thesis using 1 keeps_page_state [OF 1(3)] by auto
  next
    case (2 f)
    let ?n = "node_at f s" and ?s = "set_latch f True s"
    have nd: "node_at f ?s = ?n" by simp
    have same: "release f ?s = release f (set_node f ?n ?s)" using set_node_same [of f ?s] nd by simp
    have step: "replay_entry flush e self =
        (if wal_lsn e \<le> get_last_lsn ?n then (Ok (), release f ?s)
         else case apply_entry ?n e of
            (Ok _, node) \<Rightarrow> (Ok (), release f (set_node f (mark_dirty (wal_lsn e) node) ?s))
          | (Err e, node) \<Rightarrow> (Err e, release f (set_node f node ?s))
          | (Panic p, node) \<Rightarrow> (Panic p, release f (set_node f node ?s))
          | (Hang, node) \<Rightarrow> (Hang, set_node f node ?s))"
      using s 2(1,5) by (simp add: replay_entry_def)
    note keep = 2(7) [OF 2(4), simplified]
    have kept: "(\<forall>q \<in> L. page_state (release f (set_node f ?n ?s)) q = page_state self q)"
      using keep 2(6) by auto
    show ?thesis
    proof (cases "wal_lsn e \<le> get_last_lsn ?n")
      case True
      then have "r = Ok ()" "self' = release f (set_node f ?n ?s)"
        using run step same by simp_all
      moreover have "redo_page e (page_state self) = page_state self"
        using 2(6) True fun_upd_triv [of "page_state self" "wal_page_id e"]
        by (simp add: redo_page_def redo_def node_state_def del: fun_upd_triv)
      ultimately show ?thesis using keep kept by simp
    next
      case False
      obtain r2 n2 where n2: "apply_entry ?n e = (r2, n2)" by fastforce
      show ?thesis
      proof (cases r2)
        case (Ok u)
        then have ok: "apply_entry ?n e = (Ok (), n2)" using n2 by simp
        note ae = apply_entry_Ok [OF 2(4) ok]
        have "r = Ok ()" "self' = release f (set_node f (mark_dirty (wal_lsn e) n2) ?s)"
          using run step False ok by simp_all
        moreover have "redo_page e (page_state self) =
            (page_state self)(wal_page_id e := node_state (mark_dirty (wal_lsn e) n2))"
          using 2(6) False ae(2) by (simp add: redo_page_def redo_def node_state_def)
        moreover have "node_wf (mark_dirty (wal_lsn e) n2)" using ae(1) by simp
        ultimately show ?thesis using 2(7) [of "mark_dirty (wal_lsn e) n2"] by simp
      next
        case (Err err)
        then have "n2 = ?n" using apply_entry_Err [OF 2(4)] n2 by simp
        then have "r = Err err" "self' = release f (set_node f ?n ?s)"
          using run step False n2 Err by simp_all
        then show ?thesis using keep kept by simp
      next
        case (Panic x)
        then have "r = Panic x" using run step False n2 by simp
        then show ?thesis by simp
      next
        case Hang
        then show ?thesis using apply_entry_comes_back [OF 2(4), of e] n2 by simp
      qed
    qed
  qed
qed

lemma replay_loop_spec:
  assumes "idle L self" "\<forall>e \<in> set es. wal_page_id e \<in> L" "replay_loop flush es mx self = (r, self')"
  shows "(\<forall>x. r = Ok x \<longrightarrow> x = fold (\<lambda>e mx. max mx (wal_lsn e)) es mx \<and> idle L self' \<and>
      (\<forall>q \<in> L. page_state self' q = redo_all es (page_state self) q)) \<and>
    (\<forall>err. r = Err err \<longrightarrow> idle L self' \<and>
      (\<exists>k < length es. \<forall>q \<in> L. page_state self' q = redo_all (take k es) (page_state self) q)) \<and>
    (calm flush \<longrightarrow> r \<noteq> Hang)"
  using assms
proof (induction es arbitrary: mx self)
  case (Cons e es)
  obtain r1 s1 where s1: "replay_entry flush e self = (r1, s1)" by fastforce
  have p: "wal_page_id e \<in> L" "\<forall>e \<in> set es. wal_page_id e \<in> L" using Cons.prems(2) by simp_all
  note re = replay_entry_spec [OF Cons.prems(1) p(1) s1]
  show ?case
  proof (cases "r1 = Ok ()")
    case False
    then have "(\<forall>x. r \<noteq> Ok x) \<and> self' = s1 \<and> (\<forall>err. r = Err err \<longrightarrow> r1 = Err err) \<and> (r = Hang \<longrightarrow> r1 = Hang)"
      using Cons.prems(3) s1 by (cases r1) auto
    then show ?thesis using re by (auto intro!: exI [of _ 0])
  next
    case True
    then have i1: "idle L s1" and ps: "\<forall>q \<in> L. page_state s1 q = redo_page e (page_state self) q"
      using re by simp_all
    have run: "replay_loop flush es (max mx (wal_lsn e)) s1 = (r, self')"
      using Cons.prems(3) s1 True by simp
    note IH = Cons.IH [OF i1 p(2) run]
    have all: "\<forall>q \<in> L. redo_all fs (page_state s1) q = redo_all fs (redo_page e (page_state self)) q" for fs
      by (rule redo_all_cong [OF ps])
    show ?thesis
    proof (cases r)
      case (Ok x)
      then show ?thesis using IH all [of es] by simp
    next
      case (Err err)
      with IH obtain k where k: "k < length es" "\<forall>q \<in> L. page_state self' q = redo_all (take k es) (page_state s1) q"
        and i: "idle L self'" by blast
      then have "\<forall>q \<in> L. page_state self' q = redo_all (take (Suc k) (e # es)) (page_state self) q"
        using all [of "take k es"] by simp
      then show ?thesis using Err i k(1) by (auto intro!: exI [of _ "Suc k"])
    qed (use IH in simp_all)
  qed
qed auto

lemma flush_all_returns:
  assumes "idle L self" "calm flush"
  shows "returns (fst (flush_all_pages flush self))"
proof -
  have loop: "returns (fst (flush_pages flush ps t))" if "pool_inv L t" "alone t" for ps t
    using that
  proof (induction ps arbitrary: t)
    case (Cons p ps)
    obtain r1 t1 where t1: "flush_page flush p t = (r1, t1)" by fastforce
    have "returns r1"
      using flush_page_returns [OF assms(2) Cons.prems(1), of p] alone_unlatched [OF Cons.prems] t1 by (metis fst_conv)
    moreover have "pool_inv L t1" "alone t1"
      using flush_page_spec [OF Cons.prems(1) t1] Cons.prems(2) by (simp_all add: alone_def same_shape_def)
    ultimately show ?case using Cons.IH t1 by (cases r1) auto
  qed simp
  have "returns (fst (save_header d))" for d
    by (cases rule: sync_all_cases [of "snd (write_all_at (header_to_bytes (header d)) 0 (db_file d))"])
      (auto simp: save_header_def write_all_at_def split: prod.splits option.splits)
  moreover have "returns (fst (flush_pages flush (map fst (page_table self)) self))"
    using loop assms(1) by (simp add: idle_def)
  ultimately show ?thesis
    unfolding flush_all_pages_def
    by (cases "flush_pages flush (map fst (page_table self)) self"; cases "fst (flush_pages flush (map fst (page_table self)) self)")
      (auto simp: on_disk_def intro!: returns_then_do split: prod.splits, metis fst_conv)
qed

lemma replay_spec:
  assumes idle: "idle L self" and es: "\<forall>e \<in> set es. wal_page_id e \<in> L" and run: "replay flush es self = (r, self')"
  shows "(\<forall>x. r = Ok x \<longrightarrow> x = max_lsn es \<and> idle L self' \<and>
      (\<forall>q \<in> L. page_state self' q = redo_all es (page_state self) q) \<and>
      saved L (redo_all es (page_state self)) (pool_disk self')) \<and>
    (\<forall>err. r = Err err \<longrightarrow> idle L self' \<and>
      (\<exists>k \<le> length es. \<forall>q \<in> L. page_state self' q = redo_all (take k es) (page_state self) q)) \<and>
    (calm flush \<longrightarrow> r \<noteq> Hang)"
proof -
  obtain r1 s1 where s1: "replay_loop flush es 0 self = (r1, s1)" by fastforce
  note rl = replay_loop_spec [OF idle es s1]
  show ?thesis
  proof (cases "\<exists>x. r1 = Ok x")
    case False
    then have "(\<forall>x. r \<noteq> Ok x) \<and> self' = s1 \<and> (\<forall>err. r = Err err \<longrightarrow> r1 = Err err) \<and> (r = Hang \<longrightarrow> r1 = Hang)"
      using run s1 by (cases r1) (auto simp: replay_def)
    then show ?thesis using rl less_imp_le by blast
  next
    case True
    then obtain x where x: "r1 = Ok x" by blast
    then have i1: "idle L s1" and mx: "x = max_lsn es"
      and ps: "\<forall>q \<in> L. page_state s1 q = redo_all es (page_state self) q"
      using rl by (simp_all add: max_lsn_def)
    have inv1: "pool_inv L s1" and al1: "alone s1" and nl1: "no_latch s1" using i1 by (simp_all add: idle_def)
    obtain r2 s2 where s2: "flush_all_pages flush s1 = (r2, s2)" by fastforce
    note fa = flush_all_pages_spec [OF inv1 s2]
    have sh: "same_shape s1 s2" and k2: "keeps L s1 s2" using fa by simp_all
    have i2: "idle L s2"
      using fa al1 nl1 sh same_shape_latches [OF sh] by (simp add: idle_def alone_def no_latch_def same_shape_def)
    have ps2: "\<forall>q \<in> L. page_state s2 q = redo_all es (page_state self) q"
      using keeps_page_state [OF k2] ps by simp
    have res: "self' = s2 \<and> r = and_then r2 (\<lambda>_. Ok x)"
      using run s1 x s2 by (cases r2) (simp_all add: replay_def)
    have ret: "calm flush \<longrightarrow> returns r2" using flush_all_returns [OF i1] s2 by (metis fst_conv)
    show ?thesis
    proof (cases "r2 = Ok ()")
      case True
      then have sv: "saved L (redo_all es (page_state self)) (pool_disk s2)"
        using flush_all_saved [OF inv1 _ al1 ps] s2 by simp
      show ?thesis using res True i2 ps2 sv mx by simp
    next
      case False
      then have "(\<forall>x. r \<noteq> Ok x) \<and> (r = Hang \<longrightarrow> r2 = Hang)" using res by (cases r2) auto
      then show ?thesis using res i2 ps2 ret by (auto intro!: exI [of _ "length es"])
    qed
  qed
qed

end
