(* ===== verification/Recovery_Props.thy ===== *)
theory Recovery_Props
  imports Recovery_Spec
begin

text \<open>
  The properties of recovery: the replay redoes the log, can be interrupted and run again, wipes
  the log only when its effects are durable, and does nothing at all on a log that ends in a torn entry.
\<close>

section \<open>The log\<close>

lemma read_batch_torn:
  assumes "\<forall>e \<in> set es. entry_ok e" "entry_ok e" "4 \<le> k" "k < length (frame e)" "io_plan (wal_file w) = []"
    and "content (wal_file w) = batch_buffer es @ take k (frame e)"
  shows "read_batch w = (Err (CorruptPage (TornWrite (wal_size e))), w)"
proof -
  have "read_loop (content (wal_file w)) [] 0 (wal_file w) =
      (Err (CorruptPage (TornWrite (wal_size e))), wal_file w)"
    using read_loop_frames [OF assms(1), of "take k (frame e)" "[]" 0 "wal_file w"]
      read_loop_torn [OF assms(2-5)] assms(5,6) by simp
  then show ?thesis using assms(5) by (simp add: read_batch_def on_wal_file_def)
qed

lemma read_batch_file:
  assumes "read_batch w = (r, w')"
  shows "content (wal_file w') = content (wal_file w)" "durable (wal_file w') = durable (wal_file w)"
proof -
  obtain r1 f1 where r1: "io_call (wal_file w) = (r1, f1)" by fastforce
  obtain r2 f2 where r2: "read_loop (content f1) [] 0 f1 = (r2, f2)" by fastforce
  have "content f2 = content (wal_file w) \<and> durable f2 = durable (wal_file w) \<and>
      content f1 = content (wal_file w) \<and> durable f1 = durable (wal_file w)"
    using read_loop_file [OF r2] io_call_frame [OF r1] by simp
  then show "content (wal_file w') = content (wal_file w)" "durable (wal_file w') = durable (wal_file w)"
    using assms r1 r2 by (cases r1; cases r2; auto simp: read_batch_def on_wal_file_def split: prod.splits)+
qed

lemma read_batch_returns:
  assumes "log_holds w es"
  shows "returns (fst (read_batch w))"
proof -
  have ok: "\<forall>e \<in> set es. entry_ok e" and c: "content (wal_file w) = batch_buffer es @ []"
    using assms by (simp_all add: log_holds_def)
  have "returns (fst (read_loop [] b m g))" for b m g
    by (cases rule: reader_step [of 4 "[]" g]; subst read_loop.simps; simp)
  then have loop: "returns (fst (read_loop (content (wal_file w)) [] 0 g))" for g
    using read_loop_frames [OF ok, of "[]" "[]" 0 g] unfolding c by (metis returns.simps(2))
  obtain r1 f1 where r1: "io_call (wal_file w) = (r1, f1)" by fastforce
  have "returns r1" using r1 by (auto simp: io_call_def split: prod.splits option.splits)
  moreover have "returns (fst (read_loop (content f1) [] 0 f1))"
    using loop [of f1] io_call_frame [OF r1] by simp
  ultimately show ?thesis using r1
    by (cases r1; cases "read_loop (content f1) [] 0 f1"; cases "fst (read_loop (content f1) [] 0 f1)")
      (auto simp: read_batch_def on_wal_file_def)
qed

lemma explicit_sync_cases:
  "explicit_sync w = (r, w') \<Longrightarrow> returns r \<and> content (wal_file w') = content (wal_file w) \<and>
   (r = Ok () \<longrightarrow> durable (wal_file w') = content (wal_file w))"
  by (cases rule: sync_all_cases [of "wal_file w"]) (auto simp: explicit_sync_def on_wal_file_def)

lemma wal_truncate_returns: "returns (fst (wal_truncate w))"
proof -
  have a: "returns (fst (set_len_0 f))" "returns (fst (io_call f))" "returns (fst (sync_all f))" for f
    by (auto simp: set_len_0_def io_call_def sync_all_def split: prod.split option.split)
  then have b: "returns (fst (on_wal_file set_len_0 v))" "returns (fst (on_wal_file io_call v))"
    "returns (fst (on_wal_file sync_all v))" for v
    by (simp_all add: on_wal_file_def case_prod_beta)
  have c: "returns (fst (then_do x g))" if "returns (fst x)" "\<And>u s. returns (fst (g u s))" for x :: "unit result \<times> wal_manager" and g :: "unit \<Rightarrow> wal_manager \<Rightarrow> unit result \<times> wal_manager"
    using that returns_then_do [of "fst x" g "snd x"] by simp
  show ?thesis unfolding wal_truncate_def by (intro c b) (auto intro!: b)
qed

text \<open>The whole of \<open>init\<close>: what it does to the log and to the pages.\<close>

lemma recovery_init_spec:
  assumes idle: "idle L self" and es: "\<forall>e \<in> set es. wal_page_id e \<in> L"
    and log: "content f = batch_buffer es" "\<forall>e \<in> set es. entry_ok e"
    and run: "recovery_init flush (f, self) = (r, (f', self'))"
  shows "(\<forall>x. r = Ok x \<longrightarrow> x = max_lsn es \<and> (\<forall>q \<in> L. page_state self' q = redo_all es (page_state self) q) \<and>
      (es \<noteq> [] \<longrightarrow> content f' = [] \<and> durable f' = [])) \<and>
    (content f' = content f \<and> durable f' = durable f \<or> saved L (redo_all es (page_state self)) (pool_disk self')) \<and>
    (calm flush \<longrightarrow> r \<noteq> Hang)"
proof -
  obtain r0 f0 where f0: "io_call f = (r0, f0)" by fastforce
  have c0: "content f0 = content f" "durable f0 = durable f" using io_call_frame [OF f0] by simp_all
  define w where "w = \<lparr>wal_file = f0, wal_sync = False, entry_count = 0, flushed_lsn = 0\<rparr>"
  have op: "wal_open f False = (and_then r0 (\<lambda>_. Ok w), f0)"
    using f0 by (cases r0) (simp_all add: wal_open_def w_def)
  show ?thesis
  proof (cases "r0 = Ok ()")
    case False
    then have "(\<forall>x. r \<noteq> Ok x) \<and> f' = f0 \<and> (r = Hang \<longrightarrow> r0 = Hang)" using run op
      by (cases r0) (auto simp: recovery_init_def)
    moreover have "r0 \<noteq> Hang" using f0 by (auto simp: io_call_def split: prod.splits option.splits)
    ultimately show ?thesis using c0 by simp
  next
    case True
    obtain r1 w1 where w1: "read_batch w = (r1, w1)" by fastforce
    have wf: "wal_file w = f0" by (simp add: w_def)
    have h: "log_holds w es" using log c0 by (simp add: log_holds_def w_def)
    note rb = read_batch_file [OF w1]
    obtain w' where rec: "recover flush (w, self) = (r, (w', self'))" and f': "f' = wal_file w'"
      using run op True by (auto simp: recovery_init_def split: prod.splits)
    show ?thesis
    proof (cases "\<exists>xs. r1 = Ok xs")
      case False
      then have "(\<forall>x. r \<noteq> Ok x) \<and> w' = w1 \<and> r \<noteq> Hang"
        using rec w1 read_batch_returns [OF h] by (cases r1) (auto simp: recover_def on_fst_def)
      then show ?thesis using rb c0 wf f' by simp
    next
      case True
      then have r1: "r1 = Ok es" and fl: "flushed_lsn w1 = max_lsn es" using read_batch_holds(2) [OF h] w1 by auto
      show ?thesis
      proof (cases "es = []")
        case True
        then have "r = Ok (max_lsn es)" "w' = w1" "self' = self"
          using rec w1 r1 fl by (simp_all add: recover_def on_fst_def)
        then show ?thesis using True rb c0 wf f' by simp
      next
        case False
        obtain r2 s2 where s2: "replay flush es self = (r2, s2)" by fastforce
        note rp = replay_spec [OF idle es s2]
        have step: "recover flush (w, self) = then_do (r2, (w1, s2)) (\<lambda>mx st.
            then_do (on_fst wal_truncate st) (\<lambda>_ st. then_do (on_fst explicit_sync st) (\<lambda>_ st. (Ok mx, st))))"
          using w1 r1 False s2 by (simp add: recover_def on_fst_def on_snd_def)
        show ?thesis
        proof (cases "\<exists>x. r2 = Ok x")
          case False
          then have "(\<forall>x. r \<noteq> Ok x) \<and> w' = w1 \<and> (r = Hang \<longrightarrow> r2 = Hang)"
            using rec unfolding step by (cases r2) auto
          then show ?thesis using rb c0 wf f' rp by auto
        next
          case True
          then obtain x where x: "r2 = Ok x" by blast
          obtain r3 w3 where w3: "wal_truncate w1 = (r3, w3)" by fastforce
          obtain r4 w4 where w4: "explicit_sync w3 = (r4, w4)" by fastforce
          have ret: "returns r3" "returns r4"
            using wal_truncate_returns [of w1] w3 explicit_sync_cases [OF w4] by simp_all
          have res: "self' = s2" "r = and_then r3 (\<lambda>_. and_then r4 (\<lambda>_. Ok x))"
            "r3 = Ok () \<longrightarrow> w' = w4"
            using rec ret unfolding step x by (cases r3; cases r4; simp add: on_fst_def w3 w4)+
          have wiped: "content f' = [] \<and> durable f' = []" if "r = Ok y" for y
          proof -
            have "r3 = Ok ()" "r4 = Ok ()" using that res(2) by (cases r3; cases r4; simp)+
            then show ?thesis
              using res(3) wal_truncate_content [of w1 w3] w3 explicit_sync_cases [OF w4] f' by simp
          qed
          have "r \<noteq> Hang" using ret res(2) by (cases r3; cases r4) simp_all
          moreover have "y = x" if "r = Ok y" for y using that res(2) by (cases r3; cases r4) simp_all
          ultimately show ?thesis using rp x wiped res(1) by auto
        qed
      qed
    qed
  qed
qed

section \<open>Properties\<close>

text \<open>A log of one entry for the sample page, which is in the pool with an older number.\<close>

lemma released_idle: "idle {4096} released_pool"
proof -
  have "heap sample_page_pool = [heap sample_page_pool ! 0]"
    by (simp add: sample_page_pool_def sample_pool_def new_page_def make_room_def pool_new_def on_disk_def
        allocate_page_def fresh_disk_def file_header_default_def touch_def install_def record_access_def lru_new_def
        new_slot_def insert_head_def set_prev_def set_next_def index_def clone_frame_def Let_def size_consts)
  then have "length (heap sample_page_pool) = 1" by (metis length_Cons list.size(3) One_nat_def)
  then have "latches released_pool = [False]"
    by (cases "heap sample_page_pool") (simp_all add: latches_def released_pool_def put_cell_def)
  moreover have "alone released_pool"
    unfolding alone_def using released_pool(3,4) by fastforce
  ultimately show ?thesis using released_pool(1) by (simp add: idle_def no_latch_def)
qed

lemma sample_insert:
  assumes "leaf_wf l" "slot_array l = []"
  obtains l' where "insert_record 1 [1, 2, 3] l = (Ok (), l')" "leaf_wf l'" "leaf_fits l'"
proof -
  have e: "slot_records l = []" using assms(2) by (simp add: slot_records_def)
  show thesis
    by (rule insert_record_cases [OF assms(1), of 1 "[1, 2, 3]"])
      (use that e in \<open>auto simp: leaf_map_def rec_map_def tombstoned_def leaf_bytes_def live_bytes_def size_consts\<close>)
qed

lemma replay_one:
  assumes idle: "idle {4096} a" and f: "fetch_page flush_upto 4096 a = (Ok f, s)"
    and l: "node_at f s = Leaf l" "slot_array l = []" "last_lsn l < 7"
    and rel: "reliable s" and tab: "\<forall>p g. map_of (page_table s) p = Some g \<longrightarrow> g = f"
  obtains b where "replay flush_upto [sample_entry 7] a = (Ok 7, b)"
proof -
  let ?e = "sample_entry 7" and ?s1 = "set_latch f True s"
  have pg: "wal_page_id ?e = 4096" "wal_lsn ?e = 7" by (simp_all add: sample_entry_def)
  have in4: "(4096::page_id) \<in> {4096}" by simp
  have "node_wf (node_at f s) \<and> latch_write f s = (Ok (), ?s1) \<and> map_of (page_table s) 4096 = Some f \<and>
      (\<forall>n. node_wf n \<and> node_is_dirty n \<longrightarrow> idle {4096} (release f (set_node f n ?s1)))"
    by (cases rule: fetch_idle [OF idle in4 f]) auto
  then have wf: "leaf_wf l" and lw: "latch_write f s = (Ok (), ?s1)" and mp: "map_of (page_table s) 4096 = Some f"
    and i: "\<And>n. node_wf n \<Longrightarrow> node_is_dirty n \<Longrightarrow> idle {4096} (release f (set_node f n ?s1))"
    using l(1) by auto
  obtain m where ins: "insert_record 1 [1, 2, 3] l = (Ok (), m)" "leaf_wf m" "leaf_fits m" by (rule sample_insert [OF wf l(2)])
  let ?n = "mark_dirty 7 (Leaf m)" and ?s2 = "release f (set_node f (mark_dirty 7 (Leaf m)) ?s1)"
  have nn: "node_wf ?n" "node_is_dirty ?n" "node_fits ?n" using ins(2,3) by (simp_all del: mark_dirty.simps)
  have i2: "idle {4096} ?s2" by (rule i [OF nn(1,2)])
  have "apply_entry (Leaf l) ?e = (Ok (), Leaf m)"
    unfolding apply_entry_leaf using ins(1) by (simp add: entry_op_def sample_entry_def)
  then have entry: "replay_entry flush_upto ?e a = (Ok (), ?s2)"
    using f lw l pg by (simp add: replay_entry_def not_le [symmetric] del: mark_dirty.simps)
  have inv2: "pool_inv {4096} ?s2" and al2: "alone ?s2" using i2 by (simp_all add: idle_def)
  have tab2: "page_table ?s2 = page_table s" by simp
  have "f < length (heap ?s2)" using inv2 mp table_lookup(2) [of "page_table ?s2"] tab2 by (simp add: pool_inv_def)
  then have n2: "node_at f ?s2 = ?n"
    by (simp add: node_at_set release_def drop_frame_def set_latch_def set_node_def del: mark_dirty.simps)
      (simp add: node_at_def nth_update_if)
  have un: "\<forall>p g. map_of (page_table ?s2) p = Some g \<longrightarrow> \<not> write_latched (heap ?s2 ! g)"
    using alone_unlatched [OF inv2 al2] by blast
  have fits: "\<forall>p g. map_of (page_table ?s2) p = Some g \<longrightarrow> node_fits (node_at g ?s2)"
    using tab n2 nn(3) unfolding tab2 by metis
  have "reliable ?s2" using rel by (simp add: reliable_def release_def drop_frame_def set_latch_def set_node_def)
  then obtain s3 where "flush_all_pages flush_upto ?s2 = (Ok (), s3)"
    using flush_all_reliable [OF inv2 _ _ un fits] by (auto simp: size_consts)
  then show thesis using that [of s3] entry pg by (simp add: replay_def)
qed

lemma sample_replay:
  obtains s where "replay flush_upto [sample_entry 7] released_pool = (Ok 7, s)"
proof -
  obtain rp where f: "fetch_page flush_upto 4096 released_pool =
      (Ok 0, clone_frame 0 (released_pool\<lparr>pool_replacer := rp\<rparr>))"
    by (rule fetch_cached_eq [OF released_pool(1,2)])
  let ?s = "clone_frame 0 (released_pool\<lparr>pool_replacer := rp\<rparr>)" and ?l = "leaf_default\<lparr>page_id := 4096, last_lsn := 3, is_dirty := True\<rparr>"
  have "node_at 0 released_pool = Leaf ?l" using released_pool(4) by (simp add: node_at_def new_empty_def)
  then have n: "node_at 0 ?s = Leaf ?l" by (auto simp: clone_frame_def node_at_def nth_update_if)
  have rel: "reliable ?s" using released_reliable by (simp add: reliable_def clone_frame_def)
  have tab: "\<forall>p g. map_of (page_table ?s) p = Some g \<longrightarrow> g = 0" using released_pool(3) by (simp add: clone_frame_def)
  show thesis
    by (rule replay_one [OF released_idle f n _ _ rel tab]) (simp_all add: leaf_default_def that)
qed

text \<open>
  C7:
  Replay is redo. If \<open>replay\<close> answers \<open>Ok\<close>, it answers the highest number of the log; every page
  in use is what the log makes of it, where an entry is applied exactly if its number is above
  the page's; and these pages survive a crash. If it answers an error, each page is what a
  prefix of the log makes of it. It never hangs on a latch.
\<close>

theorem replay_redoes_log:
  assumes "idle L pool" "\<forall>e \<in> set es. wal_page_id e \<in> L" "replay flush es pool = (r, pool')"
  shows "(\<forall>x. r = Ok x \<longrightarrow> x = max_lsn es \<and>
      (\<forall>p \<in> L. page_state pool' p = redo_all es (page_state pool) p) \<and>
      saved L (redo_all es (page_state pool)) (pool_disk pool')) \<and>
    (\<forall>err. r = Err err \<longrightarrow>
      (\<exists>k \<le> length es. \<forall>p \<in> L. page_state pool' p = redo_all (take k es) (page_state pool) p)) \<and>
    (calm flush \<longrightarrow> r \<noteq> Hang)"
  using replay_spec [OF assms] by auto

theorem replay_redoes_log_witness:
  "\<exists>s. replay flush_upto [sample_entry 7] released_pool = (Ok 7, s) \<and>
     page_state s 4096 = redo_all [sample_entry 7] (page_state released_pool) 4096 \<and>
     saved {4096} (redo_all [sample_entry 7] (page_state released_pool)) (pool_disk s)"
proof -
  obtain s where s: "replay flush_upto [sample_entry 7] released_pool = (Ok 7, s)" by (rule sample_replay)
  have es: "\<forall>e \<in> set [sample_entry 7]. wal_page_id e \<in> {4096}" by (simp add: sample_entry_def)
  from conjunct1 [OF replay_redoes_log [OF released_idle es s]] s show ?thesis by blast
qed

text \<open>
  An interrupted replay can be run again. Let every page bear some prefix of the log, not
  necessarily the same for all, as when the machine crashed while the pages were being
  flushed: a replay of the whole log that answers \<open>Ok\<close> leaves every page as one
  uninterrupted replay would have, and no entry is applied twice.
\<close>

theorem interrupted_replay_resumes:
  assumes "idle L pool" "\<forall>e \<in> set es. wal_page_id e \<in> L" "replay flush es pool = (Ok mx, pool')"
    and "\<forall>p \<in> L. \<exists>k. page_state pool p = redo_all (take k es) st p"
  shows "\<forall>p \<in> L. page_state pool' p = redo_all es st p"
proof
  fix p assume p: "p \<in> L"
  then obtain k where "page_state pool p = redo_all (take k es) st p" using assms(4) by blast
  from redo_resumes [where st = "page_state pool", OF this] replay_spec [OF assms(1-3)] p
  show "page_state pool' p = redo_all es st p" by simp
qed

theorem interrupted_replay_resumes_witness:
  "\<exists>s. replay flush_upto [sample_entry 7] released_pool = (Ok 7, s) \<and>
     page_state s 4096 = redo_all [sample_entry 7] (page_state released_pool) 4096"
proof -
  obtain s where s: "replay flush_upto [sample_entry 7] released_pool = (Ok 7, s)" by (rule sample_replay)
  have es: "\<forall>e \<in> set [sample_entry 7]. wal_page_id e \<in> {4096}" by (simp add: sample_entry_def)
  have "\<forall>p \<in> {4096}. \<exists>k. page_state released_pool p = redo_all (take k [sample_entry 7]) (page_state released_pool) p"
    by (intro ballI exI [of _ 0]) simp
  from interrupted_replay_resumes [OF released_idle es s this] s show ?thesis by blast
qed

lemma recovery_init_reliable:
  assumes "content f = batch_buffer [sample_entry 7]" "io_plan f = []" "replay flush_upto [sample_entry 7] a = (Ok 7, b)"
  obtains f' where "recovery_init flush_upto (f, a) = (Ok 7, (f', b))"
proof -
  let ?w = "\<lparr>wal_file = f, wal_sync = False, entry_count = 0, flushed_lsn = 0\<rparr>"
  have "log_holds ?w [sample_entry 7]" using assms(1) by (simp add: log_holds_def)
  from read_batch_holds(3) [OF this] assms(2) obtain w1 where
    w1: "read_batch ?w = (Ok [sample_entry 7], w1)" "io_plan (wal_file w1) = []" by simp
  have "\<exists>w2. wal_truncate w1 = (Ok (), w2) \<and> io_plan (wal_file w2) = []"
    using w1(2) by (simp add: wal_truncate_def on_wal_file_def set_len_0_def sync_all_def)
  then obtain w2 where w2: "wal_truncate w1 = (Ok (), w2)" "io_plan (wal_file w2) = []" by blast
  have "\<exists>w3. explicit_sync w2 = (Ok (), w3)"
    using w2(2) by (simp add: explicit_sync_def on_wal_file_def sync_all_def)
  then obtain w3 where w3: "explicit_sync w2 = (Ok (), w3)" by blast
  have "recovery_init flush_upto (f, a) = (Ok 7, (wal_file w3, b))"
    using assms(2,3) w1(1) w2(1) w3
    by (simp add: recovery_init_def wal_open_def recover_def on_fst_def on_snd_def)
  then show thesis by (rule that)
qed

lemma sample_recovery:
  assumes "content f = batch_buffer [sample_entry 7]" "io_plan f = []"
  obtains f' s where "recovery_init flush_upto (f, released_pool) = (Ok 7, (f', s))"
proof -
  obtain s where s: "replay flush_upto [sample_entry 7] released_pool = (Ok 7, s)" by (rule sample_replay)
  show thesis by (rule recovery_init_reliable [OF assms s]) (rule that)
qed

text \<open>
  C4:
  \<open>RecoveryEngine::init\<close> never gives the log away for nothing. On a log of well-formed entries,
  whichever device calls fail: if it answers \<open>Ok\<close>, it answers the highest number, every page is
  redone, and a log that was not empty is empty, durably. And whatever it answers, either the log
  is as it was, contents and durable bytes, or the redone pages survive a crash.
\<close>

theorem recovery_init_safe:
  assumes "idle L pool" "\<forall>e \<in> set es. wal_page_id e \<in> L"
    and "content f = batch_buffer es" "\<forall>e \<in> set es. entry_ok e"
    and "recovery_init flush (f, pool) = (r, (f', pool'))"
  shows "(\<forall>x. r = Ok x \<longrightarrow> x = max_lsn es \<and> (\<forall>p \<in> L. page_state pool' p = redo_all es (page_state pool) p) \<and>
      (es \<noteq> [] \<longrightarrow> content f' = [] \<and> durable f' = [])) \<and>
    (content f' = content f \<and> durable f' = durable f \<or> saved L (redo_all es (page_state pool)) (pool_disk pool')) \<and>
    (calm flush \<longrightarrow> r \<noteq> Hang)"
  by (rule recovery_init_spec [OF assms])

theorem recovery_init_safe_witness:
  "\<exists>f' s. recovery_init flush_upto (new_file\<lparr>content := batch_buffer [sample_entry 7]\<rparr>, released_pool) = (Ok 7, (f', s)) \<and>
     durable f' = [] \<and> page_state s 4096 = redo_all [sample_entry 7] (page_state released_pool) 4096"
proof -
  define f where "f = new_file\<lparr>content := batch_buffer [sample_entry 7]\<rparr>"
  have c: "content f = batch_buffer [sample_entry 7]" "io_plan f = []"
    by (simp_all add: f_def new_file_def del: batch_buffer.simps)
  obtain f' s where run: "recovery_init flush_upto (f, released_pool) = (Ok 7, (f', s))"
    by (rule sample_recovery [OF c])
  have es: "\<forall>e \<in> set [sample_entry 7]. wal_page_id e \<in> {4096}" "\<forall>e \<in> set [sample_entry 7]. entry_ok e"
    by (simp_all add: sample_entry_def entry_ok_def wal_size_def size_consts)
  from conjunct1 [OF recovery_init_safe [OF released_idle es(1) c(1) es(2) run]] run
  show ?thesis unfolding f_def by blast
qed

text \<open>
  C26:
  A torn tail stops recovery altogether. If the log ends in four bytes or more of an incomplete
  frame, \<open>init\<close> answers the torn write and leaves log and pages as they are: none of the
  complete entries before the tail is replayed, now or when it is started again.
\<close>

theorem torn_log_blocks_recovery:
  assumes "\<forall>e \<in> set es. entry_ok e" "entry_ok e" "4 \<le> k" "k < length (frame e)"
    and "content f = batch_buffer es @ take k (frame e)" "io_plan f = []"
  shows "recovery_init flush (f, pool) = (Err (CorruptPage (TornWrite (wal_size e))), (f, pool))"
proof -
  let ?w = "\<lparr>wal_file = f, wal_sync = False, entry_count = 0, flushed_lsn = 0\<rparr>"
  have "wal_open f False = (Ok ?w, f)" using assms(6) by (simp add: wal_open_def)
  moreover have "read_batch ?w = (Err (CorruptPage (TornWrite (wal_size e))), ?w)"
    using read_batch_torn [OF assms(1-4), of ?w] assms(5,6) by simp
  ultimately show ?thesis by (simp add: recovery_init_def recover_def on_fst_def)
qed

theorem torn_log_blocks_recovery_witness:
  "recovery_init flush_upto
     (new_file\<lparr>content := batch_buffer [sample_entry 1] @ take 10 (frame (sample_entry 2))\<rparr>, sample_pool) =
   (Err (CorruptPage (TornWrite 32)),
     (new_file\<lparr>content := batch_buffer [sample_entry 1] @ take 10 (frame (sample_entry 2))\<rparr>, sample_pool))"
proof -
  define f where "f = new_file\<lparr>content := batch_buffer [sample_entry 1] @ take 10 (frame (sample_entry 2))\<rparr>"
  have c: "content f = batch_buffer [sample_entry 1] @ take 10 (frame (sample_entry 2))" "io_plan f = []"
    unfolding f_def new_file_def by (rule os_file.select_convs | simp only: os_file.update_convs os_file.select_convs)+
  have k: "(4::nat) \<le> 10" "10 < length (frame (sample_entry 2))" by simp_all
  have e: "\<forall>e \<in> set [sample_entry 1]. entry_ok e" "entry_ok (sample_entry 2)" by simp_all
  from torn_log_blocks_recovery [OF e k c, of flush_upto sample_pool]
  show ?thesis unfolding f_def sample_entry_simps .
qed

end
