(* ===== verification/Bp_Tree_Samples.thy ===== *)
theory Bp_Tree_Samples
  imports Bp_Tree_Insert Recovery_Props
begin

text \<open>
  Pools of one page that hold a given node, and leaves that are too full for one more record, for
  the concrete instances of the properties.
\<close>

section \<open>Samples\<close>

text \<open>The sample pool with another node in its page, dirty and held by nobody.\<close>

definition pool_with :: "btree_node \<Rightarrow> wal_manager buffer_pool" where
  "pool_with n = put_cell 0 \<lparr>frame_node = n, strong = 1, write_latched = False\<rparr> sample_page_pool"

lemma sample_heap: "length (heap sample_page_pool) = 1" "latches sample_page_pool = [False]"
proof -
  have h: "heap sample_page_pool = [heap sample_page_pool ! 0]"
    by (simp add: sample_page_pool_def sample_pool_def new_page_def make_room_def pool_new_def on_disk_def
        allocate_page_def fresh_disk_def file_header_default_def touch_def install_def record_access_def lru_new_def
        new_slot_def insert_head_def set_prev_def set_next_def index_def clone_frame_def Let_def size_consts)
  then show l: "length (heap sample_page_pool) = 1" by (metis length_Cons list.size(3) One_nat_def)
  show "latches sample_page_pool = [False]"
    using sample_page(7) by (subst latches_def, subst h) simp
qed

lemma pool_with:
  assumes "node_wf n" "node_is_dirty n"
  shows "pool_inv {4096} (pool_with n)" "alloc_ok {4096} (pool_with n)" "no_latch (pool_with n)"
    "map_of (page_table (pool_with n)) 4096 = Some 0" "node_at 0 (pool_with n) = n"
    "pool_view (pool_with n) 4096 = Some (disk_form n)"
proof -
  note sp = sample_page
  show "pool_inv {4096} (pool_with n)"
    unfolding pool_with_def using assms by (intro put_cell_spec(1) [OF sp(2,4)]) (simp add: cell_ok_def)
  show "alloc_ok {4096} (pool_with n)" using sp(3) by (simp add: pool_with_def alloc_ok_def)
  show m: "map_of (page_table (pool_with n)) 4096 = Some 0" using sp(4) by (simp add: pool_with_def)
  show nd: "node_at 0 (pool_with n) = n" using sp(8) by (simp add: pool_with_def node_at_def put_cell_nth)
  show "no_latch (pool_with n)"
    using sample_heap(1) by (cases "heap sample_page_pool") (simp_all add: no_latch_def latches_def pool_with_def put_cell_def)
  show "pool_view (pool_with n) 4096 = Some (disk_form n)" using pool_view_mapped [OF m] nd by simp
qed

text \<open>There is room in it for another page.\<close>

lemma new_page_Ok:
  assumes inv: "pool_inv L self" and al: "alloc_ok L self" and room: "length (page_table self) < pool_capacity self"
    and small: "unat (next_free_offset (header (pool_disk self))) + PAGE_SIZE < 2 ^ 64"
  obtains n g s where "new_page flush True self = (Ok (n, g), s)"
proof -
  have mr: "make_room flush self = (Ok (), self)" using room by (simp add: make_room_def)
  obtain d where d: "allocate_page (pool_disk self) = (Ok (next_free_offset (header (pool_disk self))), d)"
    using small by (cases "allocate_page (pool_disk self)") (auto simp: allocate_page_def Let_def)
  let ?n = "next_free_offset (header (pool_disk self))" and ?s = "self\<lparr>pool_disk := d\<rparr>"
  have fresh: "?n \<notin> L" and po: "page_offset ?n" using al by (auto simp: alloc_ok_def)
  have inv2: "pool_inv L ?s"
    using disk_step [OF inv, of d] allocate_stored [OF d] by simp
  have "map_of (page_table ?s) ?n = None"
    using inv fresh by (auto simp: map_of_eq_None_iff pool_inv_def contents_ok_def)
  moreover have "length (page_table ?s) < pool_capacity ?s" using room by simp
  ultimately obtain t where "touch ?n (install ?n (new_empty ?n True) ?s) = (Ok (), t)"
    by (rule install_spec [OF inv2 _ _ new_empty_wf po]) (use fresh in blast)+
  then have "new_page flush True self = (Ok (?n, length (heap self)), clone_frame (length (heap self)) t)"
    using mr d by (simp add: new_page_def on_disk_def Let_def)
  then show thesis by (rule that)
qed

lemma insert_cached:
  assumes inv: "pool_inv L self" and nl: "no_latch self" and m: "map_of (page_table self) p = Some f"
    and leaf: "node_at f self = Leaf l"
  obtains rp s where "s = set_latch f True (clone_frame f (self\<lparr>pool_replacer := rp\<rparr>))"
    "\<And>k w lsn. insert_leaf_pool flush p k w lsn self = leaving f
      (case insert_record k w l of
         (Ok _, m) \<Rightarrow> (Ok None, set_node f (mark_dirty lsn (Leaf m)) s)
       | (Err err, m) \<Rightarrow>
           if err = PageFull then split_leaf flush p k w lsn f (set_node f (Leaf m) s)
           else (Err err, set_node f (Leaf m) s)
       | (Panic p, m) \<Rightarrow> (Panic p, set_node f (Leaf m) s)
       | (Hang, m) \<Rightarrow> (Hang, set_node f (Leaf m) s))"
    "pool_inv L s" "held p f s" "latched_only {f} s" "node_at f s = Leaf l"
proof -
  obtain rp where f: "fetch_page flush p self = (Ok f, clone_frame f (self\<lparr>pool_replacer := rp\<rparr>))"
    by (rule fetch_cached_eq [OF inv m])
  let ?s = "set_latch f True (clone_frame f (self\<lparr>pool_replacer := rp\<rparr>))"
  have pL: "p \<in> L" using map_of_SomeD [OF m] inv by (force simp: pool_inv_def contents_ok_def)
  have la: "latched_only {} self" using nl by (simp add: no_latch_only)
  note fl = fetch_latch [OF inv pL la _ f, simplified]
  have lt: "f < length (heap self)" using inv table_lookup(2) [OF _ m] by (simp add: pool_inv_def)
  then have nd: "node_at f ?s = Leaf l" using leaf by (simp add: node_at_def clone_frame_def set_latch_def)
  show thesis
    by (rule that [OF refl]) (use f fl nd in \<open>simp_all add: insert_leaf_pool_def\<close>)
qed

lemma run_all_links: "leaf.run_all (puts rs) l = (Ok (), l') \<Longrightarrow> links l' = links l"
proof (induction rs arbitrary: l)
  case (Cons r rs)
  then obtain m where "insert_record (row_id r) (data r) l = (Ok (), m)" "leaf.run_all (puts rs) m = (Ok (), l')"
    by (auto simp: then_do_eq_Ok)
  then show ?case using Cons.IH insert_record_links by fastforce
qed simp

text \<open>Splitting a leaf of live records for a key of the upper half.\<close>

lemma split_insert_upper:
  assumes l: "leaf_wf l" "leaf_fits l" "fresh_leaf sib" and live: "\<forall>r \<in> set (slot_records l). \<not> is_deleted r"
    and us: "upper_half l = u # us" and k: "row_id u \<le> k" "k \<notin> row_id ` set (u # us)" and v: "length v \<le> MAX_VALUE_SIZE"
  obtains l' sib' where "split_and_insert k v (l, sib) =
      (if LEAF_NODE_HEADER_SIZE + sum_list (map rec_bytes (u # us)) + SLOT_ELEM_SIZE +
         (SLOT_ELEM_SIZE + RECORD_META_SIZE + length v) \<le> PAGE_SIZE then Ok (row_id u) else Err PageFull, (l', sib'))"
    "links l' = links l" "slot_records l' = lower_half l" "leaf_wf l'"
proof -
  have lv: "filter (\<lambda>r. \<not> is_deleted r) (upper_half l) = u # us" "filter (\<lambda>r. \<not> is_deleted r) (lower_half l) = lower_half l"
    using live by (auto simp: us [symmetric] filter_id_conv upper_half_def lower_half_def dest: in_set_dropD in_set_takeD)
  obtain t s where s: "split (l, sib) = (Ok (row_id u), (t, s))" "leaf_wf t" "leaf_wf s"
    "slot_records t = lower_half l" "slot_records s = u # us" "leaf_bytes s = live_bytes (upper_half l)" "links t = links l"
    by (rule split_spec [OF l]) (use lv split_links [OF l] in auto)
  have b: "leaf_bytes s = LEAF_NODE_HEADER_SIZE + sum_list (map rec_bytes (u # us))"
    by (simp add: leaf_bytes_def s(5))
  have ks: "k \<notin> row_id ` set (records s)" using k(2) unfolding row_ids_slot_records [OF s(3), symmetric] s(5) .
  note ia = insert_absent [OF s(3) v ks]
  have nlt: "\<not> k < row_id u" using k(1) by simp
  show thesis
  proof (cases "leaf_bytes s + SLOT_ELEM_SIZE + (SLOT_ELEM_SIZE + RECORD_META_SIZE + length v) \<le> PAGE_SIZE")
    case True
    then obtain s' where "insert_record k v s = (Ok (), s')" using ia(2) by blast
    then have "split_and_insert k v (l, sib) = (Ok (row_id u), (t, s'))"
      using s(1) nlt by (simp add: split_and_insert_def on_snd_def)
    then show thesis using that [of t s'] True s(2,4,7) b by simp
  next
    case False
    then have "insert_record k v s = (Err PageFull, s)" using ia(1) by simp
    then have "split_and_insert k v (l, sib) = (Err PageFull, (t, s))"
      using s(1) nlt by (simp add: split_and_insert_def on_snd_def)
    then show thesis using that [of t s] False s(2,4,7) b by simp
  qed
qed

text \<open>Inserting into the rightmost leaf of a pool with room for its sibling.\<close>

lemma insert_last_leaf:
  assumes inv: "pool_inv L self" and al: "alloc_ok L self" and nl: "no_latch self"
    and m: "map_of (page_table self) p = Some f" and leaf: "node_at f self = Leaf l"
    and room: "length (page_table self) < pool_capacity self"
    and small: "unat (next_free_offset (header (pool_disk self))) + PAGE_SIZE < 2 ^ 64"
    and full: "insert_record k w l = (Err PageFull, l)"
    and si: "\<And>n b. \<exists>l1 r1. split_and_insert k w (l\<lparr>is_dirty := b\<rparr>, leaf_default\<lparr>page_id := n\<rparr>) = (r, (l1, r1)) \<and>
      \<not> has_next l1 \<and> slot_records l1 = rs"
    and r: "r = Ok promoted \<or> r = Err e"
  obtains n l1 s' where
    "insert_leaf_pool flush p k w lsn self =
      (case r of Ok q \<Rightarrow> Ok (Some \<lparr>promoted_row_id = promoted, new_page_id = n\<rparr>) | _ \<Rightarrow> Err e, s')"
    "r = Err e \<Longrightarrow> pool_view s' p = Some (disk_form (Leaf l1))" "slot_records l1 = rs"
proof -
  obtain rp s where s: "s = set_latch f True (clone_frame f (self\<lparr>pool_replacer := rp\<rparr>))"
    and run: "\<And>k w lsn. insert_leaf_pool flush p k w lsn self = leaving f
      (case insert_record k w l of
         (Ok _, m) \<Rightarrow> (Ok None, set_node f (mark_dirty lsn (Leaf m)) s)
       | (Err err, m) \<Rightarrow>
           if err = PageFull then split_leaf flush p k w lsn f (set_node f (Leaf m) s)
           else (Err err, set_node f (Leaf m) s)
       | (Panic p, m) \<Rightarrow> (Panic p, set_node f (Leaf m) s)
       | (Hang, m) \<Rightarrow> (Hang, set_node f (Leaf m) s))"
    and h: "pool_inv L s" "held p f s" "latched_only {f} s" "node_at f s = Leaf l"
    by (rule insert_cached [OF inv nl m leaf, where flush = flush], rule that)
  have fields: "page_table s = page_table self" "pool_capacity s = pool_capacity self" "pool_disk s = pool_disk self"
    by (simp_all add: s clone_frame_def) (simp add: set_latch_def)
  have als: "alloc_ok L s" using al by (simp add: alloc_ok_def fields)
  obtain n g s3 where np: "new_page flush True s = (Ok (n, g), s3)"
    by (rule new_page_Ok [OF h(1) als, where flush = flush]) (use room small fields in simp_all)
  let ?c = "set_latch g True s3"
  obtain b where c: "latch_write g s3 = (Ok (), ?c)" "n \<notin> L" "n \<noteq> p" "g \<noteq> f"
    "pool_inv (insert n L) ?c" "alloc_ok (insert n L) ?c" "held p f ?c" "held n g ?c" "latched_only {f, g} ?c"
    "node_at f ?c = Leaf (l\<lparr>is_dirty := b\<rparr>)" "node_at g ?c = Leaf (leaf_default\<lparr>page_id := n\<rparr>)"
    "\<forall>q \<in> L. pool_view ?c q = pool_view s q"
    by (rule new_sibling [OF h(1) als h(2-4) np])
  obtain l1 r1 where l1: "split_and_insert k w (l\<lparr>is_dirty := b\<rparr>, leaf_default\<lparr>page_id := n\<rparr>) = (r, (l1, r1))"
    "\<not> has_next l1" "slot_records l1 = rs" using si by blast
  obtain lw' rw' where wire: "wire_siblings p n (l1, r1) = (lw', rw')" by fastforce
  let ?raw = "set_node g (Leaf r1) (set_node f (Leaf l1) ?c)"
  have same: "set_node f (Leaf l) s = s" using set_node_same [of f s] h(4) by simp
  have lt: "f < length (heap ?c)" "g < length (heap ?c)"
    by (rule held_frame [OF c(5,7)], rule held_frame [OF c(5,8)])
  show thesis
  proof (cases "r = Err e")
    case True
    then have sl: "split_leaf flush p k w lsn f s = (Err e, release g ?raw)"
      using np c(1,10,11) l1 by (simp add: split_leaf_def leaving_def)
    have "insert_leaf_pool flush p k w lsn self = (Err e, release f (release g ?raw))"
      unfolding run full using sl same by (simp add: leaving_def)
    moreover have "pool_view (release f (release g ?raw)) p = Some (disk_form (Leaf l1))"
      using c(4,7) lt by (simp add: pool_view_def held_def node_at_set)
    ultimately show thesis using that [of n "release f (release g ?raw)" l1] l1(3) True by simp
  next
    case False
    then have rok: "r = Ok promoted" using r by simp
    obtain s' where sl: "split_leaf flush p k w lsn f s =
        (Ok (Some \<lparr>promoted_row_id = promoted, new_page_id = n\<rparr>), s')"
      using np c(1,10,11) l1 rok wire by (simp add: split_leaf_def leaving_def Let_def)
    have "insert_leaf_pool flush p k w lsn self =
        (Ok (Some \<lparr>promoted_row_id = promoted, new_page_id = n\<rparr>), release f s')"
      unfolding run full using sl same by (simp add: leaving_def)
    then show thesis using that [of n "release f s'" l1] l1(3) rok by simp
  qed
qed

text \<open>A leaf built by insertions, in the sample pool, that is too full for one more record.\<close>

lemma full_leaf:
  assumes asc: "keys_ascend rs" and rs: "\<forall>r \<in> set rs. \<not> is_deleted r \<and> length (data r) \<le> MAX_VALUE_SIZE"
    and b: "LEAF_NODE_HEADER_SIZE + SLOT_ELEM_SIZE + sum_list (map rec_bytes rs) \<le> PAGE_SIZE"
    and us: "drop (length rs div 2) rs = u # us" and k: "row_id u \<le> k" "k \<notin> row_id ` set rs" and v: "length v \<le> MAX_VALUE_SIZE"
    and full: "PAGE_SIZE < LEAF_NODE_HEADER_SIZE + sum_list (map rec_bytes rs) + SLOT_ELEM_SIZE +
      (SLOT_ELEM_SIZE + RECORD_META_SIZE + length v)"
  obtains l where "leaf_wf l" "leaf_fits l" "\<not> has_next l" "slot_records l = rs" "\<And>b. insert_record k v (l\<lparr>is_dirty := b\<rparr>) = (Err PageFull, l\<lparr>is_dirty := b\<rparr>)"
    "\<And>n b. \<exists>l1 r1. split_and_insert k v (l\<lparr>is_dirty := b\<rparr>, leaf_default\<lparr>page_id := n\<rparr>) =
      (if LEAF_NODE_HEADER_SIZE + sum_list (map rec_bytes (u # us)) + SLOT_ELEM_SIZE +
         (SLOT_ELEM_SIZE + RECORD_META_SIZE + length v) \<le> PAGE_SIZE then Ok (row_id u) else Err PageFull, (l1, r1)) \<and>
      \<not> has_next l1 \<and> slot_records l1 = take (length rs div 2) rs" "last_lsn l = 0"
proof -
  obtain l where l: "leaf.run_all (puts rs) leaf_default = (Ok (), l)" "leaf_wf l" "leaf_fits l" "slot_records l = rs"
    by (rule build_leaf [OF asc _ _ b]) (use rs in auto)
  have lk: "\<not> has_next l" "last_lsn l = 0" using run_all_links [OF l(1)] by (simp_all add: links_def leaf_default_def)
  have kr: "k \<notin> row_id ` set (records l)" using k(2) unfolding row_ids_slot_records [OF l(2), symmetric] l(4) .
  have f: "insert_record k v (l\<lparr>is_dirty := b\<rparr>) = (Err PageFull, l\<lparr>is_dirty := b\<rparr>)" for b
  proof -
    have w: "leaf_wf (l\<lparr>is_dirty := b\<rparr>)" "slot_records (l\<lparr>is_dirty := b\<rparr>) = rs" using l(2,4) by (simp_all add: slot_records_def)
    have "k \<notin> row_id ` set (records (l\<lparr>is_dirty := b\<rparr>))" using kr by simp
    from insert_absent(1) [OF w(1) v this] show ?thesis using full by (simp add: leaf_bytes_def w(2) l(4))
  qed
  have n: "length (slot_array l) = length rs" using slot_records_length [of l] l(4) by simp
  have si: "\<exists>l1 r1. split_and_insert k v (l\<lparr>is_dirty := b\<rparr>, leaf_default\<lparr>page_id := n\<rparr>) =
      (if LEAF_NODE_HEADER_SIZE + sum_list (map rec_bytes (u # us)) + SLOT_ELEM_SIZE +
         (SLOT_ELEM_SIZE + RECORD_META_SIZE + length v) \<le> PAGE_SIZE then Ok (row_id u) else Err PageFull, (l1, r1)) \<and>
      \<not> has_next l1 \<and> slot_records l1 = take (length rs div 2) rs" for n b
  proof -
    let ?l = "l\<lparr>is_dirty := b\<rparr>"
    have w: "leaf_wf ?l" "leaf_fits ?l" "fresh_leaf (leaf_default\<lparr>page_id := n\<rparr>)"
      using l(2,3) by (simp_all add: fresh_leaf_def leaf_default_def)
    have sr: "slot_records ?l = rs" using l(4) by (simp add: slot_records_def)
    have halves: "upper_half ?l = u # us" "lower_half ?l = take (length rs div 2) rs"
      using us sr \<open>length (slot_array l) = length rs\<close> by (simp_all add: upper_half_def lower_half_def)
    have lv: "\<forall>r \<in> set (slot_records ?l). \<not> is_deleted r" using rs sr by simp
    have ku: "k \<notin> row_id ` set (u # us)" using k(2) us set_drop_subset [of "length rs div 2" rs] by auto
    obtain l1 r1 where "split_and_insert k v (?l, leaf_default\<lparr>page_id := n\<rparr>) =
      (if LEAF_NODE_HEADER_SIZE + sum_list (map rec_bytes (u # us)) + SLOT_ELEM_SIZE +
         (SLOT_ELEM_SIZE + RECORD_META_SIZE + length v) \<le> PAGE_SIZE then Ok (row_id u) else Err PageFull, (l1, r1))"
      "links l1 = links ?l" "slot_records l1 = lower_half ?l" "leaf_wf l1"
      by (rule split_insert_upper [OF w lv halves(1) k(1) ku v])
    moreover have "\<not> has_next l1" using lk(1) calculation(2) by (simp add: links_def)
    ultimately show ?thesis using halves(2) by auto
  qed
  show thesis by (rule that [OF l(2,3) lk(1) l(4) f si lk(2)])
qed

lemma pool_with_alone: "alone (pool_with n)"
proof -
  have "\<forall>e \<in> set (page_table sample_page_pool). e = (4096, 0)"
    by (simp add: sample_page_pool_def sample_pool_def new_page_def make_room_def pool_new_def on_disk_def
        allocate_page_def fresh_disk_def file_header_default_def touch_def install_def record_access_def lru_new_def
        new_slot_def insert_head_def set_prev_def set_next_def index_def clone_frame_def Let_def size_consts)
  then have "f = 0" if "map_of (page_table (pool_with n)) p = Some f" for p f
    using map_of_SomeD [OF that] by (auto simp: pool_with_def)
  then show ?thesis using sample_heap(1) by (fastforce simp: alone_def pool_with_def put_cell_nth)
qed

section \<open>The tree of one empty leaf\<close>

definition empty_tree :: "wal_manager bp_tree" where
  "empty_tree = bp_tree_new (pool_with (mark_dirty 3 (new_empty 4096 True))) 4096"

lemma empty_node: "node_wf (mark_dirty 3 (new_empty 4096 True))" "node_is_dirty (mark_dirty 3 (new_empty 4096 True))"
  using new_empty_wf [of 4096 True] by simp_all

lemma empty_tree:
  shows "pool_inv {4096} (buffer_pool empty_tree)" "no_latch (buffer_pool empty_tree)" "root_page_id empty_tree = 4096"
    and "(\<And>l. pool_view (buffer_pool empty_tree) 4096 = Some (Leaf l) \<Longrightarrow> leaf_map l = Map.empty \<Longrightarrow> thesis) \<Longrightarrow> thesis"
proof -
  note pw = pool_with [OF empty_node]
  show "pool_inv {4096} (buffer_pool empty_tree)" "no_latch (buffer_pool empty_tree)" "root_page_id empty_tree = 4096"
    using pw(1,3) by (simp_all add: empty_tree_def bp_tree_new_def)
  assume th: "\<And>l. pool_view (buffer_pool empty_tree) 4096 = Some (Leaf l) \<Longrightarrow> leaf_map l = Map.empty \<Longrightarrow> thesis"
  obtain l where l: "disk_form (mark_dirty 3 (new_empty 4096 True)) = Leaf l" "leaf_map l = Map.empty"
    by (simp add: new_empty_def leaf_default_def leaf_map_def slot_records_def rec_map_def)
  have "pool_view (buffer_pool empty_tree) 4096 = Some (Leaf l)"
    using pw(6) unfolding l(1) by (simp add: empty_tree_def bp_tree_new_def)
  then show thesis using th l(2) by blast
qed

lemma empty_tree_insert:
  obtains s where "insert_leaf_pool flush 4096 1 [1, 2, 3] lsn (buffer_pool empty_tree) = (Ok None, s)"
proof -
  let ?n = "mark_dirty 3 (new_empty 4096 True)"
  note pw = pool_with [OF empty_node]
  have b: "buffer_pool empty_tree = pool_with ?n" by (simp add: empty_tree_def bp_tree_new_def)
  obtain l where l: "?n = Leaf l" "slot_array l = []" by (simp add: new_empty_def leaf_default_def)
  obtain m where m: "insert_record 1 [1, 2, 3] l = (Ok (), m)"
    by (rule sample_insert [OF _ l(2)]) (use empty_node(1) l(1) in simp_all)
  have nd: "node_at 0 (pool_with ?n) = Leaf l" using pw(5) l(1) by simp
  obtain s where "insert_leaf_pool flush 4096 1 [1, 2, 3] lsn (pool_with ?n) = (Ok None, s)"
    by (rule insert_cached [OF pw(1,3,4) nd, where flush = flush]) (use m that in \<open>simp add: leaving_def\<close>)
  then show thesis using that unfolding b by blast
qed

end
