(* ===== verification/Bp_Tree_Props.thy ===== *)
theory Bp_Tree_Props
  imports Bp_Tree_Find Bp_Tree_Samples
begin

text \<open>
  The properties of \<open>insert_leaf\<close> and \<open>find_record\<close>, with their witnesses.
\<close>

text \<open>
  C21:
  Inserting where there is room. If \<open>insert_leaf\<close> answers \<open>Ok(None)\<close>, the key was absent, the page
  holds its old records and the new one, is stamped with the log number and keeps its place in
  the chain of siblings; no other page has changed, every latch and frame is let go. If the key is
  there already, or the payload is too large, it never answers \<open>Ok\<close>, and no page has changed.
\<close>

theorem insert_leaf_in_place:
  assumes "pool_inv L (buffer_pool t)" "no_latch (buffer_pool t)" "p \<in> L"
    and "pool_view (buffer_pool t) p = Some (Leaf l)" "insert_leaf flush p k w lsn t = (r, t')"
  shows "(r = Ok None \<longrightarrow> leaf_map l k = None \<and> pool_inv L (buffer_pool t') \<and> no_latch (buffer_pool t') \<and>
      (\<exists>l'. pool_view (buffer_pool t') p = Some (Leaf l') \<and> leaf_map l' = (leaf_map l)(k \<mapsto> w) \<and> last_lsn l' = lsn \<and>
        has_next l' = has_next l \<and> next_page_id l' = next_page_id l \<and> leaf_fits l') \<and>
      (\<forall>q \<in> L - {p}. pool_view (buffer_pool t') q = pool_view (buffer_pool t) q)) \<and>
    (leaf_map l k \<noteq> None \<or> MAX_VALUE_SIZE < length w \<longrightarrow>
      (\<forall>x. r \<noteq> Ok x) \<and> (\<forall>q \<in> L. pool_view (buffer_pool t') q = pool_view (buffer_pool t) q))"
proof -
  have run: "insert_leaf_pool flush p k w lsn (buffer_pool t) = (r, buffer_pool t')"
    using insert_leaf_run [OF assms(5)] by simp
  note ip = insert_in_place [OF assms(1-4) run]
  show ?thesis by (intro conjI impI ip(1) conjunct1 [OF ip(2)] conjunct2 [OF conjunct2 [OF ip(2)]])
qed

theorem insert_leaf_in_place_witness:
  "\<exists>t'. insert_leaf flush_upto 4096 1 [1, 2, 3] 7 empty_tree = (Ok None, t') \<and>
     (\<exists>l'. pool_view (buffer_pool t') 4096 = Some (Leaf l') \<and> leaf_map l' 1 = Some [1, 2, 3])"
proof -
  obtain s where "insert_leaf_pool flush_upto 4096 1 [1, 2, 3] 7 (buffer_pool empty_tree) = (Ok None, s)"
    by (rule empty_tree_insert)
  then have run: "insert_leaf flush_upto 4096 1 [1, 2, 3] 7 empty_tree = (Ok None, empty_tree\<lparr>buffer_pool := s\<rparr>)"
    by (simp add: insert_leaf_def on_pool_def)
  obtain l where l: "pool_view (buffer_pool empty_tree) 4096 = Some (Leaf l)" by (rule empty_tree(4))
  have i4: "(4096::page_id) \<in> {4096}" by simp
  from conjunct1 [OF insert_leaf_in_place [OF empty_tree(1,2) i4 l run]] obtain l' where
    l': "pool_view (buffer_pool (empty_tree\<lparr>buffer_pool := s\<rparr>)) 4096 = Some (Leaf l')" "leaf_map l' = (leaf_map l)(1 \<mapsto> [1, 2, 3])"
    by auto
  then have "leaf_map l' 1 = Some [1, 2, 3]" by simp
  with run l'(1) show ?thesis by blast
qed

text \<open>
  C6:
  Inserting with a split. If \<open>insert_leaf\<close> on a leaf that fits its page answers a split, the new
  page was not in use; the two leaves together hold the old records and the new one, the left
  below the promoted key and the right from it on; both are stamped; the sibling chain runs
  left, new, old right, in both directions; no other page has changed; the invariant holds with
  the new page in use, and every latch is let go.
\<close>

theorem insert_leaf_splits:
  assumes "pool_inv L (buffer_pool t)" "alloc_ok L (buffer_pool t)" "no_latch (buffer_pool t)" "p \<in> L"
    and "pool_view (buffer_pool t) p = Some (Leaf l)" "leaf_fits l"
    and "has_next l \<longrightarrow> next_page_id l \<in> L \<and> next_page_id l \<noteq> p"
    and "insert_leaf flush p k w lsn t = (Ok (Some sr), t')"
  shows "leaf_map l k = None \<and> new_page_id sr \<notin> L \<and> pool_inv (insert (new_page_id sr) L) (buffer_pool t') \<and>
    no_latch (buffer_pool t') \<and>
    (\<exists>l' r'. split_done k w lsn p (new_page_id sr) (promoted_row_id sr) l l' r' \<and>
      pool_view (buffer_pool t') p = Some (Leaf l') \<and> pool_view (buffer_pool t') (new_page_id sr) = Some (Leaf r')) \<and>
    (\<forall>q \<in> L - {p}. pool_view (buffer_pool t') q = (if has_next l \<and> q = next_page_id l
       then map_option (relinked (new_page_id sr) lsn) (pool_view (buffer_pool t) q) else pool_view (buffer_pool t) q))"
proof -
  have run: "insert_leaf_pool flush p k w lsn (buffer_pool t) = (Ok (Some sr), buffer_pool t')"
    using insert_leaf_run [OF assms(8)] by simp
  note sp = insert_splits [OF assms(1-7) run]
  show ?thesis
    by (intro conjI conjunct1 [OF sp] conjunct1 [OF conjunct2 [OF sp]] conjunct1 [OF conjunct2 [OF conjunct2 [OF sp]]]
        conjunct1 [OF conjunct2 [OF conjunct2 [OF conjunct2 [OF conjunct2 [OF sp]]]]]
        conjunct1 [OF conjunct2 [OF conjunct2 [OF conjunct2 [OF conjunct2 [OF conjunct2 [OF sp]]]]]]
        conjunct2 [OF conjunct2 [OF conjunct2 [OF conjunct2 [OF conjunct2 [OF conjunct2 [OF sp]]]]]])
qed

text \<open>Nine records of 400 bytes.\<close>

definition nine :: "db_record list" where
  "nine = map (rec_of 400) [1, 2, 3, 4, 5, 6, 7, 8, 9]"

lemma sample_pool_room:
  "length (page_table (pool_with n)) < pool_capacity (pool_with n)"
  "unat (next_free_offset (header (pool_disk (pool_with n)))) + PAGE_SIZE < 2 ^ 64"
  by (simp_all add: pool_with_def sample_page_pool_def sample_pool_def new_page_def make_room_def pool_new_def on_disk_def
      allocate_page_def fresh_disk_def file_header_default_def touch_def install_def record_access_def lru_new_def
      new_slot_def insert_head_def set_prev_def set_next_def index_def clone_frame_def Let_def size_consts)

definition dirtied :: "leaf_node \<Rightarrow> btree_node" where
  "dirtied l = Leaf (l\<lparr>is_dirty := True\<rparr>)"

lemma dirtied: "leaf_wf l \<Longrightarrow> node_wf (dirtied l)" "node_is_dirty (dirtied l)"
  by (simp_all add: dirtied_def)

lemma dirtied_form:
  obtains l0 where "disk_form (dirtied l) = Leaf l0" "leaf_fits l0 = leaf_fits l" "has_next l0 = has_next l"
    "leaf_map l0 = leaf_map l" "last_lsn l0 = last_lsn l"
  by (rule that [of "l\<lparr>free_size := free_for (leaf_bytes l), is_dirty := False\<rparr>"])
    (simp_all add: dirtied_def leaf_map_def leaf_fits_def leaf_bytes_def slot_records_def)

text \<open>The tree of one full leaf: what inserting into it answers, whether or not the split makes room.\<close>

lemma insert_full_sample:
  assumes l: "leaf_wf l" "leaf_fits l" "\<not> has_next l" "slot_records l = rs"
      "\<And>b. insert_record k v (l\<lparr>is_dirty := b\<rparr>) = (Err PageFull, l\<lparr>is_dirty := b\<rparr>)"
    and si: "\<And>n b. \<exists>l1 r1. split_and_insert k v (l\<lparr>is_dirty := b\<rparr>, leaf_default\<lparr>page_id := n\<rparr>) = (r, (l1, r1)) \<and>
      \<not> has_next l1 \<and> slot_records l1 = take (length rs div 2) rs"
    and r: "r = Ok promoted \<or> r = Err e"
  obtains n l1 s where
    "insert_leaf_pool flush 4096 k v lsn (pool_with (dirtied l)) =
      (case r of Ok q \<Rightarrow> Ok (Some \<lparr>promoted_row_id = promoted, new_page_id = n\<rparr>) | _ \<Rightarrow> Err e, s)"
    "r = Err e \<Longrightarrow> pool_view s 4096 = Some (disk_form (Leaf l1))" "slot_records l1 = take (length rs div 2) rs"
proof -
  note pw = pool_with [OF dirtied(1) [OF l(1)] dirtied(2)]
  have nd: "node_at 0 (pool_with (dirtied l)) = Leaf (l\<lparr>is_dirty := True\<rparr>)" using pw(5) by (simp add: dirtied_def)
  have si': "\<exists>l1 r1. split_and_insert k v (l\<lparr>is_dirty := True\<rparr>\<lparr>is_dirty := b\<rparr>, leaf_default\<lparr>page_id := n\<rparr>) = (r, (l1, r1)) \<and>
      \<not> has_next l1 \<and> slot_records l1 = take (length rs div 2) rs" for n b
    using si [of b n] by simp
  show thesis
    by (rule insert_last_leaf [OF pw(1-4) nd sample_pool_room l(5) si' r, where flush = flush and lsn = lsn], rule that)
qed

lemma sample_split:
  obtains t sr t' l0 where "pool_inv {4096} (buffer_pool t)" "alloc_ok {4096} (buffer_pool t)" "no_latch (buffer_pool t)"
    "pool_view (buffer_pool t) 4096 = Some (Leaf l0)" "leaf_fits l0" "\<not> has_next l0" "last_lsn l0 = 0" "alone (buffer_pool t)"
    "insert_leaf flush_upto 4096 10 (replicate 400 0) 7 t = (Ok (Some sr), t')" "promoted_row_id sr = 5"
proof -
  have us: "drop (length nine div 2) nine = rec_of 400 5 # map (rec_of 400) [6, 7, 8, 9]" by (simp add: nine_def)
  obtain l where l: "leaf_wf l" "leaf_fits l" "\<not> has_next l" "slot_records l = nine"
    "\<And>b. insert_record 10 (replicate 400 0) (l\<lparr>is_dirty := b\<rparr>) = (Err PageFull, l\<lparr>is_dirty := b\<rparr>)"
    "\<And>n b. \<exists>l1 r1. split_and_insert 10 (replicate 400 0) (l\<lparr>is_dirty := b\<rparr>, leaf_default\<lparr>page_id := n\<rparr>) =
      (Ok 5, (l1, r1)) \<and> \<not> has_next l1 \<and> slot_records l1 = take (length nine div 2) nine" "last_lsn l = 0"
    by (rule full_leaf [OF _ _ _ us, of 10 "replicate 400 0"]) (simp_all add: nine_def size_consts)
  obtain s sr where run: "insert_leaf_pool flush_upto 4096 10 (replicate 400 0) 7 (pool_with (dirtied l)) = (Ok (Some sr), s)"
    and sr: "promoted_row_id sr = 5"
    by (rule insert_full_sample [OF l(1-6), of 5, where flush = flush_upto and lsn = 7]) auto
  define t where "t = bp_tree_new (pool_with (dirtied l)) 4096"
  have b: "buffer_pool t = pool_with (dirtied l)" by (simp add: t_def bp_tree_new_def)
  note pw = pool_with [OF dirtied(1) [OF l(1)] dirtied(2)]
  obtain l0 where l0: "disk_form (dirtied l) = Leaf l0" "leaf_fits l0" "\<not> has_next l0" "last_lsn l0 = 0"
    by (rule dirtied_form [of l]) (use l(2,3,7) that in simp)
  have v: "pool_view (buffer_pool t) 4096 = Some (Leaf l0)" unfolding b pw(6) l0(1) ..
  have il: "insert_leaf flush_upto 4096 10 (replicate 400 0) 7 t = (Ok (Some sr), t\<lparr>buffer_pool := s\<rparr>)"
    using run by (simp add: insert_leaf_def on_pool_def b)
  show thesis by (rule that [OF pw(1-3) [folded b] v l0(2-4) pool_with_alone [of "dirtied l", folded b] il sr])
qed

theorem insert_leaf_splits_witness:
  "\<exists>t sr t'. insert_leaf flush_upto 4096 10 (replicate 400 0) 7 t = (Ok (Some sr), t') \<and> promoted_row_id sr = 5 \<and>
     new_page_id sr \<noteq> 4096 \<and> (\<exists>r'. pool_view (buffer_pool t') (new_page_id sr) = Some (Leaf r') \<and> prev_page_id r' = 4096)"
proof -
  obtain t sr t' l0 where s: "pool_inv {4096} (buffer_pool t)" "alloc_ok {4096} (buffer_pool t)" "no_latch (buffer_pool t)"
    "pool_view (buffer_pool t) 4096 = Some (Leaf l0)" "leaf_fits l0" "\<not> has_next l0" "last_lsn l0 = 0" "alone (buffer_pool t)"
    "insert_leaf flush_upto 4096 10 (replicate 400 0) 7 t = (Ok (Some sr), t')" "promoted_row_id sr = 5"
    by (rule sample_split)
  have i4: "(4096::page_id) \<in> {4096}" by simp
  have nx: "has_next l0 \<longrightarrow> next_page_id l0 \<in> {4096} \<and> next_page_id l0 \<noteq> 4096" using s(6) by simp
  note sp = insert_leaf_splits [OF s(1-3) i4 s(4,5) nx s(9)]
  have "new_page_id sr \<noteq> 4096" using conjunct1 [OF conjunct2 [OF sp]] by simp
  moreover obtain r' where "pool_view (buffer_pool t') (new_page_id sr) = Some (Leaf r')" "prev_page_id r' = 4096"
    using conjunct1 [OF conjunct2 [OF conjunct2 [OF conjunct2 [OF conjunct2 [OF sp]]]]] by (auto simp: split_done_def)
  ultimately show ?thesis using s(9,10) by blast
qed

text \<open>
  C23:
  A split that does not make room loses records. If \<open>insert_leaf\<close> on the rightmost leaf answers
  \<open>PageFull\<close> and the page is not as it was, then some record that was in the tree is gone: a
  search for it from this page, whatever the devices do, answers that there is no such record.
\<close>

theorem failed_split_loses_records:
  assumes "pool_inv L (buffer_pool t)" "alloc_ok L (buffer_pool t)" "no_latch (buffer_pool t)" "root_page_id t \<in> L"
    and "pool_view (buffer_pool t) (root_page_id t) = Some (Leaf l)" "leaf_fits l" "\<not> has_next l"
    and "insert_leaf flush (root_page_id t) k w lsn t = (Err PageFull, t')"
    and "pool_view (buffer_pool t') (root_page_id t) \<noteq> pool_view (buffer_pool t) (root_page_id t)"
  shows "\<exists>x v. leaf_map l x = Some v \<and> (\<exists>t''. find_record flush' x t' = Some (Ok None, t''))"
proof -
  have run: "insert_leaf_pool flush (root_page_id t) k w lsn (buffer_pool t) = (Err PageFull, buffer_pool t')"
    and root: "root_page_id t' = root_page_id t"
    using insert_leaf_run [OF assms(8)] by simp_all
  show ?thesis
  proof (rule insert_full_cases [OF assms(1-7) run])
    assume "pool_view (buffer_pool t') (root_page_id t) = pool_view (buffer_pool t) (root_page_id t)"
    then show ?thesis using assms(9) by simp
  next
    fix f l'
    assume f: "map_of (page_table (buffer_pool t')) (root_page_id t) = Some f" "node_at f (buffer_pool t') = Leaf l'"
      "leaf_wf l'" "\<exists>x. leaf_map l x \<noteq> None \<and> leaf_map l' x = None" "tracking (buffer_pool t')"
      "f < length (heap (buffer_pool t'))" "distinct (map fst (page_table (buffer_pool t')))" "no_latch (buffer_pool t')"
    obtain x v where x: "leaf_map l x = Some v" "leaf_map l' x = None" using f(4) by auto
    have "node_wf (node_at f (buffer_pool t'))" using f(2,3) by simp
    from find_turn_cached [OF f(5,7,1,8,6) this, where flush = flush' and k = x] obtain s' where
      "find_turn flush' x (root_page_id t) (buffer_pool t') = (Ok (Return None), s')" using f(2) x(2) by auto
    then have "find_loop flush' x (root_page_id t) (buffer_pool t') = Some (Ok None, s')"
      by (subst find_loop.simps) simp
    then show ?thesis using x(1) root by (auto simp: find_record_def)
  qed
qed

theorem failed_split_loses_records_witness:
  "\<exists>t t' x. insert_leaf flush_upto 4096 20 (replicate 400 0) 7 t = (Err PageFull, t') \<and>
     (\<exists>t''. find_record flush_upto x t' = Some (Ok None, t''))"
proof -
  have us: "drop (length lopsided div 2) lopsided = rec_of 0 10 # map (rec_of 400) [11, 12, 13, 14, 15, 16, 17, 18, 19]"
    by (simp add: lopsided_def)
  obtain l where l: "leaf_wf l" "leaf_fits l" "\<not> has_next l" "slot_records l = lopsided"
    "\<And>b. insert_record 20 (replicate 400 0) (l\<lparr>is_dirty := b\<rparr>) = (Err PageFull, l\<lparr>is_dirty := b\<rparr>)"
    "\<And>n b. \<exists>l1 r1. split_and_insert 20 (replicate 400 0) (l\<lparr>is_dirty := b\<rparr>, leaf_default\<lparr>page_id := n\<rparr>) =
      (Err PageFull, (l1, r1)) \<and> \<not> has_next l1 \<and> slot_records l1 = take (length lopsided div 2) lopsided" "last_lsn l = 0"
    by (rule full_leaf [OF _ _ _ us, of 20 "replicate 400 0"]) (simp_all add: lopsided_def size_consts)
  obtain l1 s where run: "insert_leaf_pool flush_upto 4096 20 (replicate 400 0) 7 (pool_with (dirtied l)) = (Err PageFull, s)"
    and s: "pool_view s 4096 = Some (disk_form (Leaf l1))" "slot_records l1 = take (length lopsided div 2) lopsided"
    by (rule insert_full_sample [OF l(1-6), of 0 PageFull, where flush = flush_upto and lsn = 7]) auto
  define t where "t = bp_tree_new (pool_with (dirtied l)) 4096"
  have b: "buffer_pool t = pool_with (dirtied l)" and root: "root_page_id t = 4096" by (simp_all add: t_def bp_tree_new_def)
  note pw = pool_with [OF dirtied(1) [OF l(1)] dirtied(2)]
  obtain l0 where l0: "disk_form (dirtied l) = Leaf l0" "leaf_fits l0" "\<not> has_next l0" "leaf_map l0 = leaf_map l"
    by (rule dirtied_form [of l]) (use l(2,3) that in simp)
  have v: "pool_view (buffer_pool t) (root_page_id t) = Some (Leaf l0)" unfolding b root pw(6) l0(1) ..
  have il: "insert_leaf flush_upto (root_page_id t) 20 (replicate 400 0) 7 t = (Err PageFull, t\<lparr>buffer_pool := s\<rparr>)"
    using run by (simp add: insert_leaf_def on_pool_def b root)
  have "leaf_map l1 19 = None" "leaf_map l 19 \<noteq> None"
    by (simp_all add: leaf_map_def s(2) l(4) lopsided_def rec_map_def rec_of_def)
  then have "disk_form (Leaf l1) \<noteq> Leaf l0" using l0(4) by (auto simp: leaf_map_def slot_records_def)
  then have ch: "pool_view (buffer_pool (t\<lparr>buffer_pool := s\<rparr>)) (root_page_id t) \<noteq> pool_view (buffer_pool t) (root_page_id t)"
    unfolding v using s(1) root by simp
  have i4: "root_page_id t \<in> {4096}" by (simp add: root)
  from failed_split_loses_records [OF pw(1) [folded b] pw(2) [folded b] pw(3) [folded b] i4 v l0(2,3) il ch, of flush_upto]
  show ?thesis using il root by auto
qed

text \<open>
  C10:
  Searching is total on a tree and finds the record. If the routing entries lead from the root to
  a leaf, over pages in use, the search comes back, and no page has changed. It answers the record
  of the key in that leaf, or that there is none; or it answers the error with which the fetch of
  a page failed that the search had come to. When the pages are cached there is no such page, and
  it answers the record.
\<close>

theorem find_record_correct:
  assumes "pool_inv L (buffer_pool t)" "no_latch (buffer_pool t)" "calm flush"
    and "routes L (pool_view (buffer_pool t)) k (root_page_id t) l"
  shows "\<exists>r t'. find_record flush k t = Some (r, t') \<and>
    (r = Ok (leaf_map l k) \<or> (\<exists>e. r = Err e \<and> fetch_fails flush k (root_page_id t) (buffer_pool t) e)) \<and>
    (all_cached L (buffer_pool t) \<longrightarrow> r = Ok (leaf_map l k)) \<and>
    (\<forall>q \<in> L. pool_view (buffer_pool t') q = pool_view (buffer_pool t) q)"
proof -
  obtain r s where "find_loop flush k (root_page_id t) (buffer_pool t) = Some (r, s)"
    "r = Ok (leaf_map l k) \<or> (\<exists>e. r = Err e \<and> fetch_fails flush k (root_page_id t) (buffer_pool t) e \<and>
      \<not> all_cached L (buffer_pool t))" "\<forall>q \<in> L. pool_view s q = pool_view (buffer_pool t) q"
    using find_loop_spec [OF assms(4) _ assms(1-3)] by auto
  then show ?thesis by (intro exI [of _ r] exI [of _ "t\<lparr>buffer_pool := s\<rparr>"]) (auto simp: find_record_def)
qed

theorem find_record_correct_witness:
  "\<exists>t' t''. find_record flush_upto 30 (bp_tree_new (pool_with (dirtied sample_leaf)) 4096) = Some (Ok (Some [3]), t') \<and>
     find_record flush_upto 19 (bp_tree_new (pool_with (dirtied sample_leaf)) 4096) = Some (Ok None, t'')"
proof -
  note pw = pool_with [OF dirtied(1) [OF sample_leaf_wf(1)] dirtied(2)]
  define t where "t = bp_tree_new (pool_with (dirtied sample_leaf)) 4096"
  have b: "buffer_pool t = pool_with (dirtied sample_leaf)" and root: "root_page_id t = 4096"
    by (simp_all add: t_def bp_tree_new_def)
  obtain l0 where l0: "disk_form (dirtied sample_leaf) = Leaf l0" "leaf_map l0 = leaf_map sample_leaf"
    by (rule dirtied_form)
  have "routes {4096} (pool_view (buffer_pool t)) k (root_page_id t) l0" for k
    by (rule routes.here) (use pw(6) l0(1) in \<open>simp_all add: b root\<close>)
  from find_record_correct [OF pw(1) [folded b] pw(3) [folded b] flush_upto_calm this]
  have r: "all_cached {4096} (buffer_pool t) \<Longrightarrow> \<exists>t'. find_record flush_upto k t = Some (Ok (leaf_map l0 k), t')" for k
    by blast
  have "4096 \<in> fst ` set (page_table (buffer_pool t))" using map_of_SomeD [OF pw(4)] b by force
  then have "all_cached {4096} (buffer_pool t)" by (simp add: all_cached_def)
  from r [OF this, of 30] r [OF this, of 19] show ?thesis
    unfolding t_def l0(2) by (simp add: sample_leaf_facts(2))
qed

text \<open>
  C32:
  The search loop has no guard against a cycle. If the root lies in a set of cached internal pages
  whose entries route the key among themselves, \<open>find_record\<close> never comes back.
\<close>

theorem find_record_cycles:
  assumes "pool_inv L (buffer_pool t)" "no_latch (buffer_pool t)" "root_page_id t \<in> C" "routing_cycle C k (buffer_pool t)"
  shows "find_record flush k t = None"
proof (rule ccontr)
  assume "find_record flush k t \<noteq> None"
  then obtain y where y: "find_loop flush k (root_page_id t) (buffer_pool t) = Some y" by (auto simp: find_record_def)
  have "tracking (buffer_pool t)" "distinct (map fst (page_table (buffer_pool t)))"
    using assms(1) by (simp_all add: pool_inv_def table_wf_def)
  from find_loop_cycles [OF y assms(3,4) this(1) assms(2) this(2)] show False .
qed

theorem find_record_cycles_witness:
  "find_record flush_upto 5
     (bp_tree_new (pool_with (mark_dirty 3 (Internal (internal_default\<lparr>rightmost_child_id := 4096\<rparr>)))) 4096) = None"
proof -
  let ?i = "internal_default\<lparr>rightmost_child_id := 4096, inner_last_lsn := 3, inner_is_dirty := True\<rparr>"
  let ?n = "mark_dirty 3 (Internal (internal_default\<lparr>rightmost_child_id := 4096\<rparr>))"
  define t where "t = bp_tree_new (pool_with ?n) 4096"
  have i: "inner_wf ?i" "slot_entries ?i = []" by (simp_all add: internal_default_def inner_wf_def slot_entries_def)
  have wf: "node_wf ?n" "node_is_dirty ?n" using i(1) by simp_all
  note pw = pool_with [OF wf]
  have b: "buffer_pool t = pool_with ?n" "root_page_id t \<in> {4096}" by (simp_all add: t_def bp_tree_new_def)
  have "0 < length (heap (pool_with ?n))" using sample_heap(1) by (simp add: pool_with_def)
  then have "routing_cycle {4096} 5 (buffer_pool t)"
    using pw(4,5) i unfolding b routing_cycle_def by (simp add: routed_child_def)
  from find_record_cycles [OF pw(1) [folded b(1)] pw(3) [folded b(1)] b(2) this] show ?thesis unfolding t_def .
qed

end
