(* ===== verification/Tree_Map.thy ===== *)
theory Tree_Map
  imports Bp_Tree_Props
begin

text \<open>
  The tree as a finite map. The pages reached from a root hold a map when every key is routed to a
  leaf that has its record; insertions that need no split and searches, in any order and with any
  evictions and device failures below them, act on that map.
\<close>

section \<open>The map that a tree holds\<close>

text \<open>The page of the leaf that the routing entries lead to.\<close>

inductive leads :: "page_id set \<Rightarrow> (page_id \<Rightarrow> btree_node option) \<Rightarrow> u64 \<Rightarrow> page_id \<Rightarrow> page_id \<Rightarrow> bool"
  for L view k where
  leaf: "p \<in> L \<Longrightarrow> view p = Some (Leaf l) \<Longrightarrow> leads L view k p p"
| child: "p \<in> L \<Longrightarrow> view p = Some (Internal i) \<Longrightarrow>
    leads L view k (routed_child (slot_entries i) (rightmost_child_id i) k) q \<Longrightarrow> leads L view k p q"

definition tree_holds :: "page_id set \<Rightarrow> (page_id \<Rightarrow> btree_node option) \<Rightarrow> page_id \<Rightarrow> (u64 \<rightharpoonup> u8 list) \<Rightarrow> bool" where
  "tree_holds L view root M \<longleftrightarrow> (\<forall>k. \<exists>l. routes L view k root l \<and> leaf_map l k = M k)"

lemma leads_leaf: "leads L view k p q \<Longrightarrow> q \<in> L \<and> (\<exists>l. view q = Some (Leaf l))"
  by (induction rule: leads.induct) auto

lemma leads_routes: "leads L view k p q \<Longrightarrow> view q = Some (Leaf l) \<Longrightarrow> routes L view k p l"
  by (induction rule: leads.induct) (auto intro: routes.intros)

inductive_simps routes_at: "routes L view k p l"

lemma routes_unique: "routes L view k p l \<Longrightarrow> routes L view k p l' \<Longrightarrow> l' = l"
proof (induction rule: routes.induct)
  case (here p l)
  then show ?case by (subst (asm) (1) routes_at) simp
next
  case (down p i l)
  from down.prems down.hyps(2) have "routes L view k (routed_child (slot_entries i) (rightmost_child_id i) k) l'"
    by (subst (asm) routes_at) simp
  then show ?case by (rule down.IH)
qed

text \<open>Another leaf in one page, and every other page as it was.\<close>

lemma leads_update:
  assumes "leads L view k p q'" "view q = Some (Leaf l)" "view' q = Some (Leaf l')" "\<forall>x \<in> L - {q}. view' x = view x"
  shows "leads L view' k p q'"
  using assms(1)
proof (induction rule: leads.induct)
  case (leaf p m)
  then show ?case using assms(3,4) by (cases "p = q") (auto intro: leads.leaf)
next
  case (child p i q')
  then have "p \<noteq> q" using assms(2) by auto
  then show ?case using child assms(4) by (auto intro: leads.child)
qed

lemma routes_update:
  assumes "routes L view k p m" "view q = Some (Leaf l)" "view' q = Some (Leaf l')" "\<forall>x \<in> L - {q}. view' x = view x"
  shows "routes L view' k p m \<or> m = l \<and> routes L view' k p l'"
  using assms(1)
proof (induction rule: routes.induct)
  case (here p m)
  then show ?case using assms(2-4) by (cases "p = q") (auto intro: routes.here)
next
  case (down p i m)
  then have "p \<noteq> q" using assms(2) by auto
  then show ?case using down assms(4) by (auto intro: routes.down)
qed

lemma tree_holds_cong: "\<forall>q \<in> L. view' q = view q \<Longrightarrow> tree_holds L view root M \<Longrightarrow> tree_holds L view' root M"
  unfolding tree_holds_def using routes_cong [of L view _ root _ view'] by blast

lemma leads_cong: "leads L view k p q \<Longrightarrow> \<forall>q \<in> L. view' q = view q \<Longrightarrow> leads L view' k p q"
  by (induction rule: leads.induct) (auto intro: leads.intros)

lemma tree_holds_insert:
  assumes M: "tree_holds L view root M" and q: "leads L view k root q" and l: "view q = Some (Leaf l)"
    and l': "view' q = Some (Leaf l')" "leaf_map l' = (leaf_map l)(k \<mapsto> v)" and rest: "\<forall>x \<in> L - {q}. view' x = view x"
  shows "tree_holds L view' root (M(k \<mapsto> v))" "leaf_map l k = M k"
proof -
  have rk: "routes L view k root l" by (rule leads_routes [OF q l])
  obtain m where m: "routes L view k root m" "leaf_map m k = M k" using M by (auto simp: tree_holds_def)
  then show "leaf_map l k = M k" using routes_unique [OF rk m(1)] by simp
  have rk': "routes L view' k root l'" by (rule leads_routes [OF leads_update [OF q l l'(1) rest] l'(1)])
  show "tree_holds L view' root (M(k \<mapsto> v))"
    unfolding tree_holds_def
  proof
    fix x
    show "\<exists>l. routes L view' x root l \<and> leaf_map l x = (M(k \<mapsto> v)) x"
    proof (cases "x = k")
      case True
      then show ?thesis using rk' l'(2) by auto
    next
      case False
      obtain m where m: "routes L view x root m" "leaf_map m x = M x" using M by (auto simp: tree_holds_def)
      from routes_update [OF m(1) l l'(1) rest] show ?thesis using m(2) l'(2) False by auto
    qed
  qed
qed

section \<open>Runs\<close>

text \<open>
  What a client of the tree does and is told: an insertion that needed no split, a search that was
  answered or failed, and a flush of the pool, answered or not, as the background thread does it.
\<close>

datatype tree_event = Inserted page_id u64 "u8 list" | Answered u64 "u8 list option" | Unanswered u64 | Flushed

inductive tree_run :: "'w flush_fn \<Rightarrow> 'w bp_tree \<Rightarrow> tree_event list \<Rightarrow> 'w bp_tree \<Rightarrow> bool" for flush where
  stop: "tree_run flush t [] t"
| insert: "insert_leaf flush q k w lsn t = (Ok None, t1) \<Longrightarrow> tree_run flush t1 es t2 \<Longrightarrow>
    tree_run flush t (Inserted q k w # es) t2"
| search: "find_record flush k t = Some (Ok v, t1) \<Longrightarrow> tree_run flush t1 es t2 \<Longrightarrow>
    tree_run flush t (Answered k v # es) t2"
| fault: "find_record flush k t = Some (Err e, t1) \<Longrightarrow> tree_run flush t1 es t2 \<Longrightarrow>
    tree_run flush t (Unanswered k # es) t2"
| flush: "on_pool (flush_all_pages flush) t = (r, t1) \<Longrightarrow> tree_run flush t1 es t2 \<Longrightarrow>
    tree_run flush t (Flushed # es) t2"

text \<open>The same on a map: an insertion finds its key absent, an answer is what the map has.\<close>

primrec map_run :: "tree_event list \<Rightarrow> (u64 \<rightharpoonup> u8 list) \<Rightarrow> (u64 \<rightharpoonup> u8 list) option" where
  "map_run [] M = Some M"
| "map_run (e # es) M = (case e of
      Inserted q k w \<Rightarrow> if M k = None then map_run es (M(k \<mapsto> w)) else None
    | Answered k v \<Rightarrow> if v = M k then map_run es M else None
    | Unanswered k \<Rightarrow> map_run es M
    | Flushed \<Rightarrow> map_run es M)"

definition tree_ok :: "page_id set \<Rightarrow> (u64 \<rightharpoonup> u8 list) \<Rightarrow> 'w bp_tree \<Rightarrow> bool" where
  "tree_ok L M t \<longleftrightarrow> pool_inv L (buffer_pool t) \<and> no_latch (buffer_pool t) \<and>
     tree_holds L (pool_view (buffer_pool t)) (root_page_id t) M"

text \<open>Insertions go to the leaf that their key is routed to.\<close>

definition well_aimed :: "page_id set \<Rightarrow> tree_event list \<Rightarrow> 'w bp_tree \<Rightarrow> bool" where
  "well_aimed L es t \<longleftrightarrow> (\<forall>q k w. Inserted q k w \<in> set es \<longrightarrow> leads L (pool_view (buffer_pool t)) k (root_page_id t) q)"

lemma insert_event:
  assumes ok: "tree_ok L M t" and q: "leads L (pool_view (buffer_pool t)) k (root_page_id t) q"
    and run: "insert_leaf flush q k w lsn t = (Ok None, t1)"
  shows "M k = None" "tree_ok L (M(k \<mapsto> w)) t1" "well_aimed L es t \<Longrightarrow> well_aimed L es t1"
proof -
  have pre: "pool_inv L (buffer_pool t)" "no_latch (buffer_pool t)"
    and M: "tree_holds L (pool_view (buffer_pool t)) (root_page_id t) M"
    using ok by (simp_all add: tree_ok_def)
  obtain l where qL: "q \<in> L" and l: "pool_view (buffer_pool t) q = Some (Leaf l)" using leads_leaf [OF q] by blast
  have run': "insert_leaf_pool flush q k w lsn (buffer_pool t) = (Ok None, buffer_pool t1)"
    and root: "root_page_id t1 = root_page_id t" using insert_leaf_run [OF run] by simp_all
  note ip = insert_in_place(1) [OF pre qL l run' refl]
  obtain l' where l': "pool_view (buffer_pool t1) q = Some (Leaf l')" "leaf_map l' = (leaf_map l)(k \<mapsto> w)"
    using ip by blast
  have rest: "\<forall>x \<in> L - {q}. pool_view (buffer_pool t1) x = pool_view (buffer_pool t) x" using ip by blast
  note th = tree_holds_insert [OF M q l l' rest]
  show "M k = None" using ip th(2) by simp
  show "tree_ok L (M(k \<mapsto> w)) t1" using ip th(1) root by (simp add: tree_ok_def)
  show "well_aimed L es t1" if "well_aimed L es t"
    using that leads_update [OF _ l l'(1) rest] unfolding well_aimed_def root by blast
qed

lemma view_event:
  assumes "tree_ok L M t" "pool_inv L (buffer_pool t1)" "no_latch (buffer_pool t1)" "root_page_id t1 = root_page_id t"
    and view: "\<forall>q \<in> L. pool_view (buffer_pool t1) q = pool_view (buffer_pool t) q"
  shows "tree_ok L M t1" "well_aimed L es t \<Longrightarrow> well_aimed L es t1"
  using assms tree_holds_cong [OF view] leads_cong [OF _ view] unfolding tree_ok_def well_aimed_def by auto

lemma search_event:
  assumes ok: "tree_ok L M t" and c: "calm flush" and run: "find_record flush k t = Some (r, t1)"
  shows "r = Ok (M k) \<or> (\<exists>e. r = Err e)" "tree_ok L M t1" "well_aimed L es t \<Longrightarrow> well_aimed L es t1"
proof -
  have pre: "pool_inv L (buffer_pool t)" "no_latch (buffer_pool t)"
    using ok by (simp_all add: tree_ok_def)
  obtain l where l: "routes L (pool_view (buffer_pool t)) k (root_page_id t) l" "leaf_map l k = M k"
    using ok by (auto simp: tree_ok_def tree_holds_def)
  obtain r' s where s: "find_loop flush k (root_page_id t) (buffer_pool t) = Some (r', s)"
    "r' = Ok (leaf_map l k) \<or> (\<exists>e. r' = Err e)" "pool_inv L s" "no_latch s"
    "\<forall>q \<in> L. pool_view s q = pool_view (buffer_pool t) q"
    using find_loop_spec [OF l(1) _ pre c] by blast
  have t1: "r = r'" "t1 = t\<lparr>buffer_pool := s\<rparr>" using run s(1) by (simp_all add: find_record_def)
  show "r = Ok (M k) \<or> (\<exists>e. r = Err e)" using s(2) l(2) t1(1) by simp
  note ve = view_event [OF ok, of t1]
  show "tree_ok L M t1" "well_aimed L es t \<Longrightarrow> well_aimed L es t1"
    using ve s(3-5) t1(2) by simp_all
qed

lemma flush_event:
  assumes ok: "tree_ok L M t" and run: "on_pool (flush_all_pages flush) t = (r, t1)"
  shows "tree_ok L M t1" "well_aimed L es t \<Longrightarrow> well_aimed L es t1"
proof -
  have pre: "pool_inv L (buffer_pool t)" "no_latch (buffer_pool t)" using ok by (simp_all add: tree_ok_def)
  obtain s where s: "flush_all_pages flush (buffer_pool t) = (r, s)" "t1 = t\<lparr>buffer_pool := s\<rparr>"
    using run by (auto simp: on_pool_def split: prod.splits)
  note fa = flush_all_pages_spec [OF pre(1) s(1)]
  have "no_latch s" using fa same_shape_latches [of "buffer_pool t" s] pre(2) by (simp add: no_latch_def)
  then show "tree_ok L M t1" "well_aimed L es t \<Longrightarrow> well_aimed L es t1"
    using view_event [OF ok, of t1] fa s(2) by (simp_all add: keeps_def)
qed

lemma tree_run_map:
  assumes "tree_run flush t es t'" "calm flush" "tree_ok L M t" "well_aimed L es t"
  shows "\<exists>M'. map_run es M = Some M' \<and> tree_ok L M' t'"
  using assms(1,3,4)
proof (induction arbitrary: M rule: tree_run.induct)
  case (stop t)
  then show ?case by simp
next
  case (insert q k w lsn t t1 es t2)
  have q: "leads L (pool_view (buffer_pool t)) k (root_page_id t) q" and aim: "well_aimed L es t"
    using insert.prems(2) by (simp_all add: well_aimed_def)
  note ie = insert_event [OF insert.prems(1) q insert.hyps(1)]
  show ?case using insert.IH [OF ie(2) ie(3) [OF aim]] ie(1) by (simp add: fun_upd_def)
next
  case (search k t v t1 es t2)
  have aim: "well_aimed L es t" using search.prems(2) by (simp add: well_aimed_def)
  note se = search_event [OF search.prems(1) assms(2) search.hyps(1)]
  show ?case using search.IH [OF se(2) se(3) [OF aim]] se(1) by simp
next
  case (fault k t e t1 es t2)
  have aim: "well_aimed L es t" using fault.prems(2) by (simp add: well_aimed_def)
  note se = search_event [OF fault.prems(1) assms(2) fault.hyps(1)]
  show ?case using fault.IH [OF se(2) se(3) [OF aim]] by simp
next
  case (flush t r t1 es t2)
  have aim: "well_aimed L es t" using flush.prems(2) by (simp add: well_aimed_def)
  note fe = flush_event [OF flush.prems(1) flush.hyps(1)]
  show ?case using flush.IH [OF fe(1) fe(2) [OF aim]] by simp
qed

section \<open>Properties\<close>

text \<open>
  C3:
  The tree refines a finite map. From a tree whose pages hold a map, run any sequence of insertions
  that needed no split, each aimed at the leaf of its key, of searches and of flushes, over any
  capacity of the pool and any failures of the devices: every insertion found its key absent from
  the map and added it, every search that was answered was answered what the map has, and the
  pages hold the map that results.
\<close>

theorem tree_refines_map:
  assumes "pool_inv L (buffer_pool t)" "no_latch (buffer_pool t)" "calm flush"
    and "tree_holds L (pool_view (buffer_pool t)) (root_page_id t) M"
    and "\<forall>q k w. Inserted q k w \<in> set es \<longrightarrow> leads L (pool_view (buffer_pool t)) k (root_page_id t) q"
    and "tree_run flush t es t'"
  shows "\<exists>M'. map_run es M = Some M' \<and> tree_holds L (pool_view (buffer_pool t')) (root_page_id t') M'"
  using tree_run_map [OF assms(6,3), of L M] assms(1,2,4,5) unfolding tree_ok_def well_aimed_def by blast

theorem tree_refines_map_witness:
  "\<exists>t'. tree_run flush_upto empty_tree [Inserted 4096 1 [1, 2, 3], Flushed] t' \<and>
     tree_holds {4096} (pool_view (buffer_pool t')) (root_page_id t') [1 \<mapsto> [1, 2, 3]]"
proof -
  note et = empty_tree
  obtain s where "insert_leaf_pool flush_upto 4096 1 [1, 2, 3] 7 (buffer_pool empty_tree) = (Ok None, s)"
    by (rule empty_tree_insert)
  then have i: "insert_leaf flush_upto 4096 1 [1, 2, 3] 7 empty_tree = (Ok None, empty_tree\<lparr>buffer_pool := s\<rparr>)"
    by (simp add: insert_leaf_def on_pool_def)
  obtain r t' where "on_pool (flush_all_pages flush_upto) (empty_tree\<lparr>buffer_pool := s\<rparr>) = (r, t')" by fastforce
  from tree_run.insert [OF i tree_run.flush [OF this tree_run.stop]]
  have run: "tree_run flush_upto empty_tree [Inserted 4096 1 [1, 2, 3], Flushed] t'" .
  obtain l where l: "pool_view (buffer_pool empty_tree) 4096 = Some (Leaf l)" "leaf_map l = Map.empty" by (rule et(4))
  have 4: "(4096::page_id) \<in> {4096}" by simp
  have holds: "tree_holds {4096} (pool_view (buffer_pool empty_tree)) (root_page_id empty_tree) Map.empty"
    unfolding tree_holds_def et(3)
    by (intro allI exI [of _ l] conjI routes.here [of 4096 "{4096}" "pool_view (buffer_pool empty_tree)" l, OF 4 l(1)]) (simp add: l(2))
  have aim: "\<forall>q k w. Inserted q k w \<in> set [Inserted 4096 1 [1, 2, 3], Flushed] \<longrightarrow>
      leads {4096} (pool_view (buffer_pool empty_tree)) k (root_page_id empty_tree) q"
    unfolding et(3) using leads.leaf [of 4096 "{4096}" "pool_view (buffer_pool empty_tree)" l, OF 4 l(1)] by auto
  from tree_refines_map [OF et(1,2) flush_upto_calm holds aim run] run show ?thesis by auto
qed

end
