(* ===== verification/Restart.thy ===== *)
theory Restart
  imports Recovery_Props
begin

text \<open>
  Crashes and restarts. What the calls of a pool leave of the durable bytes; what a log reads as, a
  torn one too; and recovery run any number of times, each run over what is durable when the one
  before has failed or was cut short.
\<close>

section \<open>What is durable\<close>

text \<open>The same log file; what is durable of it is what was, or all of it.\<close>

definition same_log :: "wal_manager buffer_pool \<Rightarrow> wal_manager buffer_pool \<Rightarrow> bool" where
  "same_log a b \<longleftrightarrow> (\<forall>w. pool_flusher a = Some w \<longrightarrow> (\<exists>w'. pool_flusher b = Some w' \<and>
     content (wal_file w') = content (wal_file w) \<and> wal_sync w' = wal_sync w \<and>
     durable (wal_file w') \<in> {durable (wal_file w), content (wal_file w)}))"

definition undisturbed :: "wal_manager buffer_pool \<Rightarrow> wal_manager buffer_pool \<Rightarrow> bool" where
  "undisturbed a b \<longleftrightarrow> durable (db_file (pool_disk b)) = durable (db_file (pool_disk a)) \<and> same_log a b"

lemma same_log_trans: "same_log a b \<Longrightarrow> same_log b c \<Longrightarrow> same_log a c"
  unfolding same_log_def by fastforce

lemma undisturbed_trans: "undisturbed a b \<Longrightarrow> undisturbed b c \<Longrightarrow> undisturbed a c"
  using same_log_trans by (auto simp: undisturbed_def)

lemma undisturbedI:
  "durable (db_file (pool_disk b)) = durable (db_file (pool_disk a)) \<Longrightarrow> pool_flusher b = pool_flusher a \<Longrightarrow> undisturbed a b"
  by (auto simp: undisturbed_def same_log_def)

lemma undisturbed_refl [simp]: "undisturbed a a"
  by (rule undisturbedI) simp_all

lemma undisturbed_flush_wal: "flush_wal flush_upto lsn a = (r, b) \<Longrightarrow> undisturbed a b"
proof (cases "pool_flusher a")
  case (Some w)
  assume run: "flush_wal flush_upto lsn a = (r, b)"
  obtain r1 w1 where w1: "flush_upto lsn w = (r1, w1)" by fastforce
  obtain r2 f2 where f2: "sync_all (wal_file w) = (r2, f2)" by fastforce
  have "content (wal_file w1) = content (wal_file w) \<and> wal_sync w1 = wal_sync w \<and>
      durable (wal_file w1) \<in> {durable (wal_file w), content (wal_file w)}"
    using w1 f2 sync_all_frame [OF f2] by (cases r2) (auto simp: flush_upto_def on_wal_file_def split: if_splits)
  then show ?thesis using run Some w1 by (auto simp: flush_wal_def undisturbed_def same_log_def)
qed (simp add: flush_wal_def)

lemma undisturbed_set_node [simp]: "undisturbed a (set_node f n b) = undisturbed a b"
  by (simp add: undisturbed_def same_log_def set_node_def)

lemma undisturbed_cells [simp]:
  "undisturbed a (set_latch f x b) = undisturbed a b" "undisturbed a (drop_frame f b) = undisturbed a b"
  "undisturbed a (clone_frame f b) = undisturbed a b" "undisturbed a (release f b) = undisturbed a b"
  "undisturbed a (install p n b) = undisturbed a b" "undisturbed a (unmap p b) = undisturbed a b"
  "undisturbed a (b\<lparr>pool_replacer := rp\<rparr>) = undisturbed a b"
  by (simp_all add: undisturbed_def same_log_def set_latch_def drop_frame_def clone_frame_def release_def
      install_def unmap_def split: option.split)

lemma undisturbed_disk: "undisturbed a b \<Longrightarrow> durable (db_file d) = durable (db_file (pool_disk b)) \<Longrightarrow> undisturbed a (b\<lparr>pool_disk := d\<rparr>)"
  by (simp add: undisturbed_def same_log_def)

lemma write_page_durable: "write_page p img d = (r, d') \<Longrightarrow> durable (db_file d') = durable (db_file d)"
  by (auto simp: write_page_def write_all_at_def dest!: io_step_frame split: if_splits prod.splits option.splits)

lemma read_page_durable: "read_page p d = (r, d') \<Longrightarrow> durable (db_file d') = durable (db_file d)"
  by (auto simp: read_page_def read_exact_at_def dest!: io_step_frame split: if_splits prod.splits option.splits)

lemma undisturbed_flush_page:
  assumes "flush_page flush_upto p a = (r, b)"
  shows "undisturbed a b"
proof (cases "map_of (page_table a) p")
  case (Some f)
  obtain r1 a1 where a1: "flush_wal flush_upto (get_last_lsn (node_at f a)) a = (r1, a1)" by fastforce
  obtain r2 where r2: "encode (node_at f a1) page_new = r2" by simp
  obtain r3 d where d: "write_page p (case r2 of Ok x \<Rightarrow> x | _ \<Rightarrow> []) (pool_disk a1) = (r3, d)" by fastforce
  note u1 = undisturbed_flush_wal [OF a1]
  have u2: "undisturbed a (a1\<lparr>pool_disk := d\<rparr>)"
    by (rule undisturbed_disk [OF u1 write_page_durable [OF d]])
  show ?thesis using assms Some a1 r2 d u1 u2
    by (cases r1; cases r2; cases r3) (auto simp: flush_page_def on_disk_def split: if_splits)
qed (use assms in \<open>simp add: flush_page_def\<close>)

lemma undisturbed_make_room:
  assumes "make_room flush_upto a = (r, b)"
  shows "undisturbed a b"
proof -
  have "undisturbed a b" if ev: "evict_page flush_upto a = (r, b)"
  proof (cases "\<exists>p rp. evict_if (evictable a) (pool_replacer a) = Ok (Some p, rp)")
    case True
    then obtain p rp where e: "evict_if (evictable a) (pool_replacer a) = Ok (Some p, rp)" by blast
    obtain r1 a1 where a1: "flush_page flush_upto p (a\<lparr>pool_replacer := rp\<rparr>) = (r1, a1)" by fastforce
    have "undisturbed a (a\<lparr>pool_replacer := rp\<rparr>)" by simp
    from undisturbed_trans [OF this undisturbed_flush_page [OF a1]] show ?thesis
      using ev e a1 by (cases r1) (auto simp: evict_page_def)
  qed (use ev in \<open>auto simp: evict_page_def split: result.splits option.splits\<close>)
  then show ?thesis using assms by (auto simp: make_room_def split: if_splits)
qed

lemma undisturbed_touch: "touch p b = (r, c) \<Longrightarrow> undisturbed a c = undisturbed a b"
  by (auto simp: touch_def split: result.splits)

lemma undisturbed_fetch:
  assumes "fetch_page flush_upto p a = (r, b)"
  shows "undisturbed a b"
proof (cases "map_of (page_table a) p")
  case (Some f)
  obtain r1 a1 where a1: "touch p a = (r1, a1)" by fastforce
  then show ?thesis using assms Some undisturbed_touch [OF a1, of a] by (cases r1) (auto simp: fetch_page_def)
next
  case None
  obtain r1 a1 where a1: "make_room flush_upto a = (r1, a1)" by fastforce
  obtain r2 d where d: "read_page p (pool_disk a1) = (r2, d)" by fastforce
  note u1 = undisturbed_make_room [OF a1]
  have u2: "undisturbed a (a1\<lparr>pool_disk := d\<rparr>)"
    by (rule undisturbed_disk [OF u1 read_page_durable [OF d]])
  obtain r3 where r3: "decode (case r2 of Ok x \<Rightarrow> x | _ \<Rightarrow> []) = r3" by simp
  obtain r4 a4 where a4: "touch p (install p (case r3 of Ok n \<Rightarrow> n | _ \<Rightarrow> new_empty p True) (a1\<lparr>pool_disk := d\<rparr>)) = (r4, a4)"
    by fastforce
  have u4: "undisturbed a a4" using undisturbed_touch [OF a4, of a] u2 by simp
  show ?thesis using assms None a1 d r3 a4 u1 u2 u4
    by (cases r1; cases r2; cases r3; cases r4) (auto simp: fetch_page_def on_disk_def Let_def)
qed

lemma undisturbed_flush_pages: "flush_pages flush_upto ps a = (r, b) \<Longrightarrow> undisturbed a b"
proof (induction ps arbitrary: a)
  case (Cons p ps)
  obtain r1 a1 where a1: "flush_page flush_upto p a = (r1, a1)" by fastforce
  note u = undisturbed_flush_page [OF a1]
  show ?case
  proof (cases "r1 = Ok ()")
    case True
    then have "flush_pages flush_upto ps a1 = (r, b)" using Cons.prems a1 by simp
    from undisturbed_trans [OF u Cons.IH [OF this]] show ?thesis .
  next
    case False
    then have "b = a1" using Cons.prems a1 by (cases r1) auto
    then show ?thesis using u by simp
  qed
qed simp

text \<open>A full flush touches the durable bytes of the database only when it succeeds.\<close>

lemma flush_all_disturbs:
  assumes "flush_all_pages flush_upto a = (r, b)"
  shows "same_log a b" "r \<noteq> Ok () \<Longrightarrow> undisturbed a b"
proof -
  obtain r1 a1 where a1: "flush_pages flush_upto (map fst (page_table a)) a = (r1, a1)" by fastforce
  note u = undisturbed_flush_pages [OF a1]
  obtain r2 d where d: "save_header (pool_disk a1) = (r2, d)" by fastforce
  obtain r3 f3 where f3: "write_all_at (header_to_bytes (header (pool_disk a1))) 0 (db_file (pool_disk a1)) = (r3, f3)" by fastforce
  obtain r4 f4 where f4: "sync_all f3 = (r4, f4)" by fastforce
  have d3: "durable f3 = durable (db_file (pool_disk a1))"
    using f3 by (auto simp: write_all_at_def dest!: io_step_frame split: if_splits prod.splits option.splits)
  have d4: "durable f4 = durable f3" if "r4 \<noteq> Ok ()"
    using f4 that by (cases rule: sync_all_cases [of f3]) auto
  have dd: "durable (db_file d) = durable (db_file (pool_disk a1))" if "r2 \<noteq> Ok ()"
    using d f3 f4 d3 d4 that by (cases r3; cases r4) (auto simp: save_header_def)
  have res: "(r1 \<noteq> Ok () \<longrightarrow> b = a1) \<and> (r1 = Ok () \<longrightarrow> b = a1\<lparr>pool_disk := d\<rparr> \<and> r = r2)"
    using assms a1 d by (cases r1; cases r2) (auto simp: flush_all_pages_def on_disk_def)
  then show "same_log a b" using u by (cases "r1 = Ok ()") (simp_all add: undisturbed_def same_log_def)
  assume "r \<noteq> Ok ()"
  then show "undisturbed a b" using res u undisturbed_disk [OF u dd] by (cases "r1 = Ok ()") auto
qed

lemma flush_all_idle:
  assumes "idle L a" "flush_all_pages flush a = (r, b)"
  shows "idle L b \<and> (\<forall>q \<in> L. page_state b q = page_state a q)"
proof -
  have pre: "pool_inv L a" "alone a" "no_latch a" using assms(1) by (simp_all add: idle_def)
  note fa = flush_all_pages_spec [OF pre(1) assms(2)]
  have sh: "same_shape a b" using fa by simp
  then have "idle L b"
    using fa pre same_shape_latches [OF sh] by (simp add: idle_def alone_def no_latch_def same_shape_def)
  moreover have "\<forall>q \<in> L. page_state b q = page_state a q" using fa keeps_page_state by blast
  ultimately show ?thesis by simp
qed

lemma undisturbed_replay_entry:
  assumes "replay_entry flush_upto e a = (r, b)"
  shows "undisturbed a b"
proof -
  obtain r1 s where s: "fetch_page flush_upto (wal_page_id e) a = (r1, s)" by fastforce
  note u = undisturbed_fetch [OF s]
  show ?thesis
  proof (cases "\<exists>f. r1 = Ok f")
    case True
    then obtain f where f: "r1 = Ok f" by blast
    obtain r2 s2 where s2: "latch_write f s = (r2, s2)" by fastforce
    have u2: "undisturbed a s2" using s2 u by (auto simp: latch_write_def split: if_splits)
    obtain r3 n where n: "apply_entry (node_at f s2) e = (r3, n)" by fastforce
    show ?thesis using assms s f s2 n u2
      by (cases r2; cases r3) (auto simp: replay_entry_def split: if_splits simp del: mark_dirty.simps)
  next
    case False
    then have "b = s" using assms s by (cases r1) (auto simp: replay_entry_def)
    then show ?thesis using u by simp
  qed
qed

lemma undisturbed_replay_loop: "replay_loop flush_upto es mx a = (r, b) \<Longrightarrow> undisturbed a b"
proof (induction es arbitrary: mx a)
  case (Cons e es)
  obtain r1 a1 where a1: "replay_entry flush_upto e a = (r1, a1)" by fastforce
  note u = undisturbed_replay_entry [OF a1]
  show ?case
  proof (cases "r1 = Ok ()")
    case True
    then have "replay_loop flush_upto es (max mx (wal_lsn e)) a1 = (r, b)" using Cons.prems a1 by simp
    from undisturbed_trans [OF u Cons.IH [OF this]] show ?thesis .
  next
    case False
    then have "b = a1" using Cons.prems a1 by (cases r1) auto
    then show ?thesis using u by simp
  qed
qed simp

section \<open>Entries that all count\<close>

text \<open>
  What entries make of the pages when each of them is applied, in order and whatever its number: a
  page bears the number of its last entry.
\<close>

definition made :: "wal_entry list \<Rightarrow> (page_id \<Rightarrow> page_state) \<Rightarrow> page_id \<Rightarrow> page_state" where
  "made es st p = (let on = filter (\<lambda>e. wal_page_id e = p) es in
     (if on = [] then fst (st p) else wal_lsn (last on), fold (\<lambda>e. map_op (entry_op e)) on (snd (st p))))"

text \<open>The numbers ascend, and are above those of the pages.\<close>

definition ascending :: "wal_entry list \<Rightarrow> (page_id \<Rightarrow> page_state) \<Rightarrow> bool" where
  "ascending es st \<longleftrightarrow> sorted_wrt (<) (map wal_lsn es) \<and> (\<forall>e \<in> set es. fst (st (wal_page_id e)) < wal_lsn e)"

lemma fold_redo_made:
  "sorted_wrt (<) (map wal_lsn es) \<Longrightarrow> \<forall>e \<in> set es. fst x < wal_lsn e \<Longrightarrow>
   fold redo es x = (if es = [] then fst x else wal_lsn (last es), fold (\<lambda>e. map_op (entry_op e)) es (snd x))"
proof (induction es arbitrary: x)
  case (Cons e es)
  have "\<not> wal_lsn e \<le> fst x" using Cons.prems(2) by (simp add: not_le)
  then have r: "redo e x = (wal_lsn e, map_op (entry_op e) (snd x))" by (cases x) (simp add: redo_def)
  have "\<forall>d \<in> set es. fst (redo e x) < wal_lsn d" using Cons.prems(1) r by simp
  from Cons.IH [OF _ this] Cons.prems(1) show ?case by (simp add: r)
qed simp

lemma sorted_wrt_map_filter: "sorted_wrt P (map f xs) \<Longrightarrow> sorted_wrt P (map f (filter Q xs))"
  by (induction xs) auto

text \<open>With such numbers the guard of the replay skips nothing: each entry counts, once.\<close>

lemma redo_all_made:
  assumes "ascending es st"
  shows "redo_all es st p = made es st p"
proof -
  let ?on = "filter (\<lambda>e. wal_page_id e = p) es"
  have "sorted_wrt (<) (map wal_lsn ?on)" "\<forall>e \<in> set ?on. fst (st p) < wal_lsn e"
    using assms sorted_wrt_map_filter by (auto simp: ascending_def)
  from fold_redo_made [OF this] show ?thesis by (simp add: redo_all_at made_def Let_def)
qed

lemma ascending_append: "ascending (es @ fs) st \<Longrightarrow> ascending es st"
  by (simp add: ascending_def sorted_wrt_append)

lemma ascending_take: "ascending es st \<Longrightarrow> ascending (take n es) st"
  using ascending_append [of "take n es" "drop n es"] by simp

section \<open>What a log reads as\<close>

text \<open>Every read of these bytes that succeeds, on a device that may fail, returns these entries.\<close>

definition reads_as :: "u8 list \<Rightarrow> wal_entry list \<Rightarrow> bool" where
  "reads_as bytes es \<longleftrightarrow> (\<forall>w xs w'. content (wal_file w) = bytes \<and> read_batch w = (Ok xs, w') \<longrightarrow>
     xs = es \<and> flushed_lsn w' = max_lsn es)"

lemma take_batch:
  "\<exists>j t. take n (batch_buffer es) = batch_buffer (take j es) @ t \<and>
     (t = [] \<or> (\<exists>e m. e \<in> set es \<and> t = take m (frame e) \<and> m < length (frame e)))"
proof (induction es arbitrary: n)
  case (Cons e es)
  show ?case
  proof (cases "n < length (frame e)")
    case True
    then have "take n (batch_buffer (e # es)) = batch_buffer (take 0 (e # es)) @ take n (frame e)"
      by (simp add: batch_buffer_Cons del: batch_buffer.simps(2))
    with True show ?thesis by (metis list.set_intros(1))
  next
    case False
    obtain j t where jt: "take (n - length (frame e)) (batch_buffer es) = batch_buffer (take j es) @ t"
        "t = [] \<or> (\<exists>e m. e \<in> set es \<and> t = take m (frame e) \<and> m < length (frame e))"
      using Cons.IH [of "n - length (frame e)"] by blast
    have "take n (batch_buffer (e # es)) = frame e @ take (n - length (frame e)) (batch_buffer es)"
      using False by (simp add: batch_buffer_Cons del: batch_buffer.simps)
    also have "\<dots> = batch_buffer (take (Suc j) (e # es)) @ t"
      unfolding jt(1) by (simp add: batch_buffer_Cons del: batch_buffer.simps)
    finally show ?thesis using jt(2) by (metis list.set_intros(2))
  qed
qed simp

lemma read_loop_tail:
  assumes "t = [] \<or> (\<exists>e m. entry_ok e \<and> t = take m (frame e) \<and> m < length (frame e))"
    and "read_loop t b m0 g = (Ok x, g')"
  shows "x = (b, m0)"
proof (cases "length t < 4")
  case True
  then show ?thesis using assms(2)
    by (cases rule: reader_step [of 4 t g]; subst (asm) read_loop.simps) auto
next
  case False
  then obtain e m where e: "entry_ok e" "t = take m (frame e)" "m < length (frame e)" using assms(1) by auto
  have m4: "4 \<le> m" and lt: "length t = m" using False e by auto
  have pre: "take 4 t = u32_to_le (word_of_nat (wal_size e))"
    using m4 by (simp add: e(2) frame_def min_def)
  have n: "unat (u32_from_le (take 4 t)) = wal_size e" unfolding pre using entry_ok_prefix [OF e(1)] by simp
  have nz: "wal_size e \<noteq> 0" using wal_size_pos [of e] by simp
  have False
  proof (cases rule: reader_step [of 4 t g])
    case (1 f')
    then show ?thesis using assms(2) by (subst (asm) read_loop.simps) simp
  next
    case (2 f1)
    have r1: "reader_read_exact 4 t g = (Ok (take 4 t, drop 4 t), f1)" using 2(1) m4 lt by simp
    have short: "\<not> wal_size e \<le> length (drop 4 t)" using lt e(3) m4 by simp
    show ?thesis
      by (cases rule: reader_step [of "wal_size e" "drop 4 t" f1])
        (use assms(2) r1 n nz short in \<open>subst (asm) read_loop.simps; simp add: Let_def\<close>)+
  qed
  then show ?thesis ..
qed

lemma reads_as_torn:
  assumes "\<forall>e \<in> set es. entry_ok e" "t = [] \<or> (\<exists>e m. entry_ok e \<and> t = take m (frame e) \<and> m < length (frame e))"
  shows "reads_as (batch_buffer es @ t) es"
  unfolding reads_as_def
proof (intro allI impI)
  fix w xs w' assume a: "content (wal_file w) = batch_buffer es @ t \<and> read_batch w = (Ok xs, w')"
  then obtain f1 f2 mx where "io_call (wal_file w) = (Ok (), f1)"
    and f2: "read_loop (content f1) [] 0 f1 = (Ok (xs, mx), f2)" and mx: "flushed_lsn w' = mx"
    by (auto simp: read_batch_def then_do_eq_Ok on_wal_file_Ok)
  then have "read_loop (batch_buffer es @ t) [] 0 f1 = (Ok (xs, mx), f2)" using io_call_frame a by metis
  moreover from this obtain g where "read_loop (batch_buffer es @ t) [] 0 f1 = read_loop t es (max_lsn es) g"
    using read_loop_frames [OF assms(1), of t "[]" 0 f1] by (auto simp: max_lsn_def)
  ultimately have "(xs, mx) = (es, max_lsn es)" using read_loop_tail [OF assms(2)] by metis
  then show "xs = es \<and> flushed_lsn w' = max_lsn es" using mx by simp
qed

lemma reads_as_whole: "\<forall>e \<in> set es. entry_ok e \<Longrightarrow> reads_as (batch_buffer es) es"
  using reads_as_torn [of es "[]"] by simp

lemma reads_as_debris:
  assumes "\<forall>e \<in> set (es @ fs). entry_ok e"
  obtains j where "reads_as (batch_buffer es @ take n (batch_buffer fs)) (es @ take j fs)"
proof -
  obtain j t where jt: "take n (batch_buffer fs) = batch_buffer (take j fs) @ t"
    "t = [] \<or> (\<exists>e m. e \<in> set fs \<and> t = take m (frame e) \<and> m < length (frame e))" using take_batch by metis
  have "\<forall>e \<in> set (es @ take j fs). entry_ok e" using assms by (auto dest: in_set_takeD)
  from reads_as_torn [OF this, of t] jt assms have "reads_as (batch_buffer (es @ take j fs) @ t) (es @ take j fs)" by auto
  then show thesis using that [of j] jt(1) by (simp add: batch_buffer_append)
qed

section \<open>What a database opens to\<close>

definition opens_to :: "page_id set \<Rightarrow> (page_id \<Rightarrow> page_state) \<Rightarrow> u8 list \<Rightarrow> bool" where
  "opens_to L st bytes \<longleftrightarrow> (\<forall>g. content g = bytes \<and> io_plan g = [] \<longrightarrow> (\<exists>d. disk_open g = (Ok d, g) \<and>
     (\<forall>c. pool_inv L (pool_new d c (None :: wal_manager option)) \<and>
       (\<forall>p \<in> L. page_state (pool_new d c (None :: wal_manager option)) p = st p))))"

text \<open>The pages that it opens to bear a prefix of the entries each.\<close>

definition bears :: "(page_id \<Rightarrow> page_state) \<Rightarrow> wal_entry list \<Rightarrow> (page_id \<Rightarrow> page_state) \<Rightarrow> page_id \<Rightarrow> bool" where
  "bears st es x p \<longleftrightarrow> (\<exists>k. x p = redo_all (take k es) st p)"

definition reopens :: "page_id set \<Rightarrow> (page_id \<Rightarrow> page_state) \<Rightarrow> wal_entry list \<Rightarrow> u8 list \<Rightarrow> bool" where
  "reopens L st es bytes \<longleftrightarrow> (\<exists>x. opens_to L x bytes \<and> (\<forall>p \<in> L. bears st es x p))"

lemma bears_log: "bears st es x p \<Longrightarrow> bears st (es @ fs) x p"
proof -
  assume "bears st es x p"
  then obtain k where "x p = redo_all (take k es) st p" by (auto simp: bears_def)
  then have "x p = redo_all (take (min k (length es)) (es @ fs)) st p" by (simp add: min_def)
  then show "bears st (es @ fs) x p" unfolding bears_def by blast
qed

lemma reopens_log: "reopens L st es bytes \<Longrightarrow> reopens L st (es @ fs) bytes"
  unfolding reopens_def using bears_log by blast

lemma reopens_start: "opens_to L st bytes \<Longrightarrow> reopens L st es bytes"
  unfolding reopens_def bears_def by (intro exI [of _ st] conjI ballI exI [of _ 0]) simp_all

lemma opens_to_cong: "opens_to L x bytes \<Longrightarrow> \<forall>p \<in> L. x p = y p \<Longrightarrow> opens_to L y bytes"
  unfolding opens_to_def by (metis (no_types, lifting))

lemma checkpoint_opens:
  assumes idle: "idle L a" and run: "flush_all_pages flush a = (Ok (), b)"
  shows "opens_to L (page_state a) (durable (db_file (pool_disk b)))"
  unfolding opens_to_def
proof (intro allI impI)
  fix g :: os_file assume g: "content g = durable (db_file (pool_disk b)) \<and> io_plan g = []"
  have pre: "pool_inv L a" "alone a" using idle by (simp_all add: idle_def)
  have one: "\<forall>p f. map_of (page_table a) p = Some f \<longrightarrow> strong (heap a ! f) = 1" using pre(2) by (simp add: alone_def)
  note cr = checkpoint_reopens [OF pre(1) run one conjunct1 [OF g] conjunct2 [OF g], where w = "None :: wal_manager option"]
  obtain d where d: "disk_open g = (Ok d, g)" using cr [of undefined] by blast
  have "pool_inv L (pool_new d c (None :: wal_manager option)) \<and>
      (\<forall>p \<in> L. page_state (pool_new d c (None :: wal_manager option)) p = page_state a p)" for c
    using cr [of c] d by (auto simp: page_state_def)
  then show "\<exists>d. disk_open g = (Ok d, g) \<and> (\<forall>c. pool_inv L (pool_new d c (None :: wal_manager option)) \<and>
      (\<forall>p \<in> L. page_state (pool_new d c (None :: wal_manager option)) p = page_state a p))"
    using d by blast
qed

text \<open>The same on a device that may fail, when \<open>disk_open\<close> gets through.\<close>

lemma disk_open_any:
  assumes "disk_open g = (Ok d, g')" "content g0 = content g" "io_plan g0 = []"
  shows "content (db_file d) = content g \<and> durable (db_file d) = durable g \<and>
    (\<exists>d0. disk_open g0 = (Ok d0, g0) \<and> content (db_file d0) = content g)"
proof -
  have "content (db_file d) = content g \<and> durable (db_file d) = durable g \<and> (content g = [] \<or> 28 \<le> length (content g))"
    using assms(1)
    by (auto simp: disk_open_def then_do_eq_Ok read_exact_at_def dest!: io_call_frame io_step_frame
        split: if_splits prod.splits option.splits)
  then show ?thesis using assms(2,3) disk_open_header [of g0] disk_open_empty [of g0] by (cases "content g = []") auto
qed

lemma pool_new_content:
  assumes "content (db_file d) = content (db_file e)"
  shows "pool_inv L (pool_new d c w) = pool_inv L (pool_new e c w)"
    and "page_state (pool_new d c w) p = page_state (pool_new e c w) p"
proof -
  have st: "disk.stored d = disk.stored e" by (intro stored_eqI disk_page_eqI) (rule assms)
  then have v: "disk_view (pool_new d c w) = disk_view (pool_new e c w)" by (rule_tac ext) (simp add: disk_view_def pool_new_def)
  show "page_state (pool_new d c w) p = page_state (pool_new e c w) p"
    using v by (simp add: page_state_def pool_view_def) (simp add: pool_new_def)
  have "contents_ok L (pool_new d c w) = contents_ok L (pool_new e c w)"
    unfolding contents_ok_def v by (simp add: pool_new_def)
  moreover have "table_wf (page_table (pool_new x c w)) (heap (pool_new x c w))" "tracking (pool_new x c w)" for x
    using pool_inv_new(1) [of x c w] by (simp_all add: pool_inv_def)
  ultimately show "pool_inv L (pool_new d c w) = pool_inv L (pool_new e c w)" by (simp add: pool_inv_def)
qed

lemma opens_any:
  assumes "opens_to L x (content g)" "disk_open g = (Ok d, g')"
  shows "idle L (pool_new d c (None :: wal_manager option))"
    and "\<forall>p \<in> L. page_state (pool_new d c (None :: wal_manager option)) p = x p"
    and "durable (db_file d) = durable g"
proof -
  let ?g0 = "new_file\<lparr>content := content g\<rparr>"
  have g0: "content ?g0 = content g" "io_plan ?g0 = []" by (simp_all add: new_file_def)
  note da = disk_open_any [OF assms(2) g0]
  obtain d0 where d0: "disk_open ?g0 = (Ok d0, ?g0)" "content (db_file d0) = content g" using da by blast
  have "pool_inv L (pool_new d0 c (None :: wal_manager option))"
    and st: "\<forall>p \<in> L. page_state (pool_new d0 c (None :: wal_manager option)) p = x p"
    using assms(1) g0 d0(1) unfolding opens_to_def by fastforce+
  moreover have "content (db_file d) = content (db_file d0)" using da d0(2) by simp
  note pc = pool_new_content [OF this]
  ultimately have "pool_inv L (pool_new d c (None :: wal_manager option))" by (simp add: pc(1))
  then show "idle L (pool_new d c (None :: wal_manager option))"
    by (simp add: idle_def alone_def no_latch_def latches_def pool_new_def)
  show "\<forall>p \<in> L. page_state (pool_new d c (None :: wal_manager option)) p = x p" using st by (simp add: pc(2))
  show "durable (db_file d) = durable g" using da by simp
qed

section \<open>Running recovery again\<close>

text \<open>A replay that fails leaves the durable bytes alone; one that succeeds has put the pages there.\<close>

lemma replay_durable:
  assumes idle: "idle L a" and es: "\<forall>e \<in> set es. wal_page_id e \<in> L" and run: "replay flush_upto es a = (r, b)"
  shows "\<forall>x. r \<noteq> Ok x \<Longrightarrow> durable (db_file (pool_disk b)) = durable (db_file (pool_disk a))"
    and "r = Ok x \<Longrightarrow> opens_to L (redo_all es (page_state a)) (durable (db_file (pool_disk b))) \<and>
      (\<forall>p \<in> L. page_state b p = redo_all es (page_state a) p)"
proof -
  obtain r1 s1 where s1: "replay_loop flush_upto es 0 a = (r1, s1)" by fastforce
  obtain r2 s2 where s2: "flush_all_pages flush_upto s1 = (r2, s2)" by fastforce
  have u: "undisturbed a s1" by (rule undisturbed_replay_loop [OF s1])
  have res: "(\<forall>x. r1 \<noteq> Ok x) \<longrightarrow> (\<forall>x. r \<noteq> Ok x) \<and> b = s1" "r1 = Ok y \<longrightarrow> r = and_then r2 (\<lambda>_. Ok y) \<and> b = s2" for y
    using run s1 s2 by (cases r1; cases r2; auto simp: replay_def)+
  show "durable (db_file (pool_disk b)) = durable (db_file (pool_disk a))" if no: "\<forall>x. r \<noteq> Ok x"
  proof (cases "\<exists>y. r1 = Ok y")
    case True
    then obtain y where "r1 = Ok y" by blast
    then have b: "b = s2" and "r2 \<noteq> Ok ()" using res(2) no by auto
    then have "undisturbed s1 b" using flush_all_disturbs(2) [OF s2] by simp
    then show ?thesis using undisturbed_trans [OF u] by (simp add: undisturbed_def)
  next
    case False
    then show ?thesis using res(1) u by (simp add: undisturbed_def)
  qed
  show "opens_to L (redo_all es (page_state a)) (durable (db_file (pool_disk b))) \<and>
      (\<forall>p \<in> L. page_state b p = redo_all es (page_state a) p)" if ok: "r = Ok x"
  proof -
    obtain y where y: "r1 = Ok y" using res(1) ok by blast
    then have "r = and_then r2 (\<lambda>_. Ok y)" "b = s2" using res(2) [of y] by simp_all
    then have b: "b = s2" "r2 = Ok ()" using ok by (cases r2; simp)+
    have i1: "idle L s1" and ps: "\<forall>q \<in> L. page_state s1 q = redo_all es (page_state a) q"
      using replay_loop_spec [OF idle es s1] y by simp_all
    have "flush_all_pages flush_upto s1 = (Ok (), b)" using s2 b by simp
    from opens_to_cong [OF checkpoint_opens [OF i1 this] ps] flush_all_idle [OF i1 this] ps show ?thesis by simp
  qed
qed

lemma wal_truncate_file:
  "wal_truncate w = (r, w') \<Longrightarrow> content (wal_file w') \<in> {content (wal_file w), []} \<and>
   durable (wal_file w') \<in> {durable (wal_file w), []} \<and> (r = Ok () \<longrightarrow> content (wal_file w') = [])"
  by (auto simp: wal_truncate_def on_wal_file_def set_len_0_def io_call_def sync_all_def dest!: io_step_frame
      split: prod.splits option.splits if_splits)

text \<open>How far \<open>init\<close> got, and what it left of the durable bytes of the log.\<close>

lemma recovery_stages:
  assumes rd: "reads_as (content f) es" and run: "recovery_init flush (f, a) = (r, (f', b))"
  obtains (unread) "\<forall>x. r \<noteq> Ok x" "durable f' = durable f" "b = a"
  | (none) "es = []" "durable f' = durable f" "b = a"
  | (failed) r2 where "replay flush es a = (r2, b)" "\<forall>x. r2 \<noteq> Ok x" "\<forall>x. r \<noteq> Ok x" "durable f' = durable f"
  | (replayed) x where "replay flush es a = (Ok x, b)" "durable f' \<in> {durable f, []}"
proof -
  obtain r0 f0 where f0: "io_call f = (r0, f0)" by fastforce
  have c0: "content f0 = content f" "durable f0 = durable f" using io_call_frame [OF f0] by simp_all
  define w where "w = \<lparr>wal_file = f0, wal_sync = False, entry_count = 0, flushed_lsn = 0\<rparr>"
  have op: "wal_open f False = (and_then r0 (\<lambda>_. Ok w), f0)"
    using f0 by (cases r0) (simp_all add: wal_open_def w_def)
  show thesis
  proof (cases "r0 = Ok ()")
    case False
    then have "(\<forall>x. r \<noteq> Ok x) \<and> f' = f0 \<and> b = a" using run op by (cases r0) (auto simp: recovery_init_def)
    then show thesis using unread c0 by simp
  next
    case True
    obtain r1 w1 where w1: "read_batch w = (r1, w1)" by fastforce
    have wf: "wal_file w = f0" by (simp add: w_def)
    note rb = read_batch_file [OF w1]
    obtain w' where rec: "recover flush (w, a) = (r, (w', b))" and f': "f' = wal_file w'"
      using run op True by (auto simp: recovery_init_def split: prod.splits)
    show thesis
    proof (cases "\<exists>xs. r1 = Ok xs")
      case False
      then have "(\<forall>x. r \<noteq> Ok x) \<and> w' = w1 \<and> b = a"
        using rec w1 by (cases r1) (auto simp: recover_def on_fst_def)
      then show thesis using unread rb c0 wf f' by simp
    next
      case True
      then have r1: "r1 = Ok es" using rd w1 wf c0(1) unfolding reads_as_def by blast
      show thesis
      proof (cases "es = []")
        case True
        then have "w' = w1" "b = a" using rec w1 r1 by (simp_all add: recover_def on_fst_def)
        then show thesis using none True rb c0 wf f' by simp
      next
        case False
        obtain r2 s2 where s2: "replay flush es a = (r2, s2)" by fastforce
        have step: "recover flush (w, a) = then_do (r2, (w1, s2)) (\<lambda>mx st.
            then_do (on_fst wal_truncate st) (\<lambda>_ st. then_do (on_fst explicit_sync st) (\<lambda>_ st. (Ok mx, st))))"
          using w1 r1 False s2 by (simp add: recover_def on_fst_def on_snd_def)
        show thesis
        proof (cases "\<exists>x. r2 = Ok x")
          case False
          then have "(\<forall>x. r \<noteq> Ok x) \<and> w' = w1 \<and> b = s2" using rec unfolding step by (cases r2) auto
          then show thesis using failed [OF _ False [simplified]] s2 rb c0 wf f' by simp
        next
          case True
          then obtain x where x: "r2 = Ok x" by blast
          obtain r3 w3 where w3: "wal_truncate w1 = (r3, w3)" by fastforce
          obtain r4 w4 where w4: "explicit_sync w3 = (r4, w4)" by fastforce
          have d4: "durable (wal_file w4) \<in> {durable (wal_file w3), content (wal_file w3)}"
            using w4 sync_all_frame [of "wal_file w3"] by (auto simp: explicit_sync_def on_wal_file_def split: prod.splits)
          have "b = s2 \<and> (w' = w3 \<or> r3 = Ok () \<and> w' = w4)"
            using rec unfolding step x by (cases r3; cases r4) (auto simp: on_fst_def w3 w4)
          then have "b = s2 \<and> durable f' \<in> {durable f, []}"
            using wal_truncate_file [OF w3] d4 rb c0 wf f' by auto
          then show thesis using replayed s2 x by simp
        qed
      qed
    qed
  qed
qed

text \<open>
  A start: the two files are what a crash left of them, the pool is new and has no log to flush,
  and device calls may fail in any way, all of them from some call on for instance, which is how
  far a power loss in the middle of recovery lets it come. What is left is durable again.
\<close>

inductive restart :: "u8 list \<times> u8 list \<Rightarrow> u64 result \<Rightarrow> wal_manager buffer_pool \<Rightarrow> u8 list \<times> u8 list \<Rightarrow> bool" where
  "content f = lb \<Longrightarrow> durable f = lb \<Longrightarrow> content g = db \<Longrightarrow> durable g = db \<Longrightarrow> disk_open g = (Ok d, g') \<Longrightarrow>
   recovery_init flush_upto (f, pool_new d c None) = (r, (f', q)) \<Longrightarrow>
   restart (lb, db) r q (durable f', durable (db_file (pool_disk q)))"

inductive restarts :: "u8 list \<times> u8 list \<Rightarrow> u8 list \<times> u8 list \<Rightarrow> bool" where
  none: "restarts z z"
| again: "restarts x y \<Longrightarrow> restart y r q z \<Longrightarrow> restarts x z"

definition recoverable :: "page_id set \<Rightarrow> (page_id \<Rightarrow> page_state) \<Rightarrow> wal_entry list \<Rightarrow> u8 list \<times> u8 list \<Rightarrow> u8 list \<Rightarrow> bool" where
  "recoverable L st es z lb \<longleftrightarrow> reads_as lb es \<and> fst z = lb \<and> reopens L st es (snd z) \<or>
     fst z = [] \<and> opens_to L (redo_all es st) (snd z)"

lemma restart_replays:
  assumes ids: "\<forall>e \<in> set es. wal_page_id e \<in> L" and rd: "reads_as (fst y) es" and op: "reopens L st es (snd y)"
    and run: "restart y r q z"
  shows "(fst z = fst y \<and> reopens L st es (snd z) \<or> fst z \<in> {fst y, []} \<and> opens_to L (redo_all es st) (snd z)) \<and>
    (\<forall>mx. r = Ok mx \<longrightarrow> (\<forall>p \<in> L. page_state q p = redo_all es st p) \<and> opens_to L (redo_all es st) (snd z))"
  using run
proof cases
  case (1 f lb g db d g' c f')
  note o = 1
  obtain x where x: "opens_to L x db" "\<forall>p \<in> L. bears st es x p" using op o(1) by (auto simp: reopens_def)
  let ?a = "pool_new d c (None :: wal_manager option)"
  have "opens_to L x (content g)" using x(1) o(5) by simp
  note oa = opens_any(1,2) [OF this o(7), where c = c] opens_any(3) [OF this o(7)]
  have pd: "durable (db_file (pool_disk ?a)) = db" using oa(3) o(6) by (simp add: pool_new_def)
  have all: "redo_all es (page_state ?a) p = redo_all es st p" if p: "p \<in> L" for p
  proof -
    obtain k where "page_state ?a p = redo_all (take k es) st p" using x(2) oa(2) p by (auto simp: bears_def)
    then show ?thesis by (rule redo_resumes [where st = "page_state ?a"])
  qed
  have re: "reopens L st es db" using op o(1) by simp
  have rd': "reads_as (content f) es" using rd o(1,3) by simp
  show ?thesis
  proof (cases rule: recovery_stages [OF rd' o(8)])
    case 1
    then show ?thesis using o(1,2,4,6) pd re by simp
  next
    case 2
    then have "\<forall>p \<in> L. x p = redo_all es st p" using x(2) by (simp add: bears_def)
    then have "opens_to L (redo_all es st) db" "\<forall>p \<in> L. page_state q p = redo_all es st p"
      using opens_to_cong [OF x(1)] oa(2) 2(3) by simp_all
    then show ?thesis using o(1,2,4,6) pd re 2 by simp
  next
    case (3 r2)
    then show ?thesis using o(1,2,4,6) pd re replay_durable(1) [OF oa(1) ids 3(1,2)] by simp
  next
    case (4 y)
    note rp = replay_durable(2) [OF oa(1) ids 4(1) refl]
    have "opens_to L (redo_all es st) (durable (db_file (pool_disk q)))"
      using opens_to_cong [OF conjunct1 [OF rp]] all by simp
    moreover have "\<forall>p \<in> L. page_state q p = redo_all es st p" using rp all by simp
    ultimately show ?thesis using o(1,2,4,6) 4(2) by auto
  qed
qed

lemma redo_all_again: "redo_all es (redo_all es st) p = redo_all es st p"
  using redo_resumes [of "redo_all es st" p "length es" es st] by simp

lemma restart_recoverable:
  assumes ids: "\<forall>e \<in> set es. wal_page_id e \<in> L" and rc: "recoverable L st es y lb" and run: "restart y r q z"
  shows "recoverable L st es z lb"
    and "r = Ok mx \<Longrightarrow> (\<forall>p \<in> L. page_state q p = redo_all es st p) \<and> opens_to L (redo_all es st) (snd z)"
proof -
  have "recoverable L st es z lb \<and>
    (\<forall>mx. r = Ok mx \<longrightarrow> (\<forall>p \<in> L. page_state q p = redo_all es st p) \<and> opens_to L (redo_all es st) (snd z))"
    using rc unfolding recoverable_def [of L st es y]
  proof (elim disjE conjE)
    assume a: "reads_as lb es" "fst y = lb" "reopens L st es (snd y)"
    note rr = restart_replays [OF ids _ a(3) run, unfolded a(2), OF a(1)]
    have "reopens L st es (snd z)" if "opens_to L (redo_all es st) (snd z)"
      unfolding reopens_def bears_def using that by (intro exI [of _ "redo_all es st"] conjI ballI exI [of _ "length es"]) simp_all
    then show ?thesis using rr a(1) by (auto simp: recoverable_def)
  next
    assume a: "fst y = []" "opens_to L (redo_all es st) (snd y)"
    have "reads_as (fst y) []" using reads_as_whole [of "[]"] a(1) by simp
    from restart_replays [OF _ this reopens_start [OF a(2)] run] a(1)
    have "fst z = [] \<and> (reopens L (redo_all es st) [] (snd z) \<or> opens_to L (redo_all es st) (snd z))"
      and ok: "\<forall>mx. r = Ok mx \<longrightarrow> (\<forall>p \<in> L. page_state q p = redo_all es st p) \<and> opens_to L (redo_all es st) (snd z)"
      by auto
    moreover have "opens_to L (redo_all es st) (snd z)" if "reopens L (redo_all es st) [] (snd z)"
      using that opens_to_cong by (fastforce simp: reopens_def bears_def)
    ultimately show ?thesis by (auto simp: recoverable_def)
  qed
  then show "recoverable L st es z lb"
    "r = Ok mx \<Longrightarrow> (\<forall>p \<in> L. page_state q p = redo_all es st p) \<and> opens_to L (redo_all es st) (snd z)" by blast+
qed

lemma restarts_recoverable:
  "restarts x y \<Longrightarrow> \<forall>e \<in> set es. wal_page_id e \<in> L \<Longrightarrow> recoverable L st es x lb \<Longrightarrow> recoverable L st es y lb"
  by (induction rule: restarts.induct) (auto intro: restart_recoverable(1))

lemma fetch_uncached_reliable:
  assumes inv: "pool_inv L a" and p: "p \<in> L" and none: "map_of (page_table a) p = None"
    and room: "length (page_table a) < pool_capacity a" and rel: "reliable a" and small: "unat p + PAGE_SIZE < 2 ^ 63"
  obtains f s where "fetch_page flush p a = (Ok f, s)" "reliable s" "page_table s = AList.update p f (page_table a)"
proof -
  have io: "io_plan (db_file (pool_disk a)) = []" using rel by (simp add: reliable_def)
  have c: "contents_ok L a" using inv by (simp add: pool_inv_def)
  have nk: "p \<notin> fst ` set (page_table a)" using none by (simp add: map_of_eq_None_iff)
  obtain m where m: "disk_view a p = Some m" "node_wf m" using c p nk by (auto simp: contents_ok_def)
  then obtain n where n: "disk.stored (pool_disk a) p = Some n" "m = disk_form n" by (auto simp: disk_view_def)
  then obtain img where img: "disk_page (pool_disk a) p = Some img" by (auto simp: disk.stored_def split: option.splits)
  have rd: "read_page p (pool_disk a) = (Ok img, pool_disk a)"
    using img io small by (simp add: read_page_def read_exact_at_def offset_ok_def disk_page_def page_at_def split: if_splits)
  have dec: "decode img = Ok n" using stored_load(1) [OF rd] n(1) by simp
  have po: "page_offset p" using c p by (simp add: contents_ok_def)
  have wf: "node_wf n" using m(2) n(2) by simp
  obtain t where t: "touch p (install p n a) = (Ok (), t)"
    by (rule install_spec [OF inv none room wf po]) (use m(1) n(2) that in simp_all)
  have tab: "page_table t = AList.update p (length (heap a)) (page_table a)" "pool_disk t = pool_disk a"
    "pool_flusher t = pool_flusher a"
    using t by (auto simp: touch_def install_def split: result.splits)
  have "fetch_page flush p a = (Ok (length (heap a)), clone_frame (length (heap a)) t)"
    using none room rd dec t by (simp add: fetch_page_def make_room_def on_disk_def Let_def)
  moreover have "reliable (clone_frame (length (heap a)) t)"
    using rel tab by (simp add: reliable_def clone_frame_def)
  ultimately show thesis using that tab(1) by (simp add: clone_frame_def)
qed

lemma checkpointed:
  obtains p1 w0 where "flush_all_pages flush_upto released_pool = (Ok (), p1)" "reliable p1" "pool_flusher p1 = Some w0"
    "wal_sync w0" "content (wal_file w0) = []" "durable (wal_file w0) = []"
proof -
  have un: "\<forall>p f. map_of (page_table released_pool) p = Some f \<longrightarrow> \<not> write_latched (heap released_pool ! f)"
    using released_pool(3,4) by fastforce
  have fits: "\<forall>p f. map_of (page_table released_pool) p = Some f \<longrightarrow> node_fits (node_at f released_pool)"
    using released_pool(3,4) new_empty_fits by (fastforce simp: node_at_def)
  obtain p1 where p1: "flush_all_pages flush_upto released_pool = (Ok (), p1)" "reliable p1"
    by (rule flush_all_reliable [OF released_pool(1) released_reliable _ un fits]) (simp_all add: size_consts)
  have w: "pool_flusher released_pool = Some (fresh_wal True)" using sample_page(9) by (simp add: released_pool_def)
  obtain w0 where "pool_flusher p1 = Some w0" "content (wal_file w0) = content (wal_file (fresh_wal True))"
    "wal_sync w0 = wal_sync (fresh_wal True)" "durable (wal_file w0) = content (wal_file (fresh_wal True))"
    using flush_all_disturbs(1) [OF p1(1)] w unfolding same_log_def by (fastforce simp: fresh_wal_def new_file_def)
  then show thesis using that [OF p1] by (simp add: fresh_wal_def new_file_def)
qed

lemma leaf_ext_fields: "(a :: leaf_node) = b \<Longrightarrow> slot_array a = slot_array b \<and> last_lsn a = last_lsn b"
  by simp

section \<open>Properties\<close>

text \<open>
  C2:
  The promise of the log from end to end. Let the database be durable as the pages \<open>st\<close>, and let the
  entries of a log with \<open>sync\<close> ascend in number and lie above the numbers of these pages. Once
  \<open>write_batch\<close> has acknowledged a batch, let the machine crash, and start it any number of times,
  where each start may fail at any device call and is followed by a crash. At any time either
  the log is still there whole, the acknowledged batch included, or the database is durable with
  the effects of all its entries. And when a start answers \<open>Ok\<close>, every page has the effects of all
  entries of the log and of the batch, each of them once and in order, in memory and durably.
\<close>

theorem acknowledged_batch_redone:
  assumes "log_holds w es" "wal_sync w" "batch \<noteq> []" "\<forall>e \<in> set batch. entry_ok e"
    and "write_batch batch w = (Ok (), w')"
    and "opens_to L st db" "\<forall>e \<in> set (es @ batch). wal_page_id e \<in> L" "ascending (es @ batch) st"
    and "restarts (durable (wal_file w'), db) y" "restart y r q z"
  shows "(fst y = batch_buffer (es @ batch) \<or> opens_to L (made (es @ batch) st) (snd y)) \<and>
    (\<forall>mx. r = Ok mx \<longrightarrow> (\<forall>p \<in> L. page_state q p = made (es @ batch) st p) \<and> opens_to L (made (es @ batch) st) (snd z))"
proof -
  let ?es = "es @ batch"
  have lb: "durable (wal_file w') = batch_buffer ?es" and ok: "\<forall>e \<in> set ?es. entry_ok e"
    using assms(1-4) write_batch_content [OF assms(5)] by (auto simp: log_holds_def batch_buffer_append)
  have m: "\<forall>p \<in> L. redo_all ?es st p = made ?es st p" using redo_all_made [OF assms(8)] by simp
  have "recoverable L st ?es (durable (wal_file w'), db) (batch_buffer ?es)"
    using reads_as_whole [OF ok] reopens_start [OF assms(6)] lb by (simp add: recoverable_def)
  from restarts_recoverable [OF assms(9,7) this] have rc: "recoverable L st ?es y (batch_buffer ?es)" .
  then have "fst y = batch_buffer ?es \<or> opens_to L (made ?es st) (snd y)"
    using opens_to_cong [OF _ m] by (auto simp: recoverable_def)
  moreover have "(\<forall>p \<in> L. page_state q p = made ?es st p) \<and> opens_to L (made ?es st) (snd z)" if "r = Ok mx" for mx
    using restart_recoverable(2) [OF assms(7) rc assms(10) that] opens_to_cong [OF _ m] m by simp
  ultimately show ?thesis by blast
qed

text \<open>A start over the sample page as it was at the checkpoint, and a log of one entry for it.\<close>

lemma sample_restart:
  assumes p1: "flush_all_pages flush_upto released_pool = (Ok (), p1)"
    and g: "content g = durable (db_file (pool_disk p1))" "io_plan g = []"
    and f: "content f = batch_buffer [sample_entry 7]" "io_plan f = []"
  obtains d f' q where "disk_open g = (Ok d, g)"
    "recovery_init flush_upto (f, pool_new d 2 (None :: wal_manager option)) = (Ok 7, (f', q))"
proof -
  have one: "\<forall>p f. map_of (page_table released_pool) p = Some f \<longrightarrow> strong (heap released_pool ! f) = 1"
    using released_pool(3,4) by fastforce
  have n0: "node_at 0 released_pool = mark_dirty 3 (new_empty 4096 True)" using released_pool(4) by (simp add: node_at_def)
  note cr = checkpoint_reopens [OF released_pool(1) p1 one g, where w = "None :: wal_manager option" and c = 2]
  obtain d where d: "disk_open g = (Ok d, g)" "pool_inv {4096} (pool_new d 2 (None :: wal_manager option))"
    "pool_view (pool_new d 2 (None :: wal_manager option)) 4096 = pool_view released_pool 4096"
    using cr by blast
  let ?q = "pool_new d 2 (None :: wal_manager option)"
  have idq: "idle {4096} ?q" using d(2) by (simp add: idle_def alone_def no_latch_def latches_def pool_new_def)
  have "io_plan (db_file d) = []" using d(1) g(2)
    by (auto simp: disk_open_def then_do_eq_Ok read_exact_at_def split: if_splits)
  then have rq: "reliable ?q" by (simp add: reliable_def pool_new_def)
  have q4: "(4096::page_id) \<in> {4096}" "map_of (page_table ?q) 4096 = None" "length (page_table ?q) < pool_capacity ?q"
    "unat (4096::page_id) + PAGE_SIZE < 2 ^ 63" by (simp_all add: pool_new_def size_consts)
  obtain fr t where t: "fetch_page flush_upto 4096 ?q = (Ok fr, t)" "reliable t" "page_table t = AList.update 4096 fr (page_table ?q)"
    by (rule fetch_uncached_reliable [OF d(2) q4(1-3) rq q4(4)])
  have tt: "map_of (page_table t) 4096 = Some fr" "\<forall>p g. map_of (page_table t) p = Some g \<longrightarrow> g = fr"
    using t(3) by (simp_all add: pool_new_def split: if_splits)
  have "keeps {4096} ?q t" using fetch_page_spec [OF d(2) q4(1) t(1)] by simp
  then have "disk_form (node_at fr t) = disk_form (mark_dirty 3 (new_empty 4096 True))"
    using d(3) pool_view_mapped [OF tt(1)] pool_view_mapped [OF released_pool(2)] n0 by (simp add: keeps_def)
  then obtain l3 where l3: "node_at fr t = Leaf l3" "slot_array l3 = []" "last_lsn l3 = 3"
    by (cases "node_at fr t")
      (auto simp: new_empty_def leaf_default_def dest!: leaf_ext_fields)
  obtain q' where q': "replay flush_upto [sample_entry 7] ?q = (Ok 7, q')"
    by (rule replay_one [OF idq t(1) l3(1,2) _ t(2) tt(2)]) (simp_all add: l3(3))
  obtain f' where "recovery_init flush_upto (f, ?q) = (Ok 7, (f', q'))"
    by (rule recovery_init_reliable [OF f q'])
  with d(1) show thesis by (rule that)
qed

text \<open>Two starts: the first cannot open the log.\<close>

lemma sample_restarts:
  assumes p1: "flush_all_pages flush_upto released_pool = (Ok (), p1)"
    and z: "z = (batch_buffer [sample_entry 7], durable (db_file (pool_disk p1)))"
  obtains r1 q1 q y where "restart z (Err r1) q1 z" "restart z (Ok 7) q y"
proof -
  define f where "f = \<lparr>content = fst z, durable = fst z, io_plan = []\<rparr>"
  define g where "g = \<lparr>content = snd z, durable = snd z, io_plan = []\<rparr>"
  have c: "content g = durable (db_file (pool_disk p1))" "io_plan g = []"
    "content f = batch_buffer [sample_entry 7]" "io_plan f = []" by (simp_all add: f_def g_def z)
  obtain d f' q where d: "disk_open g = (Ok d, g)"
    and run: "recovery_init flush_upto (f, pool_new d 2 (None :: wal_manager option)) = (Ok 7, (f', q))"
    by (rule sample_restart [OF p1 c])
  have "restart (fst z, snd z) (Ok 7) q (durable f', durable (db_file (pool_disk q)))"
    by (rule restart.intros [OF _ _ _ _ d run]) (simp_all add: f_def g_def)
  moreover have "restart (fst z, snd z) (Err (Io OtherIo)) (pool_new d 2 None)
      (durable f, durable (db_file (pool_disk (pool_new d 2 (None :: wal_manager option)))))"
  proof (rule restart.intros [OF _ _ _ _ d])
    show "recovery_init flush_upto (f\<lparr>io_plan := [Some 0]\<rparr>, pool_new d 2 None) = (Err (Io OtherIo), (f, pool_new d 2 None))"
      by (simp add: recovery_init_def wal_open_def io_call_def io_step_def f_def)
  qed (simp_all add: f_def g_def)
  moreover have "durable (db_file d) = snd z"
    using disk_open_any [OF d, of g] by (simp add: g_def)
  ultimately show thesis using that by (simp add: f_def pool_new_def)
qed

theorem acknowledged_batch_redone_witness:
  "\<exists>w' (p1 :: wal_manager buffer_pool) y q z. write_batch [sample_entry 7] (fresh_wal True) = (Ok (), w') \<and>
     restarts (durable (wal_file w'), durable (db_file (pool_disk p1))) y \<and> restart y (Ok 7) q z \<and>
     page_state q 4096 = made [sample_entry 7] (page_state released_pool) 4096"
proof -
  have ne: "[sample_entry 7] \<noteq> []" by simp
  obtain w' where w': "write_batch [sample_entry 7] (fresh_wal True) = (Ok (), w')"
    and d: "durable (wal_file w') = batch_buffer [sample_entry 7]"
    using write_batch_reliable [OF fresh_wal_simps(1) ne, of True] unfolding fresh_wal_simps append_Nil by auto
  obtain p1 w0 where p1: "flush_all_pages flush_upto released_pool = (Ok (), p1)" by (rule checkpointed)
  let ?z = "(durable (wal_file w'), durable (db_file (pool_disk p1)))"
  obtain r1 q1 q y where s: "restart ?z (Err r1) q1 ?z" "restart ?z (Ok 7) q y"
    by (rule sample_restarts [OF p1, of ?z]) (simp add: d)
  have rs: "restarts ?z ?z" by (rule restarts.again [OF restarts.none s(1)])
  have h: "log_holds (fresh_wal True) []" "wal_sync (fresh_wal True)" by (simp_all add: log_holds_def)
  have op: "opens_to {4096} (page_state released_pool) (durable (db_file (pool_disk p1)))"
    by (rule checkpoint_opens [OF released_idle p1])
  have es: "\<forall>e \<in> set ([] @ [sample_entry 7]). wal_page_id e \<in> {4096}" "\<forall>e \<in> set [sample_entry 7]. entry_ok e"
    by (simp_all add: sample_entry_def entry_ok_def wal_size_def size_consts)
  have "page_state released_pool 4096 = node_state (node_at 0 released_pool)" by (rule page_state_mapped [OF released_pool(2)])
  then have "fst (page_state released_pool 4096) = 3" using released_pool(4)
    by (simp add: node_at_def del: mark_dirty.simps)
  then have asc: "ascending ([] @ [sample_entry 7]) (page_state released_pool)" by (simp add: ascending_def sample_entry_def)
  from acknowledged_batch_redone [OF h ne es(2) w' op es(1) asc rs s(2)]
  have "page_state q 4096 = made [sample_entry 7] (page_state released_pool) 4096" by simp
  with w' rs s(2) show ?thesis by blast
qed

end
