(* ===== verification/Engine.thy ===== *)
theory Engine
  imports Tree_Map Restart "HOL-Library.Sublist"
begin

text \<open>
  A client of the whole stack, which keeps the write-ahead discipline: it logs changes in batches
  before it makes them on the pages, in any interleaving with searches, evictions and flushes,
  any of which may fail. The invariant says what a crash at any moment finds: the log, with what
  a failed append has left at its end, and pages that bear a prefix of it each.
\<close>

section \<open>The steps of an engine, on an idle pool\<close>

lemma release_latched [simp]: "release f (set_latch f b s) = release f s"
  by (cases "f < length (heap s)") (simp_all add: release_def set_latch_def drop_frame_def list_update_beyond not_less)

lemma insert_Ok_None:
  assumes "insert_leaf_pool flush p k w lsn a = (Ok None, b)"
  obtains f s m m' where "fetch_page flush p a = (Ok f, s)" "latch_write f s = (Ok (), set_latch f True s)"
    "node_at f s = Leaf m" "insert_record k w m = (Ok (), m')"
    "b = release f (set_node f (mark_dirty lsn (Leaf m')) (set_latch f True s))"
proof -
  obtain f s where s: "fetch_page flush p a = (Ok f, s)"
    using assms by (auto simp: insert_leaf_pool_def then_do_eq_Ok)
  have lw: "latch_write f s = (Ok (), set_latch f True s)"
    using assms s by (auto simp: insert_leaf_pool_def latch_write_def split: if_splits)
  obtain m where m: "node_at f s = Leaf m"
    using assms s lw by (cases "node_at f s") (auto simp: insert_leaf_pool_def leaving_def)
  obtain r m' where m': "insert_record k w m = (r, m')" by fastforce
  have r: "r = Ok ()"
  proof (cases r)
    case (Err e)
    have "e = PageFull" "\<exists>c. split_leaf flush p k w lsn f (set_node f (Leaf m') (set_latch f True s)) = (Ok None, c)"
      using assms s lw m m' Err by (auto simp: insert_leaf_pool_def leaving_Ok split: if_splits)
    then show ?thesis using split_leaf_Some by blast
  qed (use assms s lw m m' in \<open>auto simp: insert_leaf_pool_def leaving_def\<close>)
  show thesis
    by (rule that [OF s lw m m' [unfolded r]])
      (use assms s lw m m' r in \<open>simp add: insert_leaf_pool_def leaving_def del: mark_dirty.simps\<close>)
qed

lemma insert_idle:
  assumes idle: "idle L a" and p: "p \<in> L" and run: "insert_leaf_pool flush_upto p k w lsn a = (Ok None, b)"
  shows "idle L b" "\<forall>q \<in> L. page_state b q = ((page_state a)(p := (lsn, (snd (page_state a p))(k \<mapsto> w)))) q"
    "snd (page_state a p) k = None" "undisturbed a b"
proof -
  obtain f s m m' where s: "fetch_page flush_upto p a = (Ok f, s)" and lw: "latch_write f s = (Ok (), set_latch f True s)"
    and m: "node_at f s = Leaf m" and ins: "insert_record k w m = (Ok (), m')"
    and b: "b = release f (set_node f (mark_dirty lsn (Leaf m')) (set_latch f True s))"
    by (rule insert_Ok_None [OF run])
  show "undisturbed a b" using undisturbed_fetch [OF s] unfolding b by (simp del: mark_dirty.simps)
  have "idle L b \<and> (\<forall>q \<in> L. page_state b q = ((page_state a)(p := (lsn, (snd (page_state a p))(k \<mapsto> w)))) q) \<and>
      snd (page_state a p) k = None"
  proof (cases rule: fetch_idle [OF idle p s])
    case 1
    then show ?thesis by simp
  next
    case (2 g)
    then have g: "g = f" by simp
    have wf: "leaf_wf m" using 2(4) m g by simp
    have i: "leaf_wf m'" "leaf_map m' = (leaf_map m)(k \<mapsto> w)" "leaf_map m k = None"
      using leaf.run_inv [of m "PutOp k w", simplified, OF wf ins] leaf.run_map [of m "PutOp k w", simplified, OF wf ins]
        insert_Ok_fresh(1) [OF wf ins] by simp_all
    have "node_wf (mark_dirty lsn (Leaf m'))" "node_is_dirty (mark_dirty lsn (Leaf m'))" using i(1) by simp_all
    note n = 2(7) [OF this(1) disjI2 [OF this(2)], unfolded g]
    have "page_state a p = (last_lsn m, leaf_map m)" using 2(6) m g by (simp add: node_state_def)
    moreover have "node_state (mark_dirty lsn (Leaf m')) = (lsn, (leaf_map m)(k \<mapsto> w))"
      using i(2) unfolding node_state_simps by simp
    ultimately show ?thesis using n i(3) unfolding b by (simp del: mark_dirty.simps)
  qed
  then show "idle L b" "\<forall>q \<in> L. page_state b q = ((page_state a)(p := (lsn, (snd (page_state a p))(k \<mapsto> w)))) q"
    "snd (page_state a p) k = None" by blast+
qed

lemma insert_full_cong:
  assumes "leaf_wf m" "leaf_wf n" "slot_records m = slot_records n" "insert_record k v m = (Err PageFull, m')"
  shows "insert_record k v n = (Err PageFull, n)"
proof -
  have eq: "leaf_map m = leaf_map n" "leaf_bytes m = leaf_bytes n" "tombstoned m k = tombstoned n k"
    using assms(1-3) slots_wf_set [of m] slots_wf_set [of n]
    by (simp_all add: leaf_map_def leaf_bytes_def tombstoned_def leaf_wf_def)
  show ?thesis
  proof (cases rule: insert_record_cases [OF assms(1), of k v])
    case 3
    then show ?thesis using eq by (cases rule: insert_record_cases [OF assms(2), of k v]) auto
  qed (use assms(4) in auto)
qed

text \<open>An insertion that is refused for another reason than a full page changes nothing.\<close>

lemma insert_refused_idle:
  assumes idle: "idle L a" and p: "p \<in> L" and run: "insert_leaf_pool flush_upto p k w lsn a = (Err err, b)"
    and room: "\<forall>l. pool_view a p = Some (Leaf l) \<longrightarrow> fst (insert_record k w l) \<noteq> Err PageFull"
  shows "idle L b \<and> (\<forall>q \<in> L. page_state b q = page_state a q) \<and> undisturbed a b"
proof -
  obtain r1 s where s: "fetch_page flush_upto p a = (r1, s)" by fastforce
  note u = undisturbed_fetch [OF s]
  show ?thesis
  proof (cases rule: fetch_idle [OF idle p s])
    case 1
    then have "b = s" using run s by (cases r1) (auto simp: insert_leaf_pool_def)
    then show ?thesis using 1(2) keeps_page_state [OF 1(3)] u by simp
  next
    case (2 f)
    have same: "set_node f (node_at f s) (set_latch f True s) = set_latch f True s"
      using set_node_same [of f "set_latch f True s"] by simp
    have pv: "pool_view a p = Some (disk_form (node_at f s))" using pool_view_mapped [OF 2(3)] 2(2) p by (simp add: keeps_def)
    have "b = release f (set_node f (node_at f s) (set_latch f True s))"
    proof (cases "node_at f s")
      case (Internal i)
      then show ?thesis using run s 2(1,5) same by (simp add: insert_leaf_pool_def leaving_def)
    next
      case (Leaf m)
      obtain r m' where ins: "insert_record k w m = (r, m')" by fastforce
      have wf: "leaf_wf m" using 2(4) Leaf by simp
      obtain l where l: "disk_form (Leaf m) = Leaf l" by (cases "disk_form (Leaf m)") auto
      obtain j where j: "Leaf m = Leaf j" "leaf_wf l = leaf_wf j" "slot_records l = slot_records j" by (rule disk_form_LeafD [OF l])
      have "r \<noteq> Err PageFull"
      proof
        assume "r = Err PageFull"
        then have "insert_record k w l = (Err PageFull, l)"
          using insert_full_cong [OF wf _ _ ins [unfolded \<open>r = Err PageFull\<close>], of l] j wf by simp
        then show False using room pv Leaf l by simp
      qed
      then have r: "r = Err err" using run s 2(1,5) Leaf ins
        by (cases r) (auto simp: insert_leaf_pool_def leaving_def split: if_splits)
      then have "m' = m" using leaf.run_err [of m "PutOp k w"] wf ins by simp
      then show ?thesis using run s 2(1,5) Leaf ins r \<open>r \<noteq> Err PageFull\<close> same
        by (simp add: insert_leaf_pool_def leaving_def)
    qed
    then show ?thesis using 2(7) [OF 2(4), simplified] 2(6) u by auto
  qed
qed

lemma find_turn_idle:
  assumes idle: "idle L a" and p: "p \<in> L" and run: "find_turn flush_upto k p a = (r, b)"
  shows "idle L b \<and> (\<forall>q \<in> L. page_state b q = page_state a q) \<and> undisturbed a b"
proof -
  obtain r1 s where s: "fetch_page flush_upto p a = (r1, s)" by fastforce
  note u = undisturbed_fetch [OF s]
  show ?thesis
  proof (cases rule: fetch_idle [OF idle p s])
    case 1
    then have "b = s" using run s by (cases r1) (auto simp: find_turn_def)
    then show ?thesis using 1(2) keeps_page_state [OF 1(3)] u by simp
  next
    case (2 f)
    have free: "\<not> write_latched (heap s ! f)" using 2(5) by (auto simp: latch_write_def split: if_splits)
    have b: "b = release f (set_node f (node_at f s) (set_latch f True s))"
      using run s 2(1) free drop_released [OF free] set_node_same [of f "set_latch f True s"]
      by (simp add: find_turn_def latch_read_def)
    show ?thesis using 2(7) [OF 2(4), simplified] 2(6) u unfolding b by auto
  qed
qed

lemma find_loop_idle:
  assumes "routes L view k p l" "\<forall>q \<in> L. pool_view a q = view q" "idle L a" "find_loop flush_upto k p a = Some (r, b)"
  shows "idle L b \<and> (\<forall>q \<in> L. page_state b q = page_state a q) \<and> undisturbed a b"
  using assms
proof (induction arbitrary: a rule: routes.induct)
  case (here p l)
  obtain r1 s where s: "find_turn flush_upto k p a = (r1, s)" by fastforce
  have pre: "pool_inv L a" "no_latch a" using here.prems(2) by (simp_all add: idle_def)
  have "b = s"
    using here.prems(1,3) here.hyps s find_turn_spec [OF pre here.hyps(1) s]
    by (subst (asm) find_loop.simps) (cases r1; auto)
  then show ?case using find_turn_idle [OF here.prems(2) here.hyps(1) s] by simp
next
  case (down p i l)
  obtain r1 s where s: "find_turn flush_upto k p a = (r1, s)" by fastforce
  have pre: "pool_inv L a" "no_latch a" using down.prems(2) by (simp_all add: idle_def)
  note ft = find_turn_spec [OF pre down.hyps(1) s] and fi = find_turn_idle [OF down.prems(2) down.hyps(1) s]
  show ?case
  proof (cases "\<exists>x. r1 = Ok x")
    case True
    have "pool_view a p = Some (Internal i)" using down.prems(1) down.hyps(1,2) by simp
    then have "find_loop flush_upto k (routed_child (slot_entries i) (rightmost_child_id i) k) s = Some (r, b)"
      using True ft s down.prems(3) by (subst (asm) find_loop.simps) auto
    moreover have "\<forall>q \<in> L. pool_view s q = view q" using ft down.prems(1) by simp
    ultimately show ?thesis using down.IH [of s] fi undisturbed_trans by auto
  next
    case False
    then have "b = s" using s down.prems(3) by (subst (asm) find_loop.simps) (cases r1; auto)
    then show ?thesis using fi by simp
  qed
qed

lemma flush_page_idle:
  assumes "idle L a" "flush_page flush_upto p a = (r, b)"
  shows "idle L b \<and> (\<forall>q \<in> L. page_state b q = page_state a q) \<and> undisturbed a b"
proof -
  have pre: "pool_inv L a" "alone a" "no_latch a" using assms(1) by (simp_all add: idle_def)
  note fp = flush_page_spec [OF pre(1) assms(2)]
  have sh: "same_shape a b" using fp by simp
  then have "idle L b"
    using fp pre same_shape_latches [OF sh] by (simp add: idle_def alone_def no_latch_def same_shape_def)
  moreover have "\<forall>q \<in> L. page_state b q = page_state a q" using fp keeps_page_state by blast
  ultimately show ?thesis using undisturbed_flush_page [OF assms(2)] by simp
qed

section \<open>The engine\<close>

text \<open>
  A pool whose flusher is the log, the entries logged since the last checkpoint, those of a batch
  that was refused, and how many entries have been made on the pages. Entries are made in the
  order of the log, an insertion by \<open>insert_leaf\<close> on the page that the entry names or, like an
  update or a deletion, by the body of \<open>replay\<close>; either may be refused, and be tried again. After
  a batch that was refused nothing more is logged, since what it has left in the file may be torn.
  Insertions that split a page are left out, for they are not logged and cannot be recovered, and
  so are new pages.
\<close>

record engine =
  engine_pool :: "wal_manager buffer_pool"
  log_entries :: "wal_entry list"
  failed_batch :: "wal_entry list"
  entries_made :: nat

definition engine_start :: "wal_manager buffer_pool \<Rightarrow> engine" where
  "engine_start pool = \<lparr>engine_pool = pool, log_entries = [], failed_batch = [], entries_made = 0\<rparr>"

inductive engine_step :: "page_id set \<Rightarrow> engine \<Rightarrow> engine \<Rightarrow> bool" for L where
  log: "failed_batch s = [] \<Longrightarrow> pool_flusher (engine_pool s) = Some w \<Longrightarrow> write_batch batch w = (Ok (), w') \<Longrightarrow>
    \<forall>e \<in> set batch. entry_ok e \<and> wal_page_id e \<in> L \<Longrightarrow>
    engine_step L s (s\<lparr>engine_pool := (engine_pool s)\<lparr>pool_flusher := Some w'\<rparr>, log_entries := log_entries s @ batch\<rparr>)"
| log_failed: "failed_batch s = [] \<Longrightarrow> pool_flusher (engine_pool s) = Some w \<Longrightarrow> write_batch batch w = (Err err, w') \<Longrightarrow>
    \<forall>e \<in> set batch. entry_ok e \<and> wal_page_id e \<in> L \<Longrightarrow>
    engine_step L s (s\<lparr>engine_pool := (engine_pool s)\<lparr>pool_flusher := Some w'\<rparr>, failed_batch := batch\<rparr>)"
| insert: "entries_made s < length (log_entries s) \<Longrightarrow> e = log_entries s ! entries_made s \<Longrightarrow> opcode e = Insert \<Longrightarrow>
    fst (page_state (engine_pool s) (wal_page_id e)) < wal_lsn e \<Longrightarrow>
    insert_leaf_pool flush_upto (wal_page_id e) (wal_row_id e) (payload e) (wal_lsn e) (engine_pool s) = (Ok None, pool) \<Longrightarrow>
    engine_step L s (s\<lparr>engine_pool := pool, entries_made := Suc (entries_made s)\<rparr>)"
| insert_refused: "p \<in> L \<Longrightarrow> insert_leaf_pool flush_upto p k v lsn (engine_pool s) = (Err err, pool) \<Longrightarrow>
    \<forall>l. pool_view (engine_pool s) p = Some (Leaf l) \<longrightarrow> fst (insert_record k v l) \<noteq> Err PageFull \<Longrightarrow>
    engine_step L s (s\<lparr>engine_pool := pool\<rparr>)"
| redo: "entries_made s < length (log_entries s) \<Longrightarrow> replay_entry flush_upto (log_entries s ! entries_made s) (engine_pool s) = (Ok (), pool) \<Longrightarrow>
    engine_step L s (s\<lparr>engine_pool := pool, entries_made := Suc (entries_made s)\<rparr>)"
| redo_refused: "wal_page_id e \<in> L \<Longrightarrow> replay_entry flush_upto e (engine_pool s) = (Err err, pool) \<Longrightarrow>
    engine_step L s (s\<lparr>engine_pool := pool\<rparr>)"
| search: "routes L (pool_view (engine_pool s)) k root l \<Longrightarrow> find_loop flush_upto k root (engine_pool s) = Some (r, pool) \<Longrightarrow>
    engine_step L s (s\<lparr>engine_pool := pool\<rparr>)"
| flush: "flush_page flush_upto p (engine_pool s) = (r, pool) \<Longrightarrow> engine_step L s (s\<lparr>engine_pool := pool\<rparr>)"
| flush_all: "flush_all_pages flush_upto (engine_pool s) = (r, pool) \<Longrightarrow> engine_step L s (s\<lparr>engine_pool := pool\<rparr>)"

text \<open>The log file: the entries logged, and after them what a refused batch has left.\<close>

definition log_tail :: "wal_manager \<Rightarrow> wal_entry list \<Rightarrow> wal_entry list \<Rightarrow> bool" where
  "log_tail w es fs \<longleftrightarrow> wal_sync w \<and> (\<forall>e \<in> set (es @ fs). entry_ok e) \<and>
     (\<exists>n. content (wal_file w) = batch_buffer es @ take n (batch_buffer fs)) \<and>
     durable (wal_file w) \<in> {batch_buffer es, content (wal_file w)}"

definition engine_inv :: "page_id set \<Rightarrow> (page_id \<Rightarrow> page_state) \<Rightarrow> engine \<Rightarrow> bool" where
  "engine_inv L st s \<longleftrightarrow> idle L (engine_pool s) \<and> (\<forall>e \<in> set (log_entries s @ failed_batch s). wal_page_id e \<in> L) \<and>
     entries_made s \<le> length (log_entries s) \<and>
     (\<exists>w. pool_flusher (engine_pool s) = Some w \<and> log_tail w (log_entries s) (failed_batch s)) \<and>
     (\<forall>p \<in> L. page_state (engine_pool s) p = redo_all (take (entries_made s) (log_entries s)) st p) \<and>
     reopens L st (log_entries s) (durable (db_file (pool_disk (engine_pool s))))"

lemma log_tailD: "log_tail w es [] \<Longrightarrow> log_holds w es \<and> wal_sync w \<and> durable (wal_file w) = batch_buffer es"
  by (auto simp: log_tail_def log_holds_def)

lemma log_tail_append:
  assumes "log_tail w es []" "write_batch b w = (Ok (), w')" "\<forall>e \<in> set b. entry_ok e"
  shows "log_tail w' (es @ b) []"
proof -
  note t = log_tailD [OF assms(1)] and c = write_batch_content [OF assms(2)]
  have "content (wal_file w') = batch_buffer (es @ b)" using t c by (simp add: log_holds_def batch_buffer_append)
  moreover have "durable (wal_file w') = content (wal_file w')"
    using t c by (cases "b = []") (auto simp: log_holds_def)
  ultimately show ?thesis using t c assms(3) by (auto simp: log_tail_def log_holds_def)
qed

lemma write_batch_debris:
  assumes "write_batch b w = (Err err, w')"
  shows "\<exists>n. content (wal_file w') = content (wal_file w) @ take n (batch_buffer b)"
proof -
  have ne: "b \<noteq> []" using assms by (auto simp: write_batch_def)
  obtain r1 f1 where f1: "append_all (batch_buffer b) (wal_file w) = (r1, f1)" by fastforce
  have "\<exists>n. content f1 = content (wal_file w) @ take n (batch_buffer b)"
  proof (cases "r1 = Ok ()")
    case True
    then show ?thesis using append_all_Ok f1 by (intro exI [of _ "length (batch_buffer b)"]) simp
  next
    case False
    then show ?thesis using f1
      by (auto simp: append_all_def dest!: io_step_frame split: prod.splits option.splits simp del: batch_buffer.simps)
  qed
  then obtain n where n: "content f1 = content (wal_file w) @ take n (batch_buffer b)" by blast
  obtain r2 f2 where f2: "sync_all f1 = (r2, f2)" by fastforce
  have "content f2 = content f1" using sync_all_frame [OF f2] by simp
  then have "content (wal_file w') = content f1" using assms ne f1 f2
    by (cases r1; cases r2; cases "wal_sync w") (auto simp: write_batch_def on_wal_file_def simp del: batch_buffer.simps)
  then show ?thesis using n by auto
qed

lemma log_tail_failed:
  assumes "log_tail w es []" "write_batch b w = (Err err, w')" "\<forall>e \<in> set b. entry_ok e"
  shows "log_tail w' es b"
proof -
  note t = log_tailD [OF assms(1)] and e = write_batch_Err [OF assms(2), simplified]
  obtain n where "content (wal_file w') = content (wal_file w) @ take n (batch_buffer b)"
    using write_batch_debris [OF assms(2)] by blast
  then show ?thesis using t e assms(3) by (auto simp: log_tail_def log_holds_def simp del: batch_buffer.simps)
qed

lemma same_logD:
  assumes "same_log a b" "\<exists>w. pool_flusher a = Some w \<and> log_tail w es fs"
  shows "\<exists>w. pool_flusher b = Some w \<and> log_tail w es fs"
  using assms unfolding same_log_def log_tail_def by (metis insert_iff singletonD)

text \<open>Whatever part of the log past its durable bytes outlives a crash, it reads as the entries logged and some of a refused batch.\<close>

lemma log_tail_reads:
  assumes t: "log_tail w es fs" and p: "prefix (durable (wal_file w)) lb" "prefix lb (content (wal_file w))"
  obtains j where "reads_as lb (es @ take j fs)"
proof -
  obtain n where n: "content (wal_file w) = batch_buffer es @ take n (batch_buffer fs)" using t by (auto simp: log_tail_def)
  have "prefix (batch_buffer es) lb"
    using t p(1) n by (auto simp: log_tail_def intro: prefix_order.trans [OF prefixI])
  then obtain u where u: "lb = batch_buffer es @ u" by (auto simp: prefix_def)
  have "prefix u (take n (batch_buffer fs))" using p(2) unfolding n u by simp
  then have "prefix u (batch_buffer fs)" using take_is_prefix prefix_order.trans by blast
  then have "u = take (length u) (batch_buffer fs)" by (auto simp: prefix_def)
  moreover have "\<forall>e \<in> set (es @ fs). entry_ok e" using t by (simp add: log_tail_def)
  ultimately show thesis using that reads_as_debris [of es fs "length u"] u by metis
qed

lemma engine_quiet:
  assumes inv: "engine_inv L st s" and idle: "idle L pool" and u: "undisturbed (engine_pool s) pool"
    and n: "n \<le> length (log_entries s)" "\<forall>p \<in> L. page_state pool p = redo_all (take n (log_entries s)) st p"
  shows "engine_inv L st (s\<lparr>engine_pool := pool, entries_made := n\<rparr>)"
proof -
  have "\<exists>w. pool_flusher (engine_pool s) = Some w \<and> log_tail w (log_entries s) (failed_batch s)"
    using inv by (simp add: engine_inv_def)
  moreover have "same_log (engine_pool s) pool" "durable (db_file (pool_disk pool)) = durable (db_file (pool_disk (engine_pool s)))"
    using u by (simp_all add: undisturbed_def)
  ultimately show ?thesis using inv idle n same_logD [of "engine_pool s" pool] by (simp add: engine_inv_def)
qed

text \<open>The same where the pages stay as they are.\<close>

lemma engine_same:
  assumes inv: "engine_inv L st s" and q: "idle L pool \<and> (\<forall>q \<in> L. page_state pool q = page_state (engine_pool s) q) \<and> undisturbed (engine_pool s) pool"
  shows "engine_inv L st (s\<lparr>engine_pool := pool\<rparr>)"
  using engine_quiet [OF inv, of pool "entries_made s"] inv q by (simp add: engine_inv_def)

lemma engine_log:
  assumes inv: "engine_inv L st s" and t: "log_tail w (log_entries s @ batch) fs"
    and ids: "\<forall>e \<in> set (batch @ fs). wal_page_id e \<in> L"
  shows "engine_inv L st (s\<lparr>engine_pool := (engine_pool s)\<lparr>pool_flusher := Some w\<rparr>, log_entries := log_entries s @ batch, failed_batch := fs\<rparr>)"
proof -
  let ?pool = "(engine_pool s)\<lparr>pool_flusher := Some w\<rparr>"
  have "idle L ?pool" using inv pool_inv_flusher(1) by (auto simp: engine_inv_def idle_def alone_def no_latch_def)
  moreover have "pool_view ?pool p = pool_view (engine_pool s) p" for p
    by (simp add: pool_view_def disk_view_def split: option.split)
  then have "page_state ?pool p = page_state (engine_pool s) p" for p by (rule page_state_view)
  ultimately show ?thesis using inv t ids reopens_log by (auto simp: engine_inv_def)
qed

lemma next_entry:
  assumes "n < length es" "\<forall>p \<in> L. page_state a p = redo_all (take n es) st p"
    and "\<forall>p \<in> L. page_state b p = redo_page (es ! n) (page_state a) p"
  shows "\<forall>p \<in> L. page_state b p = redo_all (take (Suc n) es) st p"
  using assms by (simp add: take_Suc_conv_app_nth redo_page_def)

lemma engine_step_inv:
  assumes "engine_step L s s'" "engine_inv L st s"
  shows "engine_inv L st s'"
  using assms(1)
proof (cases rule: engine_step.cases)
  case (log w batch w')
  have "log_tail w (log_entries s) []" using assms(2) log(2,3) by (auto simp: engine_inv_def)
  then have "log_tail w' (log_entries s @ batch) []" using log_tail_append log(4,5) by blast
  from engine_log [OF assms(2) this] log(2,5) show ?thesis unfolding log(1) by (cases s) simp
next
  case (log_failed w batch err w')
  have "log_tail w (log_entries s) []" using assms(2) log_failed(2,3) by (auto simp: engine_inv_def)
  then have "log_tail w' (log_entries s @ []) batch" using log_tail_failed log_failed(4,5) by simp
  from engine_log [OF assms(2) this] log_failed(5) show ?thesis unfolding log_failed(1) by (cases s) simp
next
  case (insert e pool)
  have idle: "idle L (engine_pool s)" and pL: "wal_page_id e \<in> L" using assms(2) insert(2,3) by (simp_all add: engine_inv_def)
  note ii = insert_idle [OF idle pL insert(6)]
  have "redo_page e (page_state (engine_pool s)) = (page_state (engine_pool s))(wal_page_id e :=
      (wal_lsn e, (snd (page_state (engine_pool s) (wal_page_id e)))(wal_row_id e \<mapsto> payload e)))"
    using insert(4) leD [of "wal_lsn e"] insert(5)
    by (cases "page_state (engine_pool s) (wal_page_id e)") (auto simp: redo_page_def redo_def entry_op_def)
  then have "\<forall>p \<in> L. page_state pool p = redo_page (log_entries s ! entries_made s) (page_state (engine_pool s)) p"
    using ii(2) insert(3) by simp
  from next_entry [OF insert(2) _ this] have "\<forall>p \<in> L. page_state pool p = redo_all (take (Suc (entries_made s)) (log_entries s)) st p"
    using assms(2) by (simp add: engine_inv_def)
  then show ?thesis using engine_quiet [OF assms(2) ii(1,4)] insert(2) unfolding insert(1) by simp
next
  case (insert_refused p k v lsn err pool)
  have "idle L (engine_pool s)" using assms(2) by (simp add: engine_inv_def)
  from engine_same [OF assms(2) insert_refused_idle [OF this insert_refused(2,3,4)]] show ?thesis unfolding insert_refused(1) .
next
  case (redo pool)
  have idle: "idle L (engine_pool s)" and pL: "wal_page_id (log_entries s ! entries_made s) \<in> L"
    using assms(2) redo(2) by (simp_all add: engine_inv_def)
  note re = replay_entry_spec [OF idle pL redo(3)]
  have "\<forall>p \<in> L. page_state pool p = redo_page (log_entries s ! entries_made s) (page_state (engine_pool s)) p" using re by simp
  from next_entry [OF redo(2) _ this] have "\<forall>p \<in> L. page_state pool p = redo_all (take (Suc (entries_made s)) (log_entries s)) st p"
    using assms(2) by (simp add: engine_inv_def)
  then show ?thesis using engine_quiet [OF assms(2) _ undisturbed_replay_entry [OF redo(3)]] re redo(2) unfolding redo(1) by simp
next
  case (redo_refused e err pool)
  have "idle L (engine_pool s)" using assms(2) by (simp add: engine_inv_def)
  from replay_entry_spec [OF this redo_refused(2,3)] undisturbed_replay_entry [OF redo_refused(3)]
  show ?thesis using engine_same [OF assms(2)] unfolding redo_refused(1) by simp
next
  case (search k root l r pool)
  have idle: "idle L (engine_pool s)" using assms(2) by (simp add: engine_inv_def)
  have "idle L pool \<and> (\<forall>q \<in> L. page_state pool q = page_state (engine_pool s) q) \<and> undisturbed (engine_pool s) pool"
    by (rule find_loop_idle [OF search(2) _ idle search(3)]) simp
  from engine_same [OF assms(2) this] show ?thesis unfolding search(1) .
next
  case (flush p r pool)
  have "idle L (engine_pool s)" using assms(2) by (simp add: engine_inv_def)
  from engine_same [OF assms(2) flush_page_idle [OF this flush(2)]] show ?thesis unfolding flush(1) .
next
  case (flush_all r pool)
  have idle: "idle L (engine_pool s)" using assms(2) by (simp add: engine_inv_def)
  note fi = flush_all_idle [OF idle flush_all(2)] and fd = flush_all_disturbs [OF flush_all(2)]
  show ?thesis
  proof (cases "r = Ok ()")
    case True
    have st: "\<forall>p \<in> L. page_state (engine_pool s) p = redo_all (take (entries_made s) (log_entries s)) st p"
      and w: "\<exists>w. pool_flusher (engine_pool s) = Some w \<and> log_tail w (log_entries s) (failed_batch s)"
      using assms(2) by (simp_all add: engine_inv_def)
    have "opens_to L (page_state (engine_pool s)) (durable (db_file (pool_disk pool)))"
      using checkpoint_opens [OF idle] flush_all(2) True by simp
    then have "reopens L st (log_entries s) (durable (db_file (pool_disk pool)))"
      using st unfolding reopens_def bears_def by blast
    then show ?thesis using assms(2) fi st same_logD [OF fd(1) w] unfolding flush_all(1) by (simp add: engine_inv_def)
  next
    case False
    then show ?thesis using engine_same [OF assms(2)] fd(2) fi unfolding flush_all(1) by simp
  qed
qed

lemma engine_steps_inv:
  "(engine_step L)\<^sup>*\<^sup>* s s' \<Longrightarrow> engine_inv L st s \<Longrightarrow> engine_inv L st s'"
  by (induction rule: rtranclp_induct) (auto intro: engine_step_inv)

text \<open>After a crash the files are in a state that restarts can recover from.\<close>

lemma engine_recoverable:
  assumes inv: "engine_inv L st s" and w: "pool_flusher (engine_pool s) = Some w"
    and lb: "prefix (durable (wal_file w)) lb" "prefix lb (content (wal_file w))"
  obtains j where "recoverable L st (log_entries s @ take j (failed_batch s)) (lb, durable (db_file (pool_disk (engine_pool s)))) lb"
    "\<forall>e \<in> set (log_entries s @ take j (failed_batch s)). wal_page_id e \<in> L"
proof -
  have "log_tail w (log_entries s) (failed_batch s)" using inv w by (auto simp: engine_inv_def)
  from log_tail_reads [OF this lb] obtain j where j: "reads_as lb (log_entries s @ take j (failed_batch s))" .
  have "reopens L st (log_entries s @ take j (failed_batch s)) (durable (db_file (pool_disk (engine_pool s))))"
    using inv reopens_log by (simp add: engine_inv_def)
  then show thesis using that [of j] j inv by (auto simp: recoverable_def engine_inv_def dest: in_set_takeD)
qed

end
