(* ===== verification/Durability.thy ===== *)
theory Durability
  imports Engine
begin

text \<open>
  Log, tree, pool, disk and recovery together: wherever a client that logs before it writes is
  cut off by a crash, recovery rebuilds every page from what was logged. And where this ends: a
  split is not logged, so that the log of an insertion that has split its page cannot be replayed.
\<close>

section \<open>A full page stays full\<close>

text \<open>An insertion that splits its page found it full.\<close>

lemma split_was_full:
  assumes inv: "pool_inv L a" and nl: "no_latch a" and p: "p \<in> L" and v: "pool_view a p = Some (Leaf l)"
    and run: "insert_leaf_pool flush p k w lsn a = (Ok (Some sr), b)"
    and n: "disk_form n = Leaf l" "node_wf n"
  obtains m where "n = Leaf m" "insert_record k w m = (Err PageFull, m)"
proof (cases rule: insert_enter [OF inv nl p v, where flush = flush])
  case (1 s)
  then show thesis using run by (metis Pair_inject)
next
  case (2 f s m)
  obtain m' where m': "insert_record k w m = (Err PageFull, m')"
    using run unfolding 2(1)
    by (cases "insert_record k w m"; cases "fst (insert_record k w m)") (auto simp: leaving_def split: if_splits)
  obtain j where j: "n = Leaf j" "slot_records l = slot_records j" by (rule disk_form_LeafD [OF n(1)])
  have "insert_record k w j = (Err PageFull, j)"
    by (rule insert_full_cong [OF 2(8) _ _ m']) (use j n(2) 2(12) in simp_all)
  then show thesis using that j(1) by blast
qed

lemma replay_entry_Err:
  assumes idle: "idle L a" and p: "wal_page_id e \<in> L"
    and n: "\<And>n. node_wf n \<Longrightarrow> pool_view a (wal_page_id e) = Some (disk_form n) \<Longrightarrow>
      \<not> wal_lsn e \<le> get_last_lsn n \<and> (\<exists>err. fst (apply_entry n e) = Err err)"
    and run: "replay_entry flush e a = (r, b)"
  shows "\<forall>x. r \<noteq> Ok x" "\<forall>q \<in> L. pool_view b q = pool_view a q"
proof -
  obtain r1 s where s: "fetch_page flush (wal_page_id e) a = (r1, s)" by fastforce
  have inv: "pool_inv L a" using idle by (simp add: idle_def)
  note fs = fetch_page_spec [OF inv p s]
  have view: "\<forall>q \<in> L. pool_view s q = pool_view a q" using fs by (simp add: keeps_def)
  have "(\<forall>x. r \<noteq> Ok x) \<and> (\<forall>q \<in> L. pool_view b q = pool_view a q)"
  proof (cases rule: fetch_idle [OF idle p s])
    case 1
    then have "(\<forall>x. r \<noteq> Ok x) \<and> b = s" using run s by (cases r1) (auto simp: replay_entry_def)
    then show ?thesis using view by simp
  next
    case (2 f)
    have pv: "pool_view a (wal_page_id e) = Some (disk_form (node_at f s))"
      using pool_view_mapped [OF 2(3)] view p by simp
    obtain err n' where ap: "apply_entry (node_at f s) e = (Err err, n')"
      using n [OF 2(4) pv] by (cases "apply_entry (node_at f s) e") auto
    have "n' = node_at f s" by (rule apply_entry_Err [OF 2(4) ap])
    moreover have "\<not> wal_lsn e \<le> get_last_lsn (node_at f s)" using n [OF 2(4) pv] by blast
    ultimately have "r = Err err" "b = release f (set_node f (node_at f s) (set_latch f True s))"
      using run s 2(1,5) ap by (simp_all add: replay_entry_def)
    moreover have "set_node f (node_at f s) (set_latch f True s) = set_latch f True s"
      using set_node_same [of f "set_latch f True s"] by simp
    ultimately show ?thesis using view by simp
  qed
  then show "\<forall>x. r \<noteq> Ok x" "\<forall>q \<in> L. pool_view b q = pool_view a q" by blast+
qed

text \<open>An \<open>init\<close> whose replay fails leaves the log as it was.\<close>

lemma recovery_init_failed:
  assumes log: "content f = batch_buffer es" "\<forall>e \<in> set es. entry_ok e" and ne: "es \<noteq> []"
    and rep: "replay flush es a = (r2, s2)" "\<forall>x. r2 \<noteq> Ok x" and run: "recovery_init flush (f, a) = (r, (f', b))"
  shows "(\<forall>x. r \<noteq> Ok x) \<and> content f' = content f \<and> b \<in> {a, s2}"
proof -
  obtain r0 f0 where f0: "io_call f = (r0, f0)" by fastforce
  have c0: "content f0 = content f" using io_call_frame [OF f0] by simp
  define w where "w = \<lparr>wal_file = f0, wal_sync = False, entry_count = 0, flushed_lsn = 0\<rparr>"
  have op: "wal_open f False = (and_then r0 (\<lambda>_. Ok w), f0)"
    using f0 by (cases r0) (simp_all add: wal_open_def w_def)
  show ?thesis
  proof (cases "r0 = Ok ()")
    case False
    then show ?thesis using run op c0 by (cases r0) (auto simp: recovery_init_def)
  next
    case True
    obtain r1 w1 where w1: "read_batch w = (r1, w1)" by fastforce
    have h: "log_holds w es" using log c0 by (simp add: log_holds_def w_def)
    have c1: "content (wal_file w1) = content f" using read_batch_file(1) [OF w1] c0 by (simp add: w_def)
    have r1: "r1 = Ok es" if "r1 = Ok xs" for xs using read_batch_holds(2) [OF h] w1 that by auto
    obtain w' where rec: "recover flush (w, a) = (r, (w', b))" and f': "f' = wal_file w'"
      using run op True by (auto simp: recovery_init_def split: prod.splits)
    have "(\<forall>x. r \<noteq> Ok x) \<and> w' = w1 \<and> b \<in> {a, s2}"
      using rec w1 r1 ne rep by (cases r1; cases r2) (auto simp: recover_def on_fst_def on_snd_def)
    then show ?thesis using c1 f' by simp
  qed
qed

section \<open>Properties\<close>

text \<open>
  C1:
  Durability, end to end, for a client that keeps the write-ahead discipline on a fixed set of
  pages. Start from a checkpoint with an empty synced log, and let the client run: batches are
  logged, the entries logged are made on the pages in order, by \<open>insert_leaf\<close> or as in a replay, with
  searches, evictions and flushes in between; any call may fail, and once an append has failed, the
  client logs no more. Insertions that split a page, and new pages, are not among its steps (they
  are not logged). Let the numbers of the entries ascend from those of the pages. Let the machine
  crash at any moment: the database falls back to its last \<open>fsync\<close>, the log to any length between
  its last \<open>fsync\<close> and what was written. Let recovery be started any number of times, and each
  start fail anywhere and be followed by a crash. Then there is a number \<open>j\<close> such that, at any time,
  either the log is still there and reads as the entries logged and the first \<open>j\<close> of the refused
  batch, or the database is durable with the effects of all of these. And when a start answers \<open>Ok\<close>,
  every page has the effects of all of them, each once and in order, in memory and durably. Up to
  the crash the pages had the effects of the entries made so far.
\<close>

theorem engine_survives_crash:
  assumes "idle L p0" "flush_all_pages flush0 p0 = (Ok (), p1)" "pool_flusher p1 = Some w0"
    and "wal_sync w0" "content (wal_file w0) = []" "durable (wal_file w0) = []"
    and "(engine_step L)\<^sup>*\<^sup>* (engine_start p1) s" "ascending (log_entries s @ failed_batch s) (page_state p0)"
    and "pool_flusher (engine_pool s) = Some w" "prefix (durable (wal_file w)) lb" "prefix lb (content (wal_file w))"
    and "restarts (lb, durable (db_file (pool_disk (engine_pool s)))) y" "restart y r q z"
  shows "(\<forall>p \<in> L. page_state (engine_pool s) p = made (take (entries_made s) (log_entries s)) (page_state p0) p) \<and>
    (\<exists>j. (fst y = lb \<and> reads_as lb (log_entries s @ take j (failed_batch s)) \<or>
          opens_to L (made (log_entries s @ take j (failed_batch s)) (page_state p0)) (snd y)) \<and>
      (\<forall>mx. r = Ok mx \<longrightarrow> (\<forall>p \<in> L. page_state q p = made (log_entries s @ take j (failed_batch s)) (page_state p0) p) \<and>
        opens_to L (made (log_entries s @ take j (failed_batch s)) (page_state p0)) (snd z)))"
proof -
  let ?st = "page_state p0"
  have "engine_inv L ?st (engine_start p1)"
    using flush_all_idle [OF assms(1,2)] reopens_start [OF checkpoint_opens [OF assms(1,2)]] assms(3-6)
    by (simp add: engine_inv_def engine_start_def log_tail_def)
  from engine_steps_inv [OF assms(7) this] have inv: "engine_inv L ?st s" .
  obtain j where rc: "recoverable L ?st (log_entries s @ take j (failed_batch s)) (lb, durable (db_file (pool_disk (engine_pool s)))) lb"
    and ids: "\<forall>e \<in> set (log_entries s @ take j (failed_batch s)). wal_page_id e \<in> L"
    by (rule engine_recoverable [OF inv assms(9-11)])
  let ?es = "log_entries s @ take j (failed_batch s)"
  have "ascending ?es ?st" using ascending_take [OF assms(8), of "length (log_entries s) + j"] by simp
  then have m: "\<forall>p \<in> L. redo_all ?es ?st p = made ?es ?st p" using redo_all_made by blast
  have rc': "recoverable L ?st ?es y lb" by (rule restarts_recoverable [OF assms(12) ids rc])
  then have "fst y = lb \<and> reads_as lb ?es \<or> opens_to L (made ?es ?st) (snd y)"
    using opens_to_cong [OF _ m] by (auto simp: recoverable_def)
  moreover have "(\<forall>p \<in> L. page_state q p = made ?es ?st p) \<and> opens_to L (made ?es ?st) (snd z)" if "r = Ok mx" for mx
    using restart_recoverable(2) [OF ids rc' assms(13) that] opens_to_cong [OF _ m] m by simp
  moreover have "page_state (engine_pool s) p = made (take (entries_made s) (log_entries s)) ?st p" if "p \<in> L" for p
    using inv that redo_all_made [OF ascending_take [OF ascending_append [OF assms(8)]]] by (simp add: engine_inv_def)
  ultimately show ?thesis by blast
qed

theorem engine_survives_crash_witness:
  "\<exists>s w y q z. (engine_step {4096})\<^sup>*\<^sup>* s w \<and> entries_made s = 0 \<and> entries_made w = 1 \<and> log_entries w = [sample_entry 7] \<and>
     restarts (batch_buffer [sample_entry 7], durable (db_file (pool_disk (engine_pool w)))) y \<and> restart y (Ok 7) q z \<and>
     page_state q 4096 = made [sample_entry 7] (page_state released_pool) 4096"
proof -
  let ?es = "[sample_entry 7]"
  obtain p1 w0 where p1: "flush_all_pages flush_upto released_pool = (Ok (), p1)" "reliable p1" "pool_flusher p1 = Some w0"
    "wal_sync w0" "content (wal_file w0) = []" "durable (wal_file w0) = []" by (rule checkpointed)
  have io: "io_plan (wal_file w0) = []" using p1(2,3) by (simp add: reliable_def)
  have ne: "?es \<noteq> []" by simp
  obtain w1 where w1: "write_batch ?es w0 = (Ok (), w1)"
    using write_batch_reliable [OF io ne] by auto
  note c1 = write_batch_content [OF w1]
  have ok: "\<forall>e \<in> set ?es. entry_ok e \<and> wal_page_id e \<in> {4096}"
    by (simp add: sample_entry_def entry_ok_def wal_size_def size_consts)
  let ?s0 = "engine_start p1"
  let ?a = "p1\<lparr>pool_flusher := Some w1\<rparr>"
  let ?s1 = "\<lparr>engine_pool = ?a, log_entries = ?es, failed_batch = [], entries_made = 0\<rparr>"
  have 1: "engine_step {4096} ?s0 ?s1"
    using engine_step.log [of ?s0 w0 ?es w1 "{4096}"] p1(3) w1 ok by (simp add: engine_start_def)
  \<comment> \<open>the insertion\<close>
  note fi = flush_all_idle [OF released_idle p1(1)]
  have idle1: "idle {4096} p1" using fi by simp
  have idle: "idle {4096} ?a" using idle1 by (simp add: idle_def alone_def no_latch_def pool_inv_flusher(1))
  note fa = flush_all_pages_spec [OF released_pool(1) p1(1)]
  have m: "map_of (page_table ?a) 4096 = Some 0" and sh: "same_shape released_pool p1"
    using fa released_pool(2) by (simp_all add: same_shape_def)
  have n0: "node_at 0 released_pool = mark_dirty 3 (new_empty 4096 True)" using released_pool(4) by (simp add: node_at_def)
  have n1: "node_at 0 ?a \<in> {node_at 0 released_pool, clear_dirty (node_at 0 released_pool)}"
    using sh by (simp add: same_shape_def)
  then obtain l where l: "node_at 0 ?a = Leaf l" "slot_array l = []" "last_lsn l = 3"
    unfolding n0 by (auto simp: new_empty_def leaf_default_def)
  have inva: "pool_inv {4096} ?a" and nla: "no_latch ?a" using idle by (simp_all add: idle_def)
  have wfl: "leaf_wf l" using inva map_of_SomeD [OF m] l(1) by (fastforce simp: pool_inv_def contents_ok_def)
  obtain l2 where l2: "insert_record 1 [1, 2, 3] l = (Ok (), l2)" by (rule sample_insert [OF wfl l(2)])
  obtain b where b: "insert_leaf_pool flush_upto 4096 1 [1, 2, 3] 7 ?a = (Ok None, b)"
    by (rule insert_cached [OF inva nla m l(1), where flush = flush_upto]) (use l2 that in \<open>simp add: leaving_def\<close>)
  let ?s2 = "\<lparr>engine_pool = b, log_entries = ?es, failed_batch = [], entries_made = 1\<rparr>"
  have "page_state ?a 4096 = node_state (node_at 0 ?a)" by (rule page_state_mapped [OF m])
  then have "fst (page_state ?a 4096) < 7" using l(1,3) by (simp add: node_state_def)
  then have 2: "engine_step {4096} ?s1 ?s2"
    using engine_step.insert [of ?s1 "sample_entry 7" b "{4096}"] b by (simp add: sample_entry_def)
  have run: "(engine_step {4096})\<^sup>*\<^sup>* ?s0 ?s2" using 1 2 by (rule converse_rtranclp_into_rtranclp [OF _ r_into_rtranclp])
  \<comment> \<open>the crash, and two starts\<close>
  have u: "undisturbed ?a b" by (rule insert_idle(4) [OF idle _ b]) simp
  then obtain w where w: "pool_flusher b = Some w" "durable (wal_file w) = batch_buffer ?es" "content (wal_file w) = batch_buffer ?es"
    using c1 p1(4-6) unfolding undisturbed_def same_log_def by fastforce
  let ?z = "(batch_buffer ?es, durable (db_file (pool_disk b)))"
  have z: "?z = (batch_buffer ?es, durable (db_file (pool_disk p1)))" using u by (simp add: undisturbed_def)
  obtain r1 q1 q y where st: "restart ?z (Err r1) q1 ?z" "restart ?z (Ok 7) q y"
    by (rule sample_restarts [OF p1(1) z])
  have rs: "restarts ?z ?z" by (rule restarts.again [OF restarts.none st(1)])
  have "page_state released_pool 4096 = node_state (node_at 0 released_pool)" by (rule page_state_mapped [OF released_pool(2)])
  then have "fst (page_state released_pool 4096) = 3" unfolding n0 by (simp del: mark_dirty.simps)
  then have asc: "ascending (log_entries ?s2 @ failed_batch ?s2) (page_state released_pool)"
    by (simp add: ascending_def sample_entry_def)
  have at: "pool_flusher (engine_pool ?s2) = Some w" "prefix (durable (wal_file w)) (batch_buffer ?es)"
    "prefix (batch_buffer ?es) (content (wal_file w))" "restarts (batch_buffer ?es, durable (db_file (pool_disk (engine_pool ?s2)))) ?z"
    using w rs by simp_all
  have "page_state q 4096 = made ?es (page_state released_pool) 4096"
    using engine_survives_crash [OF released_idle p1(1,3-6) run asc at st(2)] by simp
  moreover have "entries_made ?s0 = 0" "entries_made ?s2 = 1" "log_entries ?s2 = ?es" "engine_pool ?s2 = b" by (simp_all add: engine_start_def)
  ultimately show ?thesis using run rs st(2) by metis
qed

text \<open>
  C22:
  A split is not logged, so it cannot be recovered. Let \<open>insert_leaf\<close> answer a split, with its
  insertion logged, and let the machine crash before the two halves are on disk, while the page
  is still the one before the split. Then \<open>init\<close> never answers \<open>Ok\<close>, whatever the devices do: the
  replay of the insertion finds the page full. Log and pages are left as they are, so that every
  later start fails in the same way.
\<close>

theorem logged_split_blocks_recovery:
  assumes "pool_inv L (buffer_pool t)" "no_latch (buffer_pool t)" "wal_page_id e \<in> L"
    and "pool_view (buffer_pool t) (wal_page_id e) = Some (Leaf l)" "last_lsn l < wal_lsn e" "opcode e = Insert"
    and "insert_leaf flush0 (wal_page_id e) (wal_row_id e) (payload e) (wal_lsn e) t = (Ok (Some sr), t')"
    and "content f = batch_buffer (e # es)" "\<forall>x \<in> set (e # es). entry_ok x"
    and "idle L q" "pool_view q (wal_page_id e) = Some (Leaf l)"
    and "recovery_init flush (f, q) = (r, (f', q'))"
  shows "(\<forall>x. r \<noteq> Ok x) \<and> content f' = content f \<and> (\<forall>p \<in> L. pool_view q' p = pool_view q p)"
proof -
  have run: "insert_leaf_pool flush0 (wal_page_id e) (wal_row_id e) (payload e) (wal_lsn e) (buffer_pool t) =
      (Ok (Some sr), buffer_pool t')" using insert_leaf_run [OF assms(7)] by simp
  have full: "\<not> wal_lsn e \<le> get_last_lsn n \<and> (\<exists>err. fst (apply_entry n e) = Err err)"
    if n: "node_wf n" "pool_view q (wal_page_id e) = Some (disk_form n)" for n
  proof -
    have form: "disk_form n = Leaf l" using n(2) assms(11) by simp
    obtain m where m: "n = Leaf m" "insert_record (wal_row_id e) (payload e) m = (Err PageFull, m)"
      by (rule split_was_full [OF assms(1-4) run form n(1)])
    obtain j where j: "n = Leaf j" "links l = links j" by (rule disk_form_LeafD [OF form])
    have "get_last_lsn n = last_lsn l" using j by (simp add: links_def)
    then show ?thesis using m assms(5,6) by (simp add: apply_entry_def not_le)
  qed
  obtain r1 s1 where s1: "replay_entry flush e q = (r1, s1)" by fastforce
  note re = replay_entry_Err [OF assms(10,3) full s1]
  have rep: "replay flush (e # es) q = (and_then r1 (\<lambda>_. Ok 0), s1)"
    using s1 re(1) by (cases r1) (simp_all add: replay_def)
  moreover have "\<forall>x. and_then r1 (\<lambda>_. Ok (0 :: u64)) \<noteq> Ok x" using re(1) by (cases r1) auto
  ultimately have "(\<forall>x. r \<noteq> Ok x) \<and> content f' = content f \<and> q' \<in> {q, s1}"
    using recovery_init_failed [OF assms(8,9) _ _ _ assms(12)] by blast
  then show ?thesis using re(2) by auto
qed

definition split_entry :: wal_entry where
  "split_entry = \<lparr>opcode = Insert, wal_lsn = 7, wal_page_id = 4096, wal_row_id = 10, payload = replicate 400 0\<rparr>"

theorem logged_split_blocks_recovery_witness:
  "\<exists>q r f' q'. recovery_init flush_upto (new_file\<lparr>content := batch_buffer [split_entry]\<rparr>, q) = (r, (f', q')) \<and>
     (\<forall>x. r \<noteq> Ok x) \<and> content f' = batch_buffer [split_entry] \<and> pool_view q' 4096 = pool_view q 4096"
proof -
  obtain t sr t' l where s: "pool_inv {4096} (buffer_pool t)" "alloc_ok {4096} (buffer_pool t)" "no_latch (buffer_pool t)"
    "pool_view (buffer_pool t) 4096 = Some (Leaf l)" "leaf_fits l" "\<not> has_next l" "last_lsn l = 0" "alone (buffer_pool t)"
    "insert_leaf flush_upto 4096 10 (replicate 400 0) 7 t = (Ok (Some sr), t')" "promoted_row_id sr = 5"
    by (rule sample_split)
  have e: "wal_page_id split_entry = 4096" "wal_row_id split_entry = 10" "payload split_entry = replicate 400 0"
    "wal_lsn split_entry = 7" "opcode split_entry = Insert" by (simp_all add: split_entry_def)
  have idle: "idle {4096} (buffer_pool t)" using s(1,3,8) by (simp add: idle_def)
  define f where "f = new_file\<lparr>content := batch_buffer [split_entry]\<rparr>"
  have f: "content f = batch_buffer [split_entry]" by (simp add: f_def del: batch_buffer.simps)
  have ok: "\<forall>x \<in> set [split_entry]. entry_ok x"
    by (simp add: entry_ok_def wal_size_def e(3) size_consts)
  obtain r f' q' where run: "recovery_init flush_upto (f, buffer_pool t) = (r, (f', q'))" by (metis surj_pair)
  have pL: "wal_page_id split_entry \<in> {4096}" "last_lsn l < wal_lsn split_entry" using e s(7) by simp_all
  note lb = logged_split_blocks_recovery [OF s(1,3) pL(1) s(4) [folded e(1)] pL(2) e(5) s(9) [folded e(1-4)] f ok idle
      s(4) [folded e(1)] run]
  have "\<forall>x. r \<noteq> Ok x" "content f' = batch_buffer [split_entry]" "pool_view q' 4096 = pool_view (buffer_pool t) 4096"
    using lb f by (simp_all del: batch_buffer.simps)
  with run show ?thesis unfolding f_def by blast
qed

end
