(* ===== verification/Flusher.thy ===== *)
theory Flusher
  imports Recovery_Spec
begin

text \<open>
  \<open>BackgroundFlusher\<close> of \<open>src/storage/flusher.rs\<close>: a thread that flushes the shared pool at
  intervals and once more when it is told to stop, and the thread of the storage engine that
  owns it. The pool is behind a mutex: what is done under the lock is one step, and which
  thread moves next is open. Time is not modelled: a wait may run into its timeout whenever the
  channel is empty and its sender is alive.
\<close>

datatype owner = Foreground | Background

text \<open>
  Where the background thread is: in \<open>recv_timeout\<close>, at the lock for a periodic flush, at the lock
  for the final flush, at its end, dead of a panic, or stuck in a flush while it holds the lock.
\<close>

datatype background = Receiving | Flushing | Final_Flush | Finished | Panicked | Stuck

datatype foreground = Running | Joining

record 'w system =
  shared_pool :: "'w buffer_pool"
  pool_lock :: "owner option"
  signals :: nat
  shutdown_tx :: bool
  handle :: bool
  bg :: background
  fg :: foreground

definition flusher_start :: "'w buffer_pool \<Rightarrow> 'w system" where
  "flusher_start pool = \<lparr>shared_pool = pool, pool_lock = None, signals = 0, shutdown_tx = True,
     handle = True, bg = Receiving, fg = Running\<rparr>"

text \<open>The answer of \<open>recv_timeout\<close>, when there is one that does not depend on the clock.\<close>

definition recv_timeout :: "'w system \<Rightarrow> 'w system" where
  "recv_timeout s =
     (if 0 < signals s then s\<lparr>signals := signals s - 1, bg := Final_Flush\<rparr>
      else if \<not> shutdown_tx s then s\<lparr>bg := Final_Flush\<rparr>
      else s\<lparr>bg := Flushing\<rparr>)"

text \<open>A flush under the lock; its error is printed and forgotten.\<close>

definition background_flush :: "'w flush_fn \<Rightarrow> background \<Rightarrow> 'w system \<Rightarrow> 'w system" where
  "background_flush flush next_state s =
     (case flush_all_pages flush (shared_pool s) of
        (Ok _, pool) \<Rightarrow> s\<lparr>shared_pool := pool, bg := next_state\<rparr>
      | (Err _, pool) \<Rightarrow> s\<lparr>shared_pool := pool, bg := next_state\<rparr>
      | (Panic _, pool) \<Rightarrow> s\<lparr>shared_pool := pool, bg := Panicked\<rparr>
      | (Hang, pool) \<Rightarrow> s\<lparr>shared_pool := pool, pool_lock := Some Background, bg := Stuck\<rparr>)"

text \<open>The first half of \<open>shutdown\<close>: the sender is taken, used and dropped.\<close>

definition request_shutdown :: "'w system \<Rightarrow> 'w system" where
  "request_shutdown s =
     (if shutdown_tx s then s\<lparr>signals := signals s + 1, shutdown_tx := False, fg := Joining\<rparr>
      else s\<lparr>fg := Joining\<rparr>)"

text \<open>The steps of the two threads. \<open>drop\<close> of the flusher is a call of \<open>shutdown\<close>.\<close>

inductive sys_step :: "'w flush_fn \<Rightarrow> 'w system \<Rightarrow> 'w system \<Rightarrow> bool" for flush where
  wake: "bg s = Receiving \<Longrightarrow> sys_step flush s (recv_timeout s)"
| periodic: "bg s = Flushing \<Longrightarrow> pool_lock s = None \<Longrightarrow> sys_step flush s (background_flush flush Receiving s)"
| final: "bg s = Final_Flush \<Longrightarrow> pool_lock s = None \<Longrightarrow> sys_step flush s (background_flush flush Finished s)"
| lock: "fg s = Running \<Longrightarrow> pool_lock s = None \<Longrightarrow> sys_step flush s (s\<lparr>pool_lock := Some Foreground\<rparr>)"
| call: "fg s = Running \<Longrightarrow> pool_lock s = Some Foreground \<Longrightarrow>
    sys_step flush s (s\<lparr>shared_pool := snd (pool_call_run flush c (shared_pool s))\<rparr>)"
| unlock: "fg s = Running \<Longrightarrow> pool_lock s = Some Foreground \<Longrightarrow> sys_step flush s (s\<lparr>pool_lock := None\<rparr>)"
| shutdown: "fg s = Running \<Longrightarrow> sys_step flush s (request_shutdown s)"
| join: "fg s = Joining \<Longrightarrow> handle s \<Longrightarrow> bg s = Finished \<or> bg s = Panicked \<Longrightarrow>
    sys_step flush s (s\<lparr>handle := False, fg := Running\<rparr>)"
| no_handle: "fg s = Joining \<Longrightarrow> \<not> handle s \<Longrightarrow> sys_step flush s (s\<lparr>fg := Running\<rparr>)"

inductive_cases sys_stepE: "sys_step flush s s'"

definition sys_reach :: "'w flush_fn \<Rightarrow> 'w system \<Rightarrow> 'w system \<Rightarrow> bool" where
  "sys_reach flush = (sys_step flush)\<^sup>*\<^sup>*"

end
