(* ===== verification/Flusher_Props.thy ===== *)
theory Flusher_Props
  imports Flusher Recovery_Props
begin

text \<open>
  The properties of the background flusher: when the thread ends, what a returned \<open>shutdown\<close>
  stands for, and when it does not return.
\<close>

section \<open>The lifecycle\<close>

text \<open>
  The thread leaves its loop only after the shutdown was requested; while the foreground waits,
  it runs nothing else, so that what the final flush left behind is still there.
\<close>

definition last_flush :: "'w flush_fn \<Rightarrow> 'w system \<Rightarrow> 'w system \<Rightarrow> bool" where
  "last_flush flush start s \<longleftrightarrow> (\<exists>t r. sys_reach flush start t \<and> bg t = Final_Flush \<and> pool_lock t = None \<and>
     \<not> shutdown_tx t \<and> fg t = Joining \<and> sys_reach flush (background_flush flush Finished t) s \<and>
     flush_all_pages flush (shared_pool t) = (r, shared_pool s) \<and> returns r)"

definition lifecycle :: "'w flush_fn \<Rightarrow> 'w system \<Rightarrow> 'w system \<Rightarrow> bool" where
  "lifecycle flush start s \<longleftrightarrow>
     (bg s = Final_Flush \<or> bg s = Finished \<or> fg s = Joining \<longrightarrow> \<not> shutdown_tx s) \<and>
     (shutdown_tx s \<longrightarrow> signals s = 0 \<and> handle s) \<and>
     (\<not> shutdown_tx s \<and> handle s \<longrightarrow> fg s = Joining) \<and>
     (\<not> handle s \<longrightarrow> bg s = Finished \<or> bg s = Panicked) \<and>
     (bg s = Finished \<and> handle s \<longrightarrow> last_flush flush start s) \<and>
     (bg s = Stuck \<longrightarrow> pool_lock s = Some Background) \<and>
     (pool_lock s = Some Background \<longrightarrow> bg s = Stuck)"

lemma sys_reach_snoc: "sys_reach flush s t \<Longrightarrow> sys_step flush t u \<Longrightarrow> sys_reach flush s u"
  unfolding sys_reach_def by (rule rtranclp.rtrancl_into_rtrancl)

lemma last_flush_step:
  "last_flush flush start s \<Longrightarrow> sys_step flush s s' \<Longrightarrow> shared_pool s' = shared_pool s \<Longrightarrow> last_flush flush start s'"
  unfolding last_flush_def using sys_reach_snoc by metis

lemma flush_stage:
  obtains (returned) pool r where "background_flush flush st s = s\<lparr>shared_pool := pool, bg := st\<rparr>"
      "flush_all_pages flush (shared_pool s) = (r, pool)" "returns r"
  | (panicked) pool where "background_flush flush st s = s\<lparr>shared_pool := pool, bg := Panicked\<rparr>"
  | (stuck) pool where "background_flush flush st s = s\<lparr>shared_pool := pool, pool_lock := Some Background, bg := Stuck\<rparr>"
      "flush_all_pages flush (shared_pool s) = (Hang, pool)"
proof -
  obtain r pool where f: "flush_all_pages flush (shared_pool s) = (r, pool)" by fastforce
  then show thesis
    by (cases r) (use returned [of pool r] panicked [of pool] stuck [of pool] in \<open>simp_all add: background_flush_def\<close>)
qed

lemma lifecycle_step:
  assumes "lifecycle flush start s" "sys_reach flush start s" "sys_step flush s s'"
  shows "lifecycle flush start s'"
  using assms(3)
proof (cases rule: sys_step.cases)
  case wake
  then show ?thesis using assms(1) by (auto simp: lifecycle_def recv_timeout_def)
next
  case periodic
  show ?thesis
    by (cases rule: flush_stage [of flush Receiving s]) (use periodic assms(1) in \<open>auto simp: lifecycle_def\<close>)
next
  case final
  show ?thesis
  proof (cases rule: flush_stage [of flush Finished s])
    case (returned pool r)
    have "\<not> shutdown_tx s" "fg s = Joining" using assms(1) final(2) by (auto simp: lifecycle_def)
    moreover have "sys_reach flush (background_flush flush Finished s) s'" by (simp add: final(1) sys_reach_def)
    ultimately have "last_flush flush start s'"
      unfolding last_flush_def using returned assms(2) final
      by (intro exI [of _ s] exI [of _ r]) simp
    then show ?thesis using final returned(1) assms(1) by (auto simp: lifecycle_def)
  qed (use final assms(1) in \<open>auto simp: lifecycle_def\<close>)
next
  case shutdown
  moreover have "shared_pool (request_shutdown s) = shared_pool s" by (simp add: request_shutdown_def)
  ultimately show ?thesis using assms(1) last_flush_step [OF _ assms(3)]
    by (auto simp: lifecycle_def request_shutdown_def)
next
  case (call c)
  then show ?thesis using assms(1) by (auto simp: lifecycle_def)
qed (use assms(1) last_flush_step [OF _ assms(3)] in \<open>auto simp: lifecycle_def\<close>)

lemma lifecycle_reach:
  assumes "sys_reach flush (flusher_start pool) s"
  shows "lifecycle flush (flusher_start pool) s"
  using assms unfolding sys_reach_def
proof (induction rule: rtranclp_induct)
  case base
  then show ?case by (simp add: lifecycle_def flusher_start_def)
next
  case (step t u)
  then show ?case using lifecycle_step unfolding sys_reach_def by blast
qed

section \<open>The pages\<close>

text \<open>The pool keeps its invariant whatever the two threads do; its pages are those that the calls made.\<close>

definition shared_ok :: "page_id set \<Rightarrow> 'w system \<Rightarrow> bool" where
  "shared_ok L s \<longleftrightarrow> pool_inv L (shared_pool s) \<and> alloc_ok L (shared_pool s)"

lemma flush_shared:
  assumes "shared_ok L s" "flush_all_pages flush (shared_pool s) = (r, pool)"
  shows "pool_inv L pool \<and> alloc_ok L pool \<and> keeps L (shared_pool s) pool"
  using flush_all_pages_spec [of L "shared_pool s" flush r pool] flush_all_header [OF assms(2)] assms
  by (simp add: shared_ok_def alloc_ok_def)

lemma flush_all_states:
  assumes "flush_all_pages flush before = (Ok (), pool)" "pool_inv L before" "alone before"
  shows "(\<forall>p \<in> L. page_state pool p = page_state before p) \<and> saved L (page_state before) (pool_disk pool)"
proof
  have "keeps L before pool" using flush_all_pages_spec [OF assms(2,1)] by simp
  then show "\<forall>p \<in> L. page_state pool p = page_state before p" using keeps_page_state by blast
  show "saved L (page_state before) (pool_disk pool)" by (rule flush_all_saved [OF assms(2,1,3)]) simp
qed

section \<open>Coming back\<close>

lemma sys_reach_step: "sys_step flush s t \<Longrightarrow> sys_reach flush t u \<Longrightarrow> sys_reach flush s u"
  unfolding sys_reach_def by (rule converse_rtranclp_into_rtranclp)

lemma sys_reach_refl: "sys_reach flush s s"
  by (simp add: sys_reach_def)

lemma flush_idle:
  assumes "idle L (shared_pool s)" "calm flush"
  obtains pool where "background_flush flush st s = s\<lparr>shared_pool := pool, bg := st\<rparr>" "idle L pool"
proof -
  obtain r pool where f: "flush_all_pages flush (shared_pool s) = (r, pool)" by fastforce
  have inv: "pool_inv L (shared_pool s)" and al: "alone (shared_pool s)" and nl: "no_latch (shared_pool s)"
    using assms(1) by (simp_all add: idle_def)
  have "returns r" using flush_all_returns [OF assms] f by (metis fst_conv)
  then have b: "background_flush flush st s = s\<lparr>shared_pool := pool, bg := st\<rparr>"
    using f by (cases r) (simp_all add: background_flush_def)
  note fa = flush_all_pages_spec [OF inv f]
  have sh: "same_shape (shared_pool s) pool" using fa by simp
  have "idle L pool"
    using fa al nl sh same_shape_latches [OF sh] by (simp add: idle_def alone_def no_latch_def same_shape_def)
  with b show thesis by (rule that)
qed

text \<open>From the top of the loop, once the shutdown is requested.\<close>

lemma receiving_returns:
  assumes "bg s = Receiving" "\<not> shutdown_tx s" "pool_lock s = None" "fg s = Joining" "handle s"
    and "idle L (shared_pool s)" "calm flush"
  shows "\<exists>s'. sys_reach flush s s' \<and> fg s' = Running"
proof -
  have 1: "sys_step flush s (recv_timeout s)" by (rule sys_step.wake [OF assms(1)])
  let ?t = "recv_timeout s"
  have t: "bg ?t = Final_Flush" "pool_lock ?t = None" "fg ?t = Joining" "handle ?t" "shared_pool ?t = shared_pool s"
    using assms(2-5) by (simp_all add: recv_timeout_def)
  obtain pool where b: "background_flush flush Finished ?t = ?t\<lparr>shared_pool := pool, bg := Finished\<rparr>"
    by (rule flush_idle [of L ?t flush]) (use assms(6,7) t(5) in simp_all)
  let ?u = "?t\<lparr>shared_pool := pool, bg := Finished\<rparr>"
  have 2: "sys_step flush ?t ?u" using sys_step.final [OF t(1,2), of flush] b by simp
  have 3: "sys_step flush ?u (?u\<lparr>handle := False, fg := Running\<rparr>)"
    by (rule sys_step.join) (use t in simp_all)
  have "sys_reach flush s (?u\<lparr>handle := False, fg := Running\<rparr>)"
    by (rule sys_reach_step [OF 1 sys_reach_step [OF 2 sys_reach_step [OF 3 sys_reach_refl]]])
  then show ?thesis by (intro exI conjI) (assumption, simp)
qed

section \<open>Properties\<close>

text \<open>
  The background thread is invisible to readers. A flush by the thread, whatever the devices do and
  whatever it answers, keeps the invariant of the shared pool, and no page changes its contents.
\<close>

theorem background_flush_transparent:
  assumes "shared_ok L s"
  shows "shared_ok L (background_flush flush st s) \<and>
    (\<forall>p \<in> L. pool_view (shared_pool (background_flush flush st s)) p = pool_view (shared_pool s) p)"
proof -
  obtain r pool where f: "flush_all_pages flush (shared_pool s) = (r, pool)" by fastforce
  have "shared_pool (background_flush flush st s) = pool"
    using f by (cases r) (simp_all add: background_flush_def)
  then show ?thesis using flush_shared [OF assms f] by (simp add: shared_ok_def keeps_def)
qed

theorem background_flush_transparent_witness:
  "pool_view (shared_pool (background_flush flush_upto Receiving (flusher_start sample_page_pool))) 4096 =
     pool_view sample_page_pool 4096"
proof -
  have "shared_ok {4096} (flusher_start sample_page_pool)"
    using sample_page(2,3) by (simp add: shared_ok_def flusher_start_def)
  from background_flush_transparent [OF this, of flush_upto Receiving] show ?thesis
    by (simp add: flusher_start_def)
qed

text \<open>The sample pool again: a flush that succeeds, and a run of the two threads to the end.\<close>

lemma sample_shutdown:
  obtains s s' where "sys_reach flush_upto (flusher_start released_pool) s" "sys_step flush_upto s s'"
    "fg s = Joining" "handle s" "fg s' = Running" "bg s' = Finished"
proof -
  have inv: "pool_inv {4096} released_pool" and al: "alone released_pool"
    using released_idle by (simp_all add: idle_def)
  have un: "\<forall>p f. map_of (page_table released_pool) p = Some f \<longrightarrow> \<not> write_latched (heap released_pool ! f)"
    using alone_unlatched [OF inv al] by blast
  have fits: "\<forall>p f. map_of (page_table released_pool) p = Some f \<longrightarrow> node_fits (node_at f released_pool)"
    using released_pool(3,4) new_empty_fits by (fastforce simp: node_at_def)
  obtain pool where f: "flush_all_pages flush_upto released_pool = (Ok (), pool)"
    by (rule flush_all_reliable [OF inv released_reliable _ un fits]) (simp_all add: size_consts)
  let ?a = "request_shutdown (flusher_start released_pool)"
  let ?b = "recv_timeout ?a" and ?c = "background_flush flush_upto Finished (recv_timeout ?a)"
  have 1: "sys_step flush_upto (flusher_start released_pool) ?a"
    by (rule sys_step.shutdown) (simp add: flusher_start_def)
  have 2: "sys_step flush_upto ?a ?b" by (rule sys_step.wake) (simp add: flusher_start_def request_shutdown_def)
  have 3: "sys_step flush_upto ?b ?c"
    by (rule sys_step.final) (simp_all add: flusher_start_def request_shutdown_def recv_timeout_def)
  have c: "fg ?c = Joining" "handle ?c" "bg ?c = Finished"
    using f by (simp_all add: background_flush_def flusher_start_def request_shutdown_def recv_timeout_def)
  have 4: "sys_step flush_upto ?c (?c\<lparr>handle := False, fg := Running\<rparr>)"
    by (rule sys_step.join) (use c in simp_all)
  have "sys_reach flush_upto (flusher_start released_pool) ?c"
    by (rule sys_reach_step [OF 1 sys_reach_step [OF 2 sys_reach_step [OF 3 sys_reach_refl]]])
  from that [OF this 4] c show thesis by simp
qed

text \<open>
  C20:
  What a returned \<open>shutdown\<close> stands for. Whenever the engine, from any state that the two threads
  can reach, comes back from waiting for the thread, the thread has ended, and it ended by a panic
  or with a final flush: in the run that led here there was a moment at which the shutdown had been
  requested, the engine was waiting, and the thread flushed all pages of the pool as it was then;
  and the pool that \<open>shutdown\<close> returns to is the one that this flush left behind, so that nothing
  was done to it since. If the flush succeeded on a pool whose frames nobody held, every page
  has kept its contents and survives a crash. The caller does not learn the result of the flush.
\<close>

theorem shutdown_after_final_flush:
  assumes "sys_reach flush (flusher_start pool) s" "sys_step flush s s'" "fg s = Joining" "handle s" "fg s' = Running"
  shows "bg s' = Panicked \<or> bg s' = Finished \<and>
    (\<exists>t r. sys_reach flush (flusher_start pool) t \<and> bg t = Final_Flush \<and> pool_lock t = None \<and> \<not> shutdown_tx t \<and>
      fg t = Joining \<and> sys_reach flush (background_flush flush Finished t) s \<and>
      flush_all_pages flush (shared_pool t) = (r, shared_pool s') \<and> returns r \<and>
      (r = Ok () \<and> pool_inv L (shared_pool t) \<and> alone (shared_pool t) \<longrightarrow>
        (\<forall>p \<in> L. page_state (shared_pool s') p = page_state (shared_pool t) p) \<and>
        saved L (page_state (shared_pool t)) (pool_disk (shared_pool s'))))"
proof -
  have lc: "lifecycle flush (flusher_start pool) s" by (rule lifecycle_reach [OF assms(1)])
  have bgfg: "fg (background_flush flush st s) = fg s" for st
    by (cases rule: flush_stage [of flush st s]) simp_all
  have s': "s' = s\<lparr>handle := False, fg := Running\<rparr>" "bg s = Finished \<or> bg s = Panicked"
    using assms(2)
    by (cases rule: sys_step.cases; use assms(3-5) bgfg in \<open>simp add: recv_timeout_def split: if_splits\<close>)+
  have sp: "shared_pool s' = shared_pool s" by (simp add: s'(1))
  show ?thesis
  proof (cases "bg s = Panicked")
    case False
    then have fin: "bg s = Finished" using s'(2) by simp
    then have "last_flush flush (flusher_start pool) s" using lc assms(4) by (simp add: lifecycle_def)
    then obtain t r where t: "sys_reach flush (flusher_start pool) t" "bg t = Final_Flush" "pool_lock t = None"
      "\<not> shutdown_tx t" "fg t = Joining" "sys_reach flush (background_flush flush Finished t) s"
      "flush_all_pages flush (shared_pool t) = (r, shared_pool s)" "returns r"
      unfolding last_flush_def by blast
    have "r = Ok () \<and> pool_inv L (shared_pool t) \<and> alone (shared_pool t) \<longrightarrow>
        (\<forall>p \<in> L. page_state (shared_pool s) p = page_state (shared_pool t) p) \<and>
        saved L (page_state (shared_pool t)) (pool_disk (shared_pool s))"
      using flush_all_states t(7) by blast
    with t fin show ?thesis unfolding sp by (intro disjI2 conjI exI [of _ t] exI [of _ r]) (simp_all add: s'(1))
  qed (simp add: s'(1))
qed

theorem shutdown_after_final_flush_witness:
  "\<exists>(s' :: wal_manager system) t r. bg s' = Finished \<and> sys_reach flush_upto (flusher_start released_pool) t \<and>
     bg t = Final_Flush \<and> flush_all_pages flush_upto (shared_pool t) = (r, shared_pool s') \<and> returns r"
proof -
  obtain s s' where s: "sys_reach flush_upto (flusher_start released_pool) s" "sys_step flush_upto s s'"
    "fg s = Joining" "handle s" "fg s' = Running" "bg s' = Finished" by (rule sample_shutdown)
  have "bg s' \<noteq> Panicked" using s(6) by simp
  with shutdown_after_final_flush [OF s(1-5), of "{}"] s(6) show ?thesis by blast
qed

text \<open>
  C27:
  Shutting down can always be completed, from every state that the two threads can reach in which
  the engine waits and does not hold the lock of the pool: if no frame is held or latched and
  the log comes back from its calls, some steps of the thread let the engine go on.
\<close>

theorem shutdown_can_return:
  assumes "sys_reach flush (flusher_start pool) s" "fg s = Joining" "pool_lock s = None"
    and "idle L (shared_pool s)" "calm flush"
  shows "\<exists>s'. sys_reach flush s s' \<and> fg s' = Running"
proof -
  have lc: "lifecycle flush (flusher_start pool) s" by (rule lifecycle_reach [OF assms(1)])
  have tx: "\<not> shutdown_tx s" using lc assms(2) by (simp add: lifecycle_def)
  show ?thesis
  proof (cases "handle s")
    case False
    have "sys_step flush s (s\<lparr>fg := Running\<rparr>)" by (rule sys_step.no_handle [OF assms(2) False])
    then have "sys_reach flush s (s\<lparr>fg := Running\<rparr>)" by (rule sys_reach_step [OF _ sys_reach_refl])
    then show ?thesis by (intro exI conjI) (assumption, simp)
  next
    case h: True
    show ?thesis
    proof (cases "bg s")
      case Receiving
      then show ?thesis using receiving_returns [OF _ tx assms(3,2) h assms(4,5)] by blast
    next
      case Flushing
      obtain p where b: "background_flush flush Receiving s = s\<lparr>shared_pool := p, bg := Receiving\<rparr>" "idle L p"
        by (rule flush_idle [OF assms(4,5)])
      let ?t = "s\<lparr>shared_pool := p, bg := Receiving\<rparr>"
      have step: "sys_step flush s ?t" using sys_step.periodic [OF Flushing assms(3), of flush] b(1) by simp
      have "\<exists>s'. sys_reach flush ?t s' \<and> fg s' = Running"
        by (rule receiving_returns [of _ L]) (use tx assms(2,3,5) h b(2) in simp_all)
      then show ?thesis using sys_reach_step [OF step] by blast
    next
      case Final_Flush
      obtain p where b: "background_flush flush Finished s = s\<lparr>shared_pool := p, bg := Finished\<rparr>"
        by (rule flush_idle [OF assms(4,5)])
      let ?t = "s\<lparr>shared_pool := p, bg := Finished\<rparr>"
      have 1: "sys_step flush s ?t" using sys_step.final [OF Final_Flush assms(3), of flush] b by simp
      have 2: "sys_step flush ?t (?t\<lparr>handle := False, fg := Running\<rparr>)"
        by (rule sys_step.join) (use assms(2) h in simp_all)
      have "sys_reach flush s (?t\<lparr>handle := False, fg := Running\<rparr>)"
        by (rule sys_reach_step [OF 1 sys_reach_step [OF 2 sys_reach_refl]])
      then show ?thesis by (intro exI conjI) (assumption, simp)
    next
      case Stuck
      then show ?thesis using lc assms(3) by (simp add: lifecycle_def)
    qed (use sys_reach_step [OF sys_step.join [OF assms(2) h] sys_reach_refl] in \<open>intro exI conjI, blast, simp\<close>)+
  qed
qed

theorem shutdown_can_return_witness:
  "\<exists>s'. sys_reach flush_upto (request_shutdown (flusher_start released_pool)) s' \<and> fg s' = Running"
proof -
  let ?s = "request_shutdown (flusher_start released_pool)"
  have "sys_step flush_upto (flusher_start released_pool) ?s"
    by (rule sys_step.shutdown) (simp add: flusher_start_def)
  then have r: "sys_reach flush_upto (flusher_start released_pool) ?s" by (rule sys_reach_step [OF _ sys_reach_refl])
  have "fg ?s = Joining" "pool_lock ?s = None" "idle {4096} (shared_pool ?s)"
    using released_idle by (simp_all add: request_shutdown_def flusher_start_def)
  from shutdown_can_return [OF r this flush_upto_calm] show ?thesis .
qed

text \<open>
  C28:
  Shutting down while holding the lock of the pool is a deadlock. If the engine calls \<open>shutdown\<close>
  under its own lock before the thread has ended, then it waits forever: no sequence of steps
  of the two threads brings it back.
\<close>

theorem shutdown_under_lock_deadlocks:
  assumes "pool_lock s = Some Foreground" "fg s = Running" "handle s" "bg s \<noteq> Finished" "bg s \<noteq> Panicked"
    and "sys_reach flush (request_shutdown s) s'"
  shows "fg s' = Joining"
proof -
  have "pool_lock s' = Some Foreground \<and> fg s' = Joining \<and> handle s' \<and> bg s' \<noteq> Finished \<and> bg s' \<noteq> Panicked"
    using assms(6) unfolding sys_reach_def
  proof (induction rule: rtranclp_induct)
    case base
    then show ?case using assms(1-5) by (simp add: request_shutdown_def)
  next
    case (step t u)
    show ?case
      by (rule sys_stepE [OF step(2)]) (use step.IH in \<open>auto simp: recv_timeout_def\<close>)
  qed
  then show ?thesis by blast
qed

theorem shutdown_under_lock_deadlocks_witness:
  "\<exists>s. sys_reach flush_upto (flusher_start released_pool) s \<and>
     (\<forall>s'. sys_reach flush_upto (request_shutdown s) s' \<longrightarrow> fg s' = Joining)"
proof -
  let ?i = "flusher_start released_pool" and ?s = "(flusher_start released_pool)\<lparr>pool_lock := Some Foreground\<rparr>"
  have "sys_step flush_upto ?i ?s" by (rule sys_step.lock) (simp_all add: flusher_start_def)
  then have r: "sys_reach flush_upto ?i ?s" by (rule sys_reach_step [OF _ sys_reach_refl])
  have f: "pool_lock ?s = Some Foreground" "fg ?s = Running" "handle ?s" "bg ?s \<noteq> Finished" "bg ?s \<noteq> Panicked"
    by (simp_all add: flusher_start_def)
  from r shutdown_under_lock_deadlocks [OF f] show ?thesis by blast
qed

end
