(* ===== verification/Test_Support.thy ===== *)
theory Test_Support
  imports Smol_Prelude
begin

text \<open>
  What the unit tests of the repository (\<open>mod tests\<close> of each file) use of the language: an
  assertion, \<open>unwrap\<close> or \<open>expect\<close> on a result, the same for a method on \<open>&mut self\<close>, and the
  loops of the tests. A test is a closed program; its theorem states that it returns, or
  that it panics where it is marked \<open>should_panic\<close>.
\<close>

definition assert_that :: "bool \<Rightarrow> unit result" where
  "assert_that b = (if b then Ok () else Panic AssertionFailed)"

primrec unwrap :: "'a result \<Rightarrow> 'a result" where
  "unwrap (Ok x) = Ok x"
| "unwrap (Err e) = Panic UnwrapOnErr"
| "unwrap (Panic p) = Panic p"
| "unwrap Hang = Hang"

fun unwrap_do :: "'a result \<times> 's \<Rightarrow> 'a result \<times> 's" where
  "unwrap_do (r, s) = (unwrap r, s)"

definition check :: "bool \<Rightarrow> 's \<Rightarrow> unit result \<times> 's" where
  "check b s = (assert_that b, s)"

lemma assert_that_simps [run_simps]: "assert_that True = Ok ()" "check True s = (Ok (), s)"
  by (simp_all add: assert_that_def check_def)

declare unwrap.simps [run_simps] unwrap_do.simps [run_simps]

end
