(* ===== verification/Lru_Tests.thy ===== *)
theory Lru_Tests
  imports Test_Support Lru_Replacer
begin

text \<open>
  The unit tests of \<open>src/storage/lru.rs\<close>, run on the model of the replacer.
\<close>

text \<open>\<open>assert_eq!(lru.evict(), x)\<close>.\<close>

definition assert_evicts :: "page_id option \<Rightarrow> lru_replacer \<Rightarrow> lru_replacer result" where
  "assert_evicts x lru = and_then (evict lru) (\<lambda>(y, lru). and_then (assert_that (y = x)) (\<lambda>_. Ok lru))"

definition test_empty_replacer_evicts_none :: "unit result" where
  "test_empty_replacer_evicts_none = (let lru = lru_new 5 in
     and_then (assert_evicts None lru) (\<lambda>lru. Ok ()))"

definition test_lru_eviction_ordering :: "unit result" where
  "test_lru_eviction_ordering = (let lru = lru_new 3 in
     and_then (record_access 10 lru) (\<lambda>lru.
     and_then (record_access 20 lru) (\<lambda>lru.
     and_then (record_access 30 lru) (\<lambda>lru.
     and_then (assert_evicts (Some 10) lru) (\<lambda>lru.
     and_then (assert_evicts (Some 20) lru) (\<lambda>lru.
     and_then (assert_evicts (Some 30) lru) (\<lambda>lru.
     and_then (assert_evicts None lru) (\<lambda>lru. Ok ()))))))))"

definition test_record_access_promotes_to_mru :: "unit result" where
  "test_record_access_promotes_to_mru = (let lru = lru_new 3 in
     and_then (record_access 1 lru) (\<lambda>lru.
     and_then (record_access 2 lru) (\<lambda>lru.
     and_then (record_access 3 lru) (\<lambda>lru.
     and_then (record_access 1 lru) (\<lambda>lru.
     and_then (assert_evicts (Some 2) lru) (\<lambda>lru.
     and_then (assert_evicts (Some 3) lru) (\<lambda>lru.
     and_then (assert_evicts (Some 1) lru) (\<lambda>lru.
     and_then (assert_evicts None lru) (\<lambda>lru. Ok ())))))))))"

definition test_explicit_remove :: "unit result" where
  "test_explicit_remove = (let lru = lru_new 4 in
     and_then (record_access 10 lru) (\<lambda>lru.
     and_then (record_access 20 lru) (\<lambda>lru.
     and_then (record_access 30 lru) (\<lambda>lru.
     and_then (record_access 40 lru) (\<lambda>lru.
     and_then (lru_remove 20 lru) (\<lambda>lru.
     and_then (lru_remove 10 lru) (\<lambda>lru.
     and_then (assert_evicts (Some 30) lru) (\<lambda>lru.
     and_then (assert_evicts (Some 40) lru) (\<lambda>lru.
     and_then (assert_evicts None lru) (\<lambda>lru. Ok ()))))))))))"

definition test_remove_nonexistent_page_is_noop :: "unit result" where
  "test_remove_nonexistent_page_is_noop = (let lru = lru_new 2 in
     and_then (record_access 1 lru) (\<lambda>lru.
     and_then (lru_remove 999 lru) (\<lambda>lru.
     and_then (assert_evicts (Some 1) lru) (\<lambda>lru.
     and_then (assert_evicts None lru) (\<lambda>lru. Ok ())))))"

definition test_arena_slot_reuse_via_free_list :: "unit result" where
  "test_arena_slot_reuse_via_free_list = (let lru = lru_new 3 in
     and_then (record_access 1 lru) (\<lambda>lru.
     and_then (record_access 2 lru) (\<lambda>lru.
     and_then (assert_that (length (arena lru) = 2)) (\<lambda>_.
     and_then (evict lru) (\<lambda>(_, lru).
     and_then (assert_that (length (free_list lru) = 1)) (\<lambda>_.
     and_then (record_access 3 lru) (\<lambda>lru.
     and_then (assert_that (length (arena lru) = 2)) (\<lambda>_.
     and_then (assert_that (free_list lru = [])) (\<lambda>_. Ok ())))))))))"

definition test_single_capacity_boundaries :: "unit result" where
  "test_single_capacity_boundaries = (let lru = lru_new 1 in
     and_then (record_access 100 lru) (\<lambda>lru.
     and_then (assert_that (head_idx lru = Some 0)) (\<lambda>_.
     and_then (assert_that (tail_idx lru = Some 0)) (\<lambda>_.
     and_then (record_access 100 lru) (\<lambda>lru.
     and_then (assert_evicts (Some 100) lru) (\<lambda>lru.
     and_then (assert_that (head_idx lru = None)) (\<lambda>_.
     and_then (assert_that (tail_idx lru = None)) (\<lambda>_. Ok ()))))))))"

text \<open>Marked \<open>should_panic\<close>, with the message of \<open>record_access\<close>.\<close>

definition test_exceeding_capacity_panics :: "unit result" where
  "test_exceeding_capacity_panics = (let lru = lru_new 2 in
     and_then (record_access 1 lru) (\<lambda>lru.
     and_then (record_access 2 lru) (\<lambda>lru.
     and_then (record_access 3 lru) (\<lambda>lru. Ok ()))))"

section \<open>The tests pass\<close>

lemmas lru_ops = lru_new_def set_prev_def set_next_def insert_head_def unlink_def new_slot_def
  record_access_def lru_remove_def drop_node_def evict_def assert_evicts_def index_def
  update_index_def Let_def

lemma lru_order_tests_pass:
  "test_empty_replacer_evicts_none = Ok ()" "test_lru_eviction_ordering = Ok ()"
  "test_record_access_promotes_to_mru = Ok ()"
  by (simp_all add: test_empty_replacer_evicts_none_def test_lru_eviction_ordering_def
      test_record_access_promotes_to_mru_def lru_ops run_simps)

lemma lru_remove_tests_pass:
  "test_explicit_remove = Ok ()" "test_remove_nonexistent_page_is_noop = Ok ()"
  by (simp_all add: test_explicit_remove_def test_remove_nonexistent_page_is_noop_def lru_ops run_simps)

lemma lru_capacity_tests_pass:
  "test_arena_slot_reuse_via_free_list = Ok ()" "test_single_capacity_boundaries = Ok ()"
  "test_exceeding_capacity_panics = Panic CapacityExceeded"
  by (simp_all add: test_arena_slot_reuse_via_free_list_def test_single_capacity_boundaries_def
      test_exceeding_capacity_panics_def lru_ops run_simps)

end
