(* ===== verification/Tree_Tests.thy ===== *)
theory Tree_Tests
  imports Lru_Tests Bp_Tree
begin

text \<open>
  The unit tests of \<open>src/storage/bptree.rs\<close>, run on the model of the tree over a pool of 20
  pages without a log. The database file of a test is its argument.
\<close>

text \<open>The type of a flusher that is not there.\<close>

definition no_flush :: "unit flush_fn" where
  "no_flush lsn w = (Ok (), w)"

definition setup_pool :: "os_file \<Rightarrow> unit buffer_pool result" where
  "setup_pool path =
     and_then (unwrap (fst (disk_open path))) (\<lambda>disk_manager. Ok (pool_new disk_manager 20 None))"

text \<open>The frame that \<open>new_page\<close> hands out with the page id is dropped at once.\<close>

definition setup_tree :: "os_file \<Rightarrow> unit bp_tree result" where
  "setup_tree path =
     and_then (setup_pool path) (\<lambda>pool.
       case unwrap_do (new_page no_flush True pool) of (r, pool) \<Rightarrow>
         and_then r (\<lambda>(root_id, frame). Ok (bp_tree_new (drop_frame frame pool) root_id)))"

text \<open>A search that goes around forever does not return.\<close>

definition find_to_end :: "u64 \<Rightarrow> unit bp_tree \<Rightarrow> u8 list option result \<times> unit bp_tree" where
  "find_to_end rowid btree =
     (case find_record no_flush rowid btree of None \<Rightarrow> (Hang, btree) | Some x \<Rightarrow> x)"

definition test_insert_leaf_duplicate_rejection :: "os_file \<Rightarrow> unit result" where
  "test_insert_leaf_duplicate_rejection path =
     and_then (setup_tree path) (\<lambda>btree. let root_id = root_page_id btree in fst (
     then_do (unwrap_do (insert_leaf no_flush root_id 100 [1, 2, 3] 10 btree)) (\<lambda>result btree.
     then_do (check (result = None) btree) (\<lambda>_ btree.
     then_do (unwrap_do (insert_leaf no_flush root_id 101 [4, 5, 6] 11 btree)) (\<lambda>result btree.
     then_do (check (result = None) btree) (\<lambda>_ btree.
     then_do (unwrap_do (find_to_end 100 btree)) (\<lambda>found btree.
     then_do (check (found = Some [1, 2, 3]) btree) (\<lambda>_ btree.
     then_do (unwrap_do (find_to_end 101 btree)) (\<lambda>found btree.
     then_do (check (found = Some [4, 5, 6]) btree) (\<lambda>_ btree.
     case insert_leaf no_flush root_id 100 [10, 11, 13] 12 btree of (dup_result, btree) \<Rightarrow>
       check (dup_result = Err (DuplicateKey 100)) btree))))))))))"

text \<open>The loop of the test: insert ascending keys until a leaf splits.\<close>

primrec insert_until_split :: "page_id \<Rightarrow> u8 list \<Rightarrow> u64 list \<Rightarrow> unit bp_tree \<Rightarrow>
    split_result option result \<times> unit bp_tree" where
  "insert_until_split root_id large_payload [] btree = (Ok None, btree)"
| "insert_until_split root_id large_payload (k # ks) btree =
     then_do (unwrap_do (insert_leaf no_flush root_id k large_payload k btree)) (\<lambda>result btree.
       case result of
         Some split_res \<Rightarrow> (Ok (Some split_res), btree)
       | None \<Rightarrow> insert_until_split root_id large_payload ks btree)"

definition test_insert_leaf_split_and_sibling_chain :: "os_file \<Rightarrow> unit result" where
  "test_insert_leaf_split_and_sibling_chain path =
     and_then (setup_tree path) (\<lambda>btree. let root_id = root_page_id btree in
     case insert_until_split root_id (replicate 400 0) (map word_of_nat [1..<16]) btree of (r, btree) \<Rightarrow>
     and_then r (\<lambda>split_res.
     case split_res of None \<Rightarrow> Panic UnwrapOnErr | Some split_res \<Rightarrow> fst (
     then_do (check (promoted_row_id split_res \<ge> 5) (buffer_pool btree)) (\<lambda>_ pool.
     then_do (check (new_page_id split_res \<noteq> root_id) pool) (\<lambda>_ pool.
     then_do (unwrap_do (fetch_page no_flush root_id pool)) (\<lambda>left_frame pool.
     then_do (unwrap_do (fetch_page no_flush (new_page_id split_res) pool)) (\<lambda>right_frame pool.
     then_do (latch_read left_frame pool) (\<lambda>_ pool.
     then_do (latch_read right_frame pool) (\<lambda>_ pool.
       case (node_at left_frame pool, node_at right_frame pool) of
         (Leaf left, Leaf right) \<Rightarrow>
           then_do (check (has_next left) pool) (\<lambda>_ pool.
           then_do (check (next_page_id left = new_page_id split_res) pool) (\<lambda>_ pool.
           then_do (check (has_prev right) pool) (\<lambda>_ pool.
           then_do (check (prev_page_id right = root_id) pool) (\<lambda>_ pool.
           then_do (index (slot_array right) 0, pool) (\<lambda>slot pool.
           then_do (index (records right) (unat slot), pool) (\<lambda>rec pool.
           then_do (check (row_id rec = promoted_row_id split_res) pool) (\<lambda>_ pool.
             check (free_size left > 1500) pool)))))))
       | _ \<Rightarrow> (Panic AssertionFailed, pool))))))))))"

section \<open>The tests pass\<close>

lemma setup_pool_new:
  assumes "io_plan path = []" "content path = []"
  shows "setup_pool path = Ok (pool_new \<lparr>db_file = path, header = file_header_default\<rparr> 20 None)"
  using disk_open_empty [OF assms] by (simp add: setup_pool_def)

text \<open>The tree of one leaf that the tests start from, and keep until it splits.\<close>

definition leaf_pool :: "os_file \<Rightarrow> leaf_node \<Rightarrow> unit buffer_pool" where
  "leaf_pool path l =
     \<lparr>pool_disk = \<lparr>db_file = path, header = file_header_default\<lparr>next_free_offset := 8192\<rparr>\<rparr>,
      pool_replacer = \<lparr>pages = [(4096, 0)],
        arena = [\<lparr>node_prev = None, node_page = 4096, node_next = None\<rparr>],
        head_idx = Some 0, tail_idx = Some 0, lru_capacity = 20, free_list = []\<rparr>,
      page_table = [(4096, 0)], pool_capacity = 20, pool_flusher = None,
      heap = [\<lparr>frame_node = Leaf l, strong = 1, write_latched = False\<rparr>]\<rparr>"

definition leaf_tree :: "os_file \<Rightarrow> leaf_node \<Rightarrow> unit bp_tree" where
  "leaf_tree path l = bp_tree_new (leaf_pool path l) 4096"

lemma leaf_tree_root [simp]: "root_page_id (leaf_tree path l) = 4096"
  "buffer_pool (leaf_tree path l) = leaf_pool path l"
  by (simp_all add: leaf_tree_def bp_tree_new_def)

lemma setup_tree_new:
  assumes "io_plan path = []" "content path = []"
  shows "setup_tree path = Ok (leaf_tree path (leaf_default\<lparr>page_id := 4096\<rparr>))"
  unfolding setup_tree_def setup_pool_new [OF assms]
  by (simp add: pool_new_def new_page_def make_room_def on_disk_def allocate_page_def
      file_header_default_def touch_def install_def clone_frame_def drop_frame_def new_empty_def
      leaf_tree_def leaf_pool_def size_consts lru_ops)

lemmas frame_ops = clone_frame_def drop_frame_def latch_write_def latch_read_def set_latch_def node_at_def
  set_node_def leaving_def release_def

lemma leaf_pool_fetch:
  "fetch_page no_flush 4096 (leaf_pool path l) = (Ok 0, clone_frame 0 (leaf_pool path l))"
  by (simp add: fetch_page_def leaf_pool_def touch_def lru_ops)

text \<open>A step of the tree of one leaf is the operation of the leaf.\<close>

lemma leaf_tree_insert:
  "insert_record k w l = (Ok (), m) \<Longrightarrow> insert_leaf no_flush 4096 k w lsn (leaf_tree path l) =
     (Ok None, leaf_tree path (m\<lparr>last_lsn := lsn, is_dirty := True\<rparr>))"
  "insert_record k w l = (Err e, m) \<Longrightarrow> e \<noteq> PageFull \<Longrightarrow>
     insert_leaf no_flush 4096 k w lsn (leaf_tree path l) = (Err e, leaf_tree path m)"
  by (simp_all add: insert_leaf_def on_pool_def insert_leaf_pool_def leaf_pool_fetch)
    (simp_all add: leaf_tree_def bp_tree_new_def leaf_pool_def frame_ops)

lemma leaf_tree_find:
  assumes "get_record k l = Ok x"
  shows "find_to_end k (leaf_tree path l) = (Ok x, leaf_tree path l)"
proof -
  have "find_turn no_flush k 4096 (leaf_pool path l) = (Ok (Return x), leaf_pool path l)"
    using assms by (simp add: find_turn_def leaf_pool_fetch)
      (simp add: leaf_pool_def frame_ops)
  then show ?thesis
    by (simp add: find_to_end_def find_record_def find_loop.simps leaf_tree_def bp_tree_new_def)
qed

lemmas search_run = binary_search_by_key_def binary_search_by_def bs_loop.simps slot_key_def slot_size_def get_record_def
  insert_record_def compare_def index_def Let_def leaf_default_def size_consts

text \<open>The leaf of the first \<open>n\<close> insertions of ascending keys.\<close>

definition grown_leaf :: "u64 \<Rightarrow> bool \<Rightarrow> db_record list \<Rightarrow> leaf_node" where
  "grown_leaf lsn dirty rs = leaf_default\<lparr>page_id := 4096, last_lsn := lsn,
     slot_array := map word_of_nat [0..<length rs], records := rs, is_dirty := dirty\<rparr>"

lemma grown_leaf_mark [simp]:
  "(grown_leaf a b rs)\<lparr>last_lsn := lsn, is_dirty := True\<rparr> = grown_leaf lsn True rs"
  by (simp add: grown_leaf_def)

lemma duplicate_test_passes:
  assumes "io_plan path = []" "content path = []"
  shows "test_insert_leaf_duplicate_rejection path = Ok ()"
proof -
  let ?r = "\<lparr>row_id = 100, data = [1, 2, 3], is_deleted = False\<rparr>"
  let ?rs = "[?r, \<lparr>row_id = 101, data = [4, 5, 6], is_deleted = False\<rparr>]"
  have start: "leaf_default\<lparr>page_id := 4096\<rparr> = grown_leaf 0 False []"
    by (simp add: grown_leaf_def leaf_default_def)
  have ins: "insert_record 100 [1, 2, 3] (grown_leaf 0 False []) = (Ok (), grown_leaf 0 False [?r])"
    "insert_record 101 [4, 5, 6] (grown_leaf 10 True [?r]) = (Ok (), grown_leaf 10 True ?rs)"
    "insert_record 100 [10, 11, 13] (grown_leaf 11 True ?rs) = (Err (DuplicateKey 100), grown_leaf 11 True ?rs)"
    by (simp_all add: search_run grown_leaf_def)
  have get: "get_record 100 (grown_leaf 11 True ?rs) = Ok (Some [1, 2, 3])"
    "get_record 101 (grown_leaf 11 True ?rs) = Ok (Some [4, 5, 6])"
    by (simp_all add: search_run grown_leaf_def)
  show ?thesis
    by (simp add: test_insert_leaf_duplicate_rejection_def setup_tree_new [OF assms] run_simps start
      leaf_tree_insert(1) [OF ins(1)] leaf_tree_insert(1) [OF ins(2)] leaf_tree_insert(2) [OF ins(3)]
      leaf_tree_find [OF get(1)] leaf_tree_find [OF get(2)] Let_def)
qed

text \<open>Nine payloads of 400 bytes fit; the tenth splits the leaf behind the fourth.\<close>

definition big_records :: "u8 list \<Rightarrow> nat \<Rightarrow> db_record list" where
  "big_records v n = map (\<lambda>i. \<lparr>row_id = word_of_nat (Suc i), data = v, is_deleted = False\<rparr>) [0..<n]"

lemma grow_leaf:
  assumes "length v = 400"
  shows "\<forall>n \<in> set [0..<9]. insert_record (word_of_nat (Suc n)) v (grown_leaf a b (big_records v n)) =
    (Ok (), grown_leaf a b (big_records v (Suc n)))"
  using assms by (simp add: search_run grown_leaf_def big_records_def upt_rec)

lemma tenth_full:
  assumes "length v = 400"
  shows "insert_record 10 v (grown_leaf a b (big_records v 9)) = (Err PageFull, grown_leaf a b (big_records v 9))"
  using assms by (simp add: search_run grown_leaf_def big_records_def upt_rec)

lemma split_full:
  assumes "length v = 400"
  shows "split_and_insert 10 v (grown_leaf a b (big_records v 9), leaf_default\<lparr>page_id := 8192\<rparr>) =
    (Ok 5, ((grown_leaf a b (big_records v 4))\<lparr>free_size := 2395\<rparr>,
       (grown_leaf 0 False (drop 4 (big_records v 10)))\<lparr>page_id := 8192, free_size := 1565\<rparr>))"
  using assms
  by (simp add: split_and_insert_def split_def on_fst_def on_snd_def compact_def search_run grown_leaf_def
      big_records_def upt_rec)

lemma grown_until_split:
  assumes "length v = 400"
  shows "n \<le> 9 \<Longrightarrow> insert_until_split 4096 v (map word_of_nat [1..<16]) (leaf_tree path (grown_leaf 0 False [])) =
    insert_until_split 4096 v (map word_of_nat [Suc n..<16])
      (leaf_tree path (grown_leaf (word_of_nat n) (0 < n) (big_records v n)))"
proof (induction n)
  case 0
  then show ?case by (simp add: big_records_def)
next
  case (Suc n)
  then have "n \<in> set [0..<9]" by simp
  note step = leaf_tree_insert(1) [OF bspec [OF grow_leaf [OF assms] this]]
  have "[Suc n..<16] = Suc n # [Suc (Suc n)..<16]" using Suc.prems by (simp add: upt_conv_Cons)
  then show ?case using Suc by (simp add: step del: of_nat_Suc)
qed

text \<open>The state after the split: two pages, linked to each other.\<close>

lemma split_full_tree:
  assumes "length v = 400"
  defines "left \<equiv> (grown_leaf 10 True (big_records v 4))\<lparr>free_size := 2395, has_next := True, next_page_id := 8192\<rparr>"
    and "right \<equiv> (grown_leaf 10 True (drop 4 (big_records v 10)))\<lparr>page_id := 8192, free_size := 1565,
      has_prev := True, prev_page_id := 4096\<rparr>"
  shows "\<exists>t. insert_leaf no_flush 4096 10 v 10 (leaf_tree path (grown_leaf 9 True (big_records v 9))) =
      (Ok (Some \<lparr>promoted_row_id = 5, new_page_id = 8192\<rparr>), t) \<and>
      (\<exists>pool. fetch_page no_flush 4096 (buffer_pool t) = (Ok 0, pool) \<and>
        (\<exists>pool'. fetch_page no_flush 8192 pool = (Ok 1, pool') \<and> node_at 0 pool' = Leaf left \<and>
          node_at 1 pool' = Leaf right \<and> \<not> write_latched (heap pool' ! 0) \<and> \<not> write_latched (heap pool' ! 1)))"
proof -
  have links: "\<not> has_next (grown_leaf a b rs)" "next_page_id (grown_leaf a b rs) = 0" for a b rs
    by (simp_all add: grown_leaf_def leaf_default_def)
  have marked: "(grown_leaf 9 True (big_records v 4))\<lparr>free_size := 2395, has_next := True,
      next_page_id := 8192, last_lsn := 10, is_dirty := True\<rparr> = left"
    "(grown_leaf 0 False (drop 4 (big_records v 10)))\<lparr>page_id := 8192, free_size := 1565,
      has_prev := True, prev_page_id := 4096, has_next := False, next_page_id := 0, last_lsn := 10,
      is_dirty := True\<rparr> = right"
    by (simp_all add: left_def right_def grown_leaf_def leaf_default_def)
  show ?thesis
    unfolding insert_leaf_def on_pool_def insert_leaf_pool_def leaf_tree_root leaf_pool_fetch
    by (simp add: leaf_tree_def bp_tree_new_def leaf_pool_def frame_ops tenth_full [OF assms(1)] split_leaf_def)
      (simp add: new_page_def make_room_def on_disk_def allocate_page_def new_empty_def install_def
        file_header_default_def touch_def lru_ops size_consts frame_ops split_full [OF assms(1)] links
        wire_siblings_def marked fetch_page_def)
qed

lemma split_test_passes:
  assumes "io_plan path = []" "content path = []"
  shows "test_insert_leaf_split_and_sibling_chain path = Ok ()"
proof -
  let ?v = "replicate 400 0 :: u8 list"
  have start: "leaf_default\<lparr>page_id := 4096\<rparr> = grown_leaf 0 False []"
    by (simp add: grown_leaf_def leaf_default_def)
  have v: "length ?v = 400" by (simp only: length_replicate)
  obtain t pool pool' where t: "insert_leaf no_flush 4096 10 ?v 10 (leaf_tree path (grown_leaf 9 True (big_records ?v 9))) =
      (Ok (Some \<lparr>promoted_row_id = 5, new_page_id = 8192\<rparr>), t)"
    and p: "fetch_page no_flush 4096 (buffer_pool t) = (Ok 0, pool)" "fetch_page no_flush 8192 pool = (Ok 1, pool')"
    and n: "node_at 0 pool' = Leaf ((grown_leaf 10 True (big_records ?v 4))\<lparr>free_size := 2395, has_next := True, next_page_id := 8192\<rparr>)"
      "node_at 1 pool' = Leaf ((grown_leaf 10 True (drop 4 (big_records ?v 10)))\<lparr>page_id := 8192, free_size := 1565,
        has_prev := True, prev_page_id := 4096\<rparr>)"
    and w: "\<not> write_latched (heap pool' ! 0)" "\<not> write_latched (heap pool' ! 1)"
    using split_full_tree [OF v, of path] by blast
  have "[Suc 9..<16] = 10 # [11..<16]" by (simp add: upt_rec)
  then have g: "insert_until_split 4096 ?v (map word_of_nat [1..<16]) (leaf_tree path (grown_leaf 0 False [])) =
      (Ok (Some \<lparr>promoted_row_id = 5, new_page_id = 8192\<rparr>), t)"
    using grown_until_split [OF v, of 9 path] t by (simp del: upt_rec_numeral)
  have r: "slot_array (grown_leaf a b (drop 4 (big_records ?v 10))) = [0, 1, 2, 3, 4, 5]"
    "row_id (records (grown_leaf a b (drop 4 (big_records ?v 10))) ! 0) = 5"
    "length (records (grown_leaf a b (drop 4 (big_records ?v 10)))) = 6" for a b
    by (simp_all add: grown_leaf_def big_records_def upt_rec)
  show ?thesis
    by (simp add: test_insert_leaf_split_and_sibling_chain_def setup_tree_new [OF assms] start
        g [unfolded One_nat_def] Let_def run_simps p n [simplified] w [simplified] latch_read_def r del: upt_rec_numeral)
qed

end
