(* ===== verification/Page_Tests.thy ===== *)
theory Page_Tests
  imports Test_Support Disk_Props Codec_Props
begin

text \<open>
  The unit tests of \<open>src/storage/page.rs\<close>, run on the models of the byte cursor, the page codec
  and the disk manager. The temporary file of a test is its argument: the tests pass on every
  new file whose calls succeed.
\<close>

text \<open>A byte string literal.\<close>

definition byte_string :: "string \<Rightarrow> u8 list" where
  "byte_string s = map of_char s"

definition make_record :: "u64 \<Rightarrow> u8 list \<Rightarrow> bool \<Rightarrow> db_record" where
  "make_record k bs deleted = \<lparr>row_id = k, data = bs, is_deleted = deleted\<rparr>"

section \<open>The cursor\<close>

definition test_byte_cursor_primitives :: "unit result" where
  "test_byte_cursor_primitives = (let buffer = replicate 64 0; write_cursor = cursor_new buffer in
     and_then (write_u8 42 write_cursor) (\<lambda>write_cursor.
     and_then (write_u16 (- 1) write_cursor) (\<lambda>write_cursor.
     and_then (write_u32 123456789 write_cursor) (\<lambda>write_cursor.
     and_then (write_u64 (- 1) write_cursor) (\<lambda>write_cursor.
     and_then (write_bytes (byte_string ''smol-db'') write_cursor) (\<lambda>write_cursor.
     let read_cursor = cursor_new (byte_cursor.buffer write_cursor) in
     and_then (read_u8 read_cursor) (\<lambda>(v, read_cursor).
     and_then (assert_that (v = 42)) (\<lambda>_.
     and_then (read_u16 read_cursor) (\<lambda>(v, read_cursor).
     and_then (assert_that (v = - 1)) (\<lambda>_.
     and_then (read_u32 read_cursor) (\<lambda>(v, read_cursor).
     and_then (assert_that (v = 123456789)) (\<lambda>_.
     and_then (read_u64 read_cursor) (\<lambda>(v, read_cursor).
     and_then (assert_that (v = - 1)) (\<lambda>_.
     and_then (read_bytes 7 read_cursor) (\<lambda>(v, read_cursor).
       assert_that (v = byte_string ''smol-db''))))))))))))))))"

section \<open>Leaf pages\<close>

definition empty_test_leaf :: leaf_node where
  "empty_test_leaf = \<lparr>page_id = 1, last_lsn = 100, has_prev = False, has_next = False,
     prev_page_id = 0, next_page_id = 0, slot_array = [], records = [], free_size = 0,
     is_dirty = False\<rparr>"

definition test_empty_leaf_node_round_trip :: "unit result" where
  "test_empty_leaf_node_round_trip = (let leaf = empty_test_leaf; page = page_new in
     and_then (encode (Leaf leaf) page) (\<lambda>page.
     and_then (decode page) (\<lambda>decoded.
       case decoded of
         Leaf dec_leaf \<Rightarrow>
           and_then (assert_that (page_id dec_leaf = page_id leaf)) (\<lambda>_.
           and_then (assert_that (last_lsn dec_leaf = last_lsn leaf)) (\<lambda>_.
           and_then (assert_that (\<not> has_prev dec_leaf)) (\<lambda>_.
           and_then (assert_that (\<not> has_next dec_leaf)) (\<lambda>_.
           and_then (assert_that (slot_array dec_leaf = [])) (\<lambda>_.
           and_then (assert_that (records dec_leaf = [])) (\<lambda>_.
             assert_that (unat (free_size dec_leaf) = PAGE_SIZE - LEAF_NODE_HEADER_SIZE)))))))
       | Internal _ \<Rightarrow> Panic AssertionFailed)))"

definition populated_test_leaf :: leaf_node where
  "populated_test_leaf = \<lparr>page_id = 42, last_lsn = 999, has_prev = True, has_next = True,
     prev_page_id = 41, next_page_id = 43, slot_array = [0, 1, 2],
     records = [make_record 10 (byte_string ''alice'') False,
                make_record 20 (byte_string ''bob-was-deleted'') True,
                make_record 30 (byte_string ''charlie'') False],
     free_size = 0, is_dirty = False\<rparr>"

definition test_populated_leaf_node_round_trip :: "unit result" where
  "test_populated_leaf_node_round_trip = (let page = page_new in
     and_then (encode (Leaf populated_test_leaf) page) (\<lambda>page.
     and_then (decode page) (\<lambda>decoded.
       case decoded of
         Leaf dec_leaf \<Rightarrow>
           and_then (assert_that (page_id dec_leaf = 42)) (\<lambda>_.
           and_then (assert_that (prev_page_id dec_leaf = 41)) (\<lambda>_.
           and_then (assert_that (next_page_id dec_leaf = 43)) (\<lambda>_.
           and_then (assert_that (slot_array dec_leaf = [0, 1, 2])) (\<lambda>_.
           and_then (assert_that (length (records dec_leaf) = 3)) (\<lambda>_.
           and_then (index (records dec_leaf) 0) (\<lambda>r0.
           and_then (assert_that (row_id r0 = 10)) (\<lambda>_.
           and_then (assert_that (data r0 = byte_string ''alice'')) (\<lambda>_.
           and_then (assert_that (\<not> is_deleted r0)) (\<lambda>_.
           and_then (index (records dec_leaf) 1) (\<lambda>r1.
           and_then (assert_that (row_id r1 = 20)) (\<lambda>_.
           and_then (assert_that (data r1 = byte_string ''bob-was-deleted'')) (\<lambda>_.
             assert_that (is_deleted r1)))))))))))))
       | Internal _ \<Rightarrow> Panic AssertionFailed)))"

definition overflowing_test_leaf :: leaf_node where
  "overflowing_test_leaf = \<lparr>page_id = 1, last_lsn = 0, has_prev = False, has_next = False,
     prev_page_id = 0, next_page_id = 0, slot_array = map word_of_nat [0..<11],
     records = map (\<lambda>i. make_record (word_of_nat i) (replicate MAX_VALUE_SIZE 0) False) [0..<11],
     free_size = 0, is_dirty = False\<rparr>"

definition test_leaf_node_overflow_returns_page_full :: "unit result" where
  "test_leaf_node_overflow_returns_page_full = (let page = page_new in
     assert_that (encode (Leaf overflowing_test_leaf) page = Err PageFull))"

section \<open>Internal pages\<close>

definition internal_test_node :: internal_node where
  "internal_test_node = \<lparr>inner_page_id = 1, inner_last_lsn = 555, rightmost_child_id = 5,
     inner_slot_array = [0, 1, 2],
     entries = [\<lparr>key = 100, child_page_id = 2\<rparr>, \<lparr>key = 200, child_page_id = 3\<rparr>,
                \<lparr>key = 300, child_page_id = 4\<rparr>],
     inner_free_size = 0, inner_is_dirty = False\<rparr>"

definition test_internal_node_round_trip :: "unit result" where
  "test_internal_node_round_trip = (let page = page_new in
     and_then (encode (Internal internal_test_node) page) (\<lambda>page.
     and_then (decode page) (\<lambda>decoded.
       case decoded of
         Internal dec_internal \<Rightarrow>
           and_then (assert_that (inner_page_id dec_internal = 1)) (\<lambda>_.
           and_then (assert_that (inner_last_lsn dec_internal = 555)) (\<lambda>_.
           and_then (assert_that (rightmost_child_id dec_internal = 5)) (\<lambda>_.
           and_then (assert_that (length (inner_slot_array dec_internal) = 3)) (\<lambda>_.
           and_then (index (entries dec_internal) 1) (\<lambda>e1.
           and_then (assert_that (key e1 = 200)) (\<lambda>_.
             assert_that (child_page_id e1 = 3)))))))
       | Leaf _ \<Rightarrow> Panic AssertionFailed)))"

definition test_decode_corrupt_node_type_fails :: "unit result" where
  "test_decode_corrupt_node_type_fails = (let page = page_new in
     and_then (update_index page 0 99) (\<lambda>page.
       assert_that (case decode page of Err (CorruptPage _) \<Rightarrow> True | _ \<Rightarrow> False)))"

section \<open>The disk manager\<close>

definition test_disk_manager_page_lifecycle :: "os_file \<Rightarrow> unit result" where
  "test_disk_manager_page_lifecycle path =
     and_then (fst (disk_open path)) (\<lambda>dm. fst (
     then_do (allocate_page dm) (\<lambda>page_id_1 dm.
     then_do (allocate_page dm) (\<lambda>page_id_2 dm.
     then_do (check (page_id_1 \<noteq> page_id_2) dm) (\<lambda>_ dm.
     let page_1 = page_new;
         leaf = \<lparr>page_id = page_id_1, last_lsn = 10, has_prev = False, has_next = False,
           prev_page_id = 0, next_page_id = 0, slot_array = [0],
           records = [make_record 1 (byte_string ''disk-test'') False], free_size = 0,
           is_dirty = False\<rparr> in
     then_do (encode (Leaf leaf) page_1, dm) (\<lambda>page_1 dm.
     then_do (write_page page_id_1 page_1 dm) (\<lambda>_ dm.
     then_do (read_page page_id_1 dm) (\<lambda>read_page dm.
     then_do (decode read_page, dm) (\<lambda>decoded dm.
       case decoded of
         Leaf dec_leaf \<Rightarrow>
           then_do (index (records dec_leaf) 0, dm) (\<lambda>r0 dm.
             check (data r0 = byte_string ''disk-test'') dm)
       | Internal _ \<Rightarrow> (Panic AssertionFailed, dm))))))))))"

text \<open>The first manager is dropped at the end of its block; the file stays.\<close>

definition test_disk_manager_header_persistence :: "os_file \<Rightarrow> unit result" where
  "test_disk_manager_header_persistence path =
     and_then (fst (disk_open path)) (\<lambda>dm.
     let dm = dm\<lparr>header := (header dm)\<lparr>last_row_id := 42, page_root_offset := 8192,
           next_lsn := 1000, next_free_offset := 16384\<rparr>\<rparr>;
         (saved, dm) = save_header dm in
     and_then saved (\<lambda>_.
     and_then (fst (disk_open (db_file dm))) (\<lambda>dm_reopened.
     and_then (assert_that (last_row_id (header dm_reopened) = 42)) (\<lambda>_.
     and_then (assert_that (page_root_offset (header dm_reopened) = 8192)) (\<lambda>_.
     and_then (assert_that (next_lsn (header dm_reopened) = 1000)) (\<lambda>_.
       assert_that (next_free_offset (header dm_reopened) = 16384)))))))"

section \<open>The tests pass\<close>

lemma cursor_test_passes: "test_byte_cursor_primitives = Ok ()"
proof -
  have len: "length (byte_string ''smol-db'') = 7" by (simp add: byte_string_def)
  show ?thesis
    by (simp add: test_byte_cursor_primitives_def Let_def write_eqs write_bytes_Ok run_simps rest_def len)
qed

lemma codec_run:
  assumes "node_wf n" "node_fits n"
  shows "\<exists>img. encode n page_new = Ok img \<and> length img = PAGE_SIZE \<and> decode img = Ok (disk_form n)"
  by (rule codec_roundtrip [OF assms]) (simp add: page_new_def)

lemmas leaf_checks = leaf_wf_def slots_wf_def slot_records_def leaf_fits_def leaf_bytes_def rec_bytes_def
  make_record_def byte_string_def size_consts

lemma empty_leaf_test_passes: "test_empty_leaf_node_round_trip = Ok ()"
proof -
  have wf: "node_wf (Leaf empty_test_leaf)" "node_fits (Leaf empty_test_leaf)"
    by (simp_all add: empty_test_leaf_def leaf_checks)
  have free: "unat (free_for (leaf_bytes empty_test_leaf)) = PAGE_SIZE - LEAF_NODE_HEADER_SIZE"
    by (simp only: unat_free_for) (simp add: empty_test_leaf_def leaf_checks)
  show ?thesis using codec_run [OF wf] free
    by (auto simp: test_empty_leaf_node_round_trip_def run_simps Let_def) (simp_all add: empty_test_leaf_def run_simps)
qed

lemma populated_leaf_test_passes: "test_populated_leaf_node_round_trip = Ok ()"
proof -
  have wf: "node_wf (Leaf populated_test_leaf)" "node_fits (Leaf populated_test_leaf)"
    by (simp_all add: populated_test_leaf_def leaf_checks numeral_3_eq_3)
  show ?thesis using codec_run [OF wf]
    by (auto simp: test_populated_leaf_node_round_trip_def Let_def)
      (simp add: populated_test_leaf_def make_record_def run_simps)
qed

lemma overflow_test_passes: "test_leaf_node_overflow_returns_page_full = Ok ()"
proof -
  have "unat (word_of_nat i :: u16) = i" if "i < 11" for i :: nat
    using that by (intro unat_word_of_nat_u16) simp
  then have slots: "map unat (slot_array overflowing_test_leaf) = [0..<11]"
    by (intro nth_equalityI) (simp_all add: overflowing_test_leaf_def)
  have wf: "slots_wf overflowing_test_leaf"
    unfolding slots_wf_def slots by (simp add: overflowing_test_leaf_def)
  have "map rec_bytes (map ((!) (records overflowing_test_leaf)) [0..<11]) = map (\<lambda>i. 415) [0..<11]"
    by (intro nth_equalityI)
      (simp_all add: overflowing_test_leaf_def make_record_def rec_bytes_def size_consts)
  then have "map rec_bytes (slot_records overflowing_test_leaf) = map (\<lambda>i. 415) [0..<11]"
    unfolding slots [symmetric] by (simp add: slot_records_def comp_def)
  then have "leaf_bytes overflowing_test_leaf = 41 + sum_list (map (\<lambda>i. 415) [0::nat..<11])"
    by (simp add: leaf_bytes_def size_consts)
  then have "\<not> leaf_fits overflowing_test_leaf"
    by (simp add: leaf_fits_def size_consts sum_list_triv)
  then show ?thesis
    using encode_leaf_full [OF wf] by (simp add: test_leaf_node_overflow_returns_page_full_def run_simps)
qed

lemma internal_test_passes: "test_internal_node_round_trip = Ok ()"
proof -
  have wf: "node_wf (Internal internal_test_node)" "node_fits (Internal internal_test_node)"
    by (simp_all add: internal_test_node_def inner_wf_def inner_fits_def inner_bytes_def slot_entries_def
        size_consts numeral_3_eq_3)
  show ?thesis using codec_run [OF wf]
    by (auto simp: test_internal_node_round_trip_def Let_def) (simp add: internal_test_node_def run_simps)
qed

lemma corrupt_type_test_passes: "test_decode_corrupt_node_type_fails = Ok ()"
proof -
  have p: "page_new = 0 # replicate 4095 0" by (simp add: page_new_def size_consts replicate_Suc [symmetric])
  show ?thesis by (simp add: test_decode_corrupt_node_type_fails_def p decode_def run_simps Let_def)
qed

lemma page_lifecycle_test_passes:
  assumes "io_plan path = []" "content path = []"
  shows "test_disk_manager_page_lifecycle path = Ok ()"
proof -
  define leaf where "leaf = \<lparr>page_id = 4096, last_lsn = 10, has_prev = False, has_next = False,
    prev_page_id = 0, next_page_id = 0, slot_array = [0],
    records = [make_record 1 (byte_string ''disk-test'') False], free_size = 0, is_dirty = False\<rparr>"
  have wf: "node_wf (Leaf leaf)" "node_fits (Leaf leaf)" by (simp_all add: leaf_def leaf_checks)
  obtain img where img: "encode (Leaf leaf) page_new = Ok img" "length img = PAGE_SIZE"
    "decode img = Ok (disk_form (Leaf leaf))"
    using codec_run [OF wf] by blast
  have o: "disk_open path = (Ok \<lparr>db_file = path, header = file_header_default\<rparr>, path)"
    by (rule disk_open_empty [OF assms])
  define dm where "dm = \<lparr>db_file = path, header = file_header_default\<lparr>next_free_offset := 12288\<rparr>\<rparr>"
  have w: "write_page 4096 img dm = (Ok (), dm\<lparr>db_file := path\<lparr>content := pwrite (content path) 4096 img\<rparr>\<rparr>)"
    using assms img(2) by (simp add: write_page_def write_all_at_def offset_ok_def dm_def size_consts)
  have p: "page_at (pwrite [] 4096 img) 4096 = Some img"
    using page_at_pwrite_same [OF img(2), of "[]" 4096] by simp
  have r: "read_page 4096 (dm\<lparr>db_file := path\<lparr>content := pwrite (content path) 4096 img\<rparr>\<rparr>) =
      (Ok img, dm\<lparr>db_file := path\<lparr>content := pwrite (content path) 4096 img\<rparr>\<rparr>)"
    using assms by (subst read_page_reliable) (simp_all add: disk_page_def p size_consts)
  have a: "allocate_page \<lparr>db_file = path, header = file_header_default\<rparr> =
      (Ok 4096, \<lparr>db_file = path, header = file_header_default\<lparr>next_free_offset := 8192\<rparr>\<rparr>)"
    "allocate_page \<lparr>db_file = path, header = file_header_default\<lparr>next_free_offset := 8192\<rparr>\<rparr> = (Ok 8192, dm)"
    by (simp_all add: allocate_page_def file_header_default_def dm_def size_consts)
  show ?thesis
    unfolding test_disk_manager_page_lifecycle_def Let_def o
    using img(1) by (simp add: a run_simps img(3) leaf_def [symmetric] w r) (simp add: leaf_def make_record_def run_simps)
qed

lemma header_persistence_test_passes:
  assumes "io_plan path = []" "content path = []"
  shows "test_disk_manager_header_persistence path = Ok ()"
proof -
  have o: "disk_open path = (Ok \<lparr>db_file = path, header = file_header_default\<rparr>, path)"
    by (rule disk_open_empty [OF assms])
  define h where "h = file_header_default\<lparr>last_row_id := 42, page_root_offset := 8192,
           next_lsn := 1000, next_free_offset := 16384\<rparr>"
  obtain dm' where s: "save_header \<lparr>db_file = path, header = h\<rparr> = (Ok (), dm')"
    and plan: "io_plan (db_file dm') = []"
    using assms by (simp add: save_header_def write_all_at_def offset_ok_def sync_all_def)
  have "content (db_file dm') = durable (db_file dm')" using save_header_Ok [OF s] by simp
  from reopen_saved [OF s this plan] obtain e where "disk_open (db_file dm') = (Ok e, db_file dm')" "header e = h"
    by auto
  then show ?thesis
    unfolding test_disk_manager_header_persistence_def Let_def o
    by (simp add: run_simps h_def [symmetric] s) (simp add: h_def run_simps)
qed

end
