(* ===== verification/Wal_Tests.thy ===== *)
theory Wal_Tests
  imports Test_Support Wal_Props
begin

text \<open>
  The unit tests of \<open>src/storage/wal.rs\<close>, run on the model of the log. The log file of a test
  is its argument: the tests pass on every new file whose calls succeed. A manager that goes out
  of scope leaves its file behind, which the next one opens.
\<close>

definition test_wal_entry_symmetry_and_layout :: "unit result" where
  "test_wal_entry_symmetry_and_layout =
     (let original_entry = \<lparr>opcode = Update, wal_lsn = 1048576, wal_page_id = 8192,
            wal_row_id = 42, payload = [10, 20, 30, 40]\<rparr>;
          encoded = wal_encode original_entry in
     and_then (assert_that (length encoded = 33)) (\<lambda>_.
     and_then (index encoded 0) (\<lambda>b.
     and_then (assert_that (b = wal_op_as_u8 Update)) (\<lambda>_.
     and_then (unwrap (wal_decode encoded)) (\<lambda>decoded.
       assert_that (original_entry = decoded))))))"

primrec is_err :: "'a result \<Rightarrow> bool" where
  "is_err (Ok x) = False"
| "is_err (Err e) = True"
| "is_err (Panic p) = False"
| "is_err Hang = False"

definition test_wal_entry_decode_truncated_buffer :: "unit result" where
  "test_wal_entry_decode_truncated_buffer =
     (let short_buf = replicate 10 0; result = wal_decode short_buf in assert_that (is_err result))"

definition roundtrip_batch :: "wal_entry list" where
  "roundtrip_batch =
     [\<lparr>opcode = Insert, wal_lsn = 10, wal_page_id = 1, wal_row_id = 0, payload = [1, 2, 3]\<rparr>,
      \<lparr>opcode = Update, wal_lsn = 11, wal_page_id = 1, wal_row_id = 0, payload = [6, 9, 6, 9]\<rparr>,
      \<lparr>opcode = Delete, wal_lsn = 12, wal_page_id = 2, wal_row_id = 5, payload = []\<rparr>]"

definition test_wal_manager_batch_write_and_read_roundtrip :: "os_file \<Rightarrow> unit result" where
  "test_wal_manager_batch_write_and_read_roundtrip path =
     (let batch_out = roundtrip_batch in
     and_then (unwrap (fst (wal_open path True))) (\<lambda>wal.
     let (written, wal) =
       then_do (unwrap_do (write_batch batch_out wal)) (\<lambda>_ wal.
       then_do (unwrap_do (explicit_sync wal)) (\<lambda>_ wal.
       then_do (check (entry_count wal = 3) wal) (\<lambda>_ wal.
         check (flushed_lsn wal = 12) wal))) in
     and_then written (\<lambda>_.
     and_then (unwrap (fst (wal_open (wal_file wal) True))) (\<lambda>wal.
     and_then (unwrap (fst (read_batch wal))) (\<lambda>batch_in.
     and_then (assert_that (length batch_in = 3)) (\<lambda>_.
       assert_that (batch_out = batch_in)))))))"

definition one_entry :: "u64 \<Rightarrow> page_id \<Rightarrow> u8 list \<Rightarrow> wal_entry" where
  "one_entry lsn pid bs =
     \<lparr>opcode = Insert, wal_lsn = lsn, wal_page_id = pid, wal_row_id = 1, payload = bs\<rparr>"

text \<open>A second handle on the file appends a length prefix of 50 and 49 bytes.\<close>

definition test_wal_manager_torn_write_detection :: "os_file \<Rightarrow> unit result" where
  "test_wal_manager_torn_write_detection path =
     and_then (unwrap (fst (wal_open path False))) (\<lambda>wal.
     let batch = [one_entry 1 10 [100, 200]];
       (written, wal) =
         then_do (unwrap_do (write_batch batch wal)) (\<lambda>_ wal. unwrap_do (explicit_sync wal)) in
     and_then written (\<lambda>_.
     let (garbled, file) =
       then_do (unwrap_do (append_all (u32_to_le 50) (wal_file wal))) (\<lambda>_ file.
       then_do (unwrap_do (append_all (replicate 49 0) file)) (\<lambda>_ file.
         unwrap_do (sync_all file))) in
     and_then garbled (\<lambda>_.
     and_then (unwrap (fst (wal_open file False))) (\<lambda>wal.
     let result = fst (read_batch wal) in
     and_then (assert_that (is_err result)) (\<lambda>_.
       case result of
         Err (CorruptPage msg) \<Rightarrow> assert_that (case msg of TornWrite _ \<Rightarrow> True | _ \<Rightarrow> False)
       | _ \<Rightarrow> Panic AssertionFailed)))))"

definition test_wal_manager_truncation_reclaims_disk_space :: "os_file \<Rightarrow> unit result" where
  "test_wal_manager_truncation_reclaims_disk_space path =
     and_then (unwrap (fst (wal_open path False))) (\<lambda>wal.
     let batch = [one_entry 50 1 (replicate 1000 0)] in fst (
     then_do (unwrap_do (write_batch batch wal)) (\<lambda>_ wal.
     let initial_size = length (content (wal_file wal)) in
     then_do (check (initial_size > 1000) wal) (\<lambda>_ wal.
     then_do (unwrap_do (wal_truncate wal)) (\<lambda>_ wal.
     let truncated_size = length (content (wal_file wal)) in
     then_do (check (truncated_size = 0) wal) (\<lambda>_ wal.
     then_do (check (entry_count wal = 0) wal) (\<lambda>_ wal.
       check (flushed_lsn wal = 0) wal)))))))"

definition test_wal_flusher_enforces_lsn :: "os_file \<Rightarrow> unit result" where
  "test_wal_flusher_enforces_lsn path =
     and_then (unwrap (fst (wal_open path False))) (\<lambda>wal.
     let batch = [one_entry 100 5 [1, 2, 4]] in fst (
     then_do (unwrap_do (write_batch batch wal)) (\<lambda>_ wal.
     then_do (check (flushed_lsn wal = 100) wal) (\<lambda>_ wal.
     let (r, wal) = flush_upto 100 wal in check (r = Ok ()) wal))))"

section \<open>The tests pass\<close>

lemma entry_tests_pass:
  "test_wal_entry_symmetry_and_layout = Ok ()" "test_wal_entry_decode_truncated_buffer = Ok ()"
proof -
  have d: "wal_decode (wal_encode e) = Ok e" if "length (payload e) < 2 ^ 32" for e
    using wal_decode_encode [OF that, of "[]"] by simp
  show "test_wal_entry_symmetry_and_layout = Ok ()"
    by (simp add: test_wal_entry_symmetry_and_layout_def Let_def d run_simps wal_size_def size_consts)
      (simp add: wal_encode_def run_simps)
  show "test_wal_entry_decode_truncated_buffer = Ok ()"
    by (simp add: test_wal_entry_decode_truncated_buffer_def wal_decode_def run_simps size_consts)
qed

lemma wal_open_new: "io_plan f = [] \<Longrightarrow> wal_open f s =
    (Ok \<lparr>wal_file = f, wal_sync = s, entry_count = 0, flushed_lsn = 0\<rparr>, f)"
  by (simp add: wal_open_def)

lemma roundtrip_test_passes:
  assumes "io_plan path = []" "content path = []"
  shows "test_wal_manager_batch_write_and_read_roundtrip path = Ok ()"
proof -
  define w where "w = \<lparr>wal_file = path, wal_sync = True, entry_count = 0, flushed_lsn = 0\<rparr>"
  have w: "io_plan (wal_file w) = []" "content (wal_file w) = []" "entry_count w = 0"
    using assms by (simp_all add: w_def)
  have "roundtrip_batch \<noteq> []" by (simp add: roundtrip_batch_def)
  from write_batch_reliable [OF w(1) this] obtain w' where
    w': "write_batch roundtrip_batch w = (Ok (), w')" "io_plan (wal_file w') = []"
    "content (wal_file w') = batch_buffer roundtrip_batch" "flushed_lsn w' = max_lsn roundtrip_batch"
    "entry_count w' = length roundtrip_batch"
    unfolding w by auto
  have sync: "explicit_sync w' = (Ok (), w'\<lparr>wal_file := (wal_file w')\<lparr>durable := content (wal_file w')\<rparr>\<rparr>)"
    using w'(2) by (simp add: explicit_sync_def on_wal_file_def sync_all_def)
  have mx: "max_lsn roundtrip_batch = 12" "length roundtrip_batch = 3"
    by (simp_all add: max_lsn_def roundtrip_batch_def)
  have ok: "\<forall>e \<in> set roundtrip_batch. entry_ok e"
    by (simp add: roundtrip_batch_def entry_ok_def wal_size_def size_consts)
  define r where "r = \<lparr>wal_file = (wal_file w')\<lparr>durable := content (wal_file w')\<rparr>, wal_sync = True,
    entry_count = 0, flushed_lsn = 0\<rparr>"
  have "log_holds r roundtrip_batch" "io_plan (wal_file r) = []"
    using w' ok by (simp_all add: log_holds_def r_def)
  then have "read_batch r = (Ok roundtrip_batch, r\<lparr>flushed_lsn := 12, entry_count := 3\<rparr>)"
    using read_batch_holds(3) [of r roundtrip_batch] mx by simp
  then show ?thesis
    using w'(2,4,5) mx assms(1)
    by (simp add: test_wal_manager_batch_write_and_read_roundtrip_def Let_def wal_open_new
        w_def [symmetric] w'(1) sync run_simps r_def [symmetric])
qed

lemma torn_write_test_passes:
  assumes "io_plan path = []" "content path = []"
  shows "test_wal_manager_torn_write_detection path = Ok ()"
proof -
  define e where "e = one_entry 1 10 [100, 200]"
  have ok: "\<forall>x \<in> set [e]. entry_ok x"
    by (simp add: e_def one_entry_def entry_ok_def wal_size_def size_consts)
  define w where "w = \<lparr>wal_file = path, wal_sync = False, entry_count = 0, flushed_lsn = 0\<rparr>"
  have w: "io_plan (wal_file w) = []" "content (wal_file w) = []"
    using assms by (simp_all add: w_def)
  from write_batch_reliable [OF w(1), of "[e]"] obtain w' where
    w': "write_batch [e] w = (Ok (), w')" "io_plan (wal_file w') = []" "content (wal_file w') = batch_buffer [e]"
    unfolding w by (auto simp del: batch_buffer.simps)
  have sync: "explicit_sync w' = (Ok (), w'\<lparr>wal_file := (wal_file w')\<lparr>durable := content (wal_file w')\<rparr>\<rparr>)"
    using w'(2) by (simp add: explicit_sync_def on_wal_file_def sync_all_def)
  let ?torn = "u32_to_le 50 @ replicate 49 (0 :: u8)"
  define f where "f = (wal_file w')\<lparr>content := batch_buffer [e] @ ?torn,
    durable := batch_buffer [e] @ ?torn\<rparr>"
  have f: "io_plan f = []" "content f = batch_buffer [e] @ ?torn"
    using w'(2) by (simp_all add: f_def)
  have torn: "read_loop ?torn b m f = (Err (CorruptPage (TornWrite 50)), f)" for b m
  proof -
    have 1: "reader_read_exact 4 ?torn f = (Ok (u32_to_le 50, replicate 49 0), f)"
      using f(1) by (simp add: reader_read_exact_def)
    have 2: "reader_read_exact 50 (replicate 49 0) f = (Err (Io UnexpectedEof), f)"
      using f(1) by (simp add: reader_read_exact_def)
    show ?thesis by (subst read_loop.simps) (simp add: 1 2 Let_def)
  qed
  have "read_loop (content f) [] 0 f = (Err (CorruptPage (TornWrite 50)), f)"
    using read_loop_frames [OF ok, of ?torn "[]" 0 f] f torn by (auto simp del: batch_buffer.simps)
  then have "fst (read_batch \<lparr>wal_file = f, wal_sync = False, entry_count = 0, flushed_lsn = 0\<rparr>) =
      Err (CorruptPage (TornWrite 50))"
    using f(1) by (simp add: read_batch_def on_wal_file_def)
  moreover have "(wal_file w')\<lparr>durable := x, content := batch_buffer [e] @ ?torn, durable := batch_buffer [e] @ ?torn\<rparr> = f" for x
    by (simp add: f_def)
  ultimately show ?thesis
    using w'(2,3) assms(1) f(1)
    by (simp add: test_wal_manager_torn_write_detection_def Let_def wal_open_new e_def [symmetric]
        w_def [symmetric] w'(1) sync run_simps append_all_def sync_all_def del: batch_buffer.simps)
qed

lemma truncation_test_passes:
  assumes "io_plan path = []"
  shows "test_wal_manager_truncation_reclaims_disk_space path = Ok ()"
  using assms
  by (simp add: test_wal_manager_truncation_reclaims_disk_space_def wal_open_new write_batch_def
      on_wal_file_def append_all_def wal_truncate_def set_len_0_def run_simps Let_def one_entry_def
      wal_size_def size_consts)

lemma flusher_test_passes:
  assumes "io_plan path = []"
  shows "test_wal_flusher_enforces_lsn path = Ok ()"
  using assms
  by (simp add: test_wal_flusher_enforces_lsn_def wal_open_new write_batch_def on_wal_file_def
      append_all_def flush_upto_def max_lsn_def run_simps one_entry_def)

end
