(* ===== verification/Recovery_Tests.thy ===== *)
theory Recovery_Tests
  imports Tree_Tests Page_Tests Wal_Tests Recovery
begin

text \<open>
  The unit tests of \<open>src/storage/recovery.rs\<close>, run on the model of recovery over a pool of 10
  pages without a log. Both keep their one leaf at offset 0, where \<open>flush_all_pages\<close> writes the
  file header over it; they never read the page back from the file afterwards.
\<close>

definition setup_test_pool :: "os_file \<Rightarrow> (unit buffer_pool \<times> page_id) result" where
  "setup_test_pool path =
     and_then (unwrap (fst (disk_open path))) (\<lambda>disk_manager.
     let empty_page = Leaf leaf_default; buffer = page_new in
     and_then (unwrap (encode empty_page buffer)) (\<lambda>buffer.
     case unwrap_do (write_page 0 buffer disk_manager) of (r, disk_manager) \<Rightarrow>
     and_then r (\<lambda>_. Ok (pool_new disk_manager 10 None, 0))))"

definition test_aries_redo_idempotency_skips_flushed_pages :: "os_file \<Rightarrow> unit result" where
  "test_aries_redo_idempotency_skips_flushed_pages path =
     and_then (setup_test_pool path) (\<lambda>(pool, page_id). fst (
     then_do (unwrap_do (fetch_page no_flush page_id pool)) (\<lambda>frame pool.
     then_do (latch_write frame pool) (\<lambda>_ pool.
     then_do (case node_at frame pool of
         Leaf node \<Rightarrow> (case insert_record 1 [10, 20] node of (r, node) \<Rightarrow>
           (unwrap r, set_node frame (Leaf node) pool))
       | Internal _ \<Rightarrow> (Ok (), pool)) (\<lambda>_ pool.
     let pool = release frame (set_node frame (mark_dirty 100 (node_at frame pool)) pool) in
     then_do (unwrap_do (flush_all_pages no_flush pool)) (\<lambda>_ pool.
     let batch =
       [\<lparr>opcode = Insert, wal_lsn = 50, wal_page_id = page_id, wal_row_id = 1, payload = [99, 99]\<rparr>,
        \<lparr>opcode = Insert, wal_lsn = 100, wal_page_id = page_id, wal_row_id = 1, payload = [10, 20]\<rparr>,
        \<lparr>opcode = Update, wal_lsn = 150, wal_page_id = page_id, wal_row_id = 1, payload = [88, 88]\<rparr>] in
     then_do (unwrap_do (replay no_flush batch pool)) (\<lambda>max_lsn pool.
     then_do (check (max_lsn = 150) pool) (\<lambda>_ pool.
     then_do (unwrap_do (fetch_page no_flush page_id pool)) (\<lambda>frame pool.
     then_do (latch_write frame pool) (\<lambda>_ pool.
     then_do (check (get_last_lsn (node_at frame pool) = 150) pool) (\<lambda>_ pool.
       case node_at frame pool of
         Leaf node \<Rightarrow>
           then_do (check (length (records node) = 1) pool) (\<lambda>_ pool.
           then_do (index (records node) 0, pool) (\<lambda>rec pool.
             check (data rec = [88, 88]) pool))
       | Internal _ \<Rightarrow> (Panic AssertionFailed, pool))))))))))))"

definition test_init_storage_recovers_and_truncates_log :: "os_file \<Rightarrow> os_file \<Rightarrow> unit result" where
  "test_init_storage_recovers_and_truncates_log db_path path =
     and_then (setup_test_pool db_path) (\<lambda>(pool, page_id).
     and_then (unwrap (fst (wal_open path True))) (\<lambda>wal.
     let batch = [\<lparr>opcode = Insert, wal_lsn = 10, wal_page_id = page_id, wal_row_id = 42,
           payload = [1, 2, 3, 4]\<rparr>] in
     case unwrap_do (write_batch batch wal) of (r, wal) \<Rightarrow>
     and_then r (\<lambda>_.
     and_then (assert_that (length (content (wal_file wal)) > 0)) (\<lambda>_. fst (
     then_do (unwrap_do (recovery_init no_flush (wal_file wal, pool))) (\<lambda>recovered_lsn st.
     then_do (check (recovered_lsn = 10) st) (\<lambda>_ st.
     then_do (on_snd (\<lambda>pool. unwrap_do (fetch_page no_flush page_id pool)) st) (\<lambda>frame st.
     then_do (on_snd (latch_read frame) st) (\<lambda>_ st.
     then_do (check (get_last_lsn (node_at frame (snd st)) = 10) st) (\<lambda>_ st.
     let post_recovery_wal_size = length (content (fst st)) in
       check (post_recovery_wal_size = 0) st))))))))))"

section \<open>The tests pass\<close>

text \<open>A pool that holds one node, at offset 0.\<close>

definition zero_pool :: "disk_manager \<Rightarrow> btree_node \<Rightarrow> unit buffer_pool" where
  "zero_pool d n =
     \<lparr>pool_disk = d,
      pool_replacer = \<lparr>pages = [(0, 0)],
        arena = [\<lparr>node_prev = None, node_page = 0, node_next = None\<rparr>],
        head_idx = Some 0, tail_idx = Some 0, lru_capacity = 10, free_list = []\<rparr>,
      page_table = [(0, 0)], pool_capacity = 10, pool_flusher = None,
      heap = [\<lparr>frame_node = n, strong = 1, write_latched = False\<rparr>]\<rparr>"

lemma zero_fetch: "fetch_page no_flush 0 (zero_pool d n) = (Ok 0, clone_frame 0 (zero_pool d n))"
  by (simp add: fetch_page_def zero_pool_def touch_def lru_ops)

definition zero_held :: "disk_manager \<Rightarrow> btree_node \<Rightarrow> unit buffer_pool" where
  "zero_held d n = set_latch 0 True (clone_frame 0 (zero_pool d n))"

lemma zero_frame [simp]:
  "latch_write 0 (clone_frame 0 (zero_pool d n)) = (Ok (), zero_held d n)"
  "latch_read 0 (clone_frame 0 (zero_pool d n)) = (Ok (), clone_frame 0 (zero_pool d n))"
  "node_at 0 (clone_frame 0 (zero_pool d n)) = n" "node_at 0 (zero_held d n) = n"
  "set_node 0 m (zero_held d n) = zero_held d m" "release 0 (zero_held d n) = zero_pool d n"
  by (simp_all add: zero_held_def zero_pool_def frame_ops)

lemma zero_write:
  assumes "io_plan (db_file d) = []" "node_wf n" "node_fits n"
  obtains img d' where "encode n page_new = Ok img" "length img = PAGE_SIZE" "decode img = Ok (disk_form n)"
    "write_page 0 img d = (Ok (), d')" "io_plan (db_file d') = []" "disk_page d' 0 = Some img"
proof -
  obtain img where img: "encode n page_new = Ok img" "length img = PAGE_SIZE" "decode img = Ok (disk_form n)"
    using codec_run [OF assms(2,3)] by blast
  let ?d = "d\<lparr>db_file := (db_file d)\<lparr>content := pwrite (content (db_file d)) 0 img\<rparr>\<rparr>"
  have "write_page 0 img d = (Ok (), ?d)"
    using assms(1) img(2) by (simp add: write_page_def write_all_at_def offset_ok_def size_consts)
  moreover have "disk_page ?d 0 = Some img"
    using page_at_pwrite_same [OF img(2), of _ 0] by (simp add: disk_page_def)
  ultimately show thesis using that [OF img, of ?d] assms(1) by simp
qed

lemma zero_flush:
  assumes "io_plan (db_file d) = []" "node_wf n" "node_fits n" "node_is_dirty n"
  obtains d' where "flush_all_pages no_flush (zero_pool d n) = (Ok (), zero_pool d' (clear_dirty n))"
    "io_plan (db_file d') = []"
proof -
  obtain img d1 where w: "encode n page_new = Ok img" "write_page 0 img d = (Ok (), d1)" "io_plan (db_file d1) = []"
    by (rule zero_write [OF assms(1-3)])
  obtain d2 where s: "save_header d1 = (Ok (), d2)" "io_plan (db_file d2) = []"
    using w(3) by (simp add: save_header_def write_all_at_def offset_ok_def sync_all_def)
  have "flush_all_pages no_flush (zero_pool d n) = (Ok (), zero_pool d2 (clear_dirty n))"
    using assms(4) w(1,2) s(1)
    by (simp add: flush_all_pages_def flush_page_def zero_pool_def flush_wal_def on_disk_def node_at_def set_node_def)
  then show thesis using s(2) that by blast
qed

lemma zero_replay:
  assumes "wal_page_id e = 0"
  shows "wal_lsn e \<le> get_last_lsn n \<Longrightarrow> replay_entry no_flush e (zero_pool d n) = (Ok (), zero_pool d n)"
    and "\<not> wal_lsn e \<le> get_last_lsn n \<Longrightarrow> apply_entry n e = (Ok (), m) \<Longrightarrow>
      replay_entry no_flush e (zero_pool d n) = (Ok (), zero_pool d (mark_dirty (wal_lsn e) m))"
  unfolding replay_entry_def assms zero_fetch by simp_all

lemma setup_test_pool_new:
  assumes "io_plan path = []" "content path = []"
  obtains d where "setup_test_pool path = Ok (pool_new d 10 None, 0)" "io_plan (db_file d) = []"
    "fetch_page no_flush 0 (pool_new d 10 None) =
       (Ok 0, clone_frame 0 (zero_pool d (Leaf (leaf_default\<lparr>free_size := 4055\<rparr>))))"
proof -
  let ?d = "\<lparr>db_file = path, header = file_header_default\<rparr>"
  have wf: "node_wf (Leaf leaf_default)" "node_fits (Leaf leaf_default)"
    by (simp_all add: leaf_default_def leaf_checks)
  obtain img d where w: "encode (Leaf leaf_default) page_new = Ok img" "write_page 0 img ?d = (Ok (), d)"
    "io_plan (db_file d) = []" "disk_page d 0 = Some img" "decode img = Ok (disk_form (Leaf leaf_default))"
    by (rule zero_write [of ?d, OF _ wf]) (use assms(1) in auto)
  have form: "disk_form (Leaf leaf_default) = Leaf (leaf_default\<lparr>free_size := 4055\<rparr>)"
    by (simp add: leaf_default_def leaf_checks)
  have r: "read_page 0 d = (Ok img, d)"
    using w(3,4) by (subst read_page_reliable) (simp_all add: size_consts)
  have "setup_test_pool path = Ok (pool_new d 10 None, 0)"
    using disk_open_empty [OF assms] w(1,2) by (simp add: setup_test_pool_def Let_def del: encode.simps)
  moreover have "fetch_page no_flush 0 (pool_new d 10 None) =
      (Ok 0, clone_frame 0 (zero_pool d (Leaf (leaf_default\<lparr>free_size := 4055\<rparr>))))"
    using r w(5) form by (simp add: fetch_page_def pool_new_def make_room_def on_disk_def touch_def install_def
        zero_pool_def lru_ops)
  ultimately show thesis using w(3) that by blast
qed

text \<open>The leaf of one record.\<close>

definition single_leaf :: "u64 \<Rightarrow> bool \<Rightarrow> u64 \<Rightarrow> u8 list \<Rightarrow> u16 \<Rightarrow> leaf_node" where
  "single_leaf lsn dirty k v free = leaf_default\<lparr>last_lsn := lsn, slot_array := [0],
     records := [\<lparr>row_id = k, data = v, is_deleted = False\<rparr>], free_size := free, is_dirty := dirty\<rparr>"

lemma single_leaf_ok:
  assumes "length v \<le> MAX_VALUE_SIZE"
  shows "node_wf (Leaf (single_leaf lsn b k v f))" "node_fits (Leaf (single_leaf lsn b k v f))"
  using assms by (simp_all add: single_leaf_def leaf_default_def leaf_checks)

lemma redo_test_passes:
  assumes "io_plan path = []" "content path = []"
  shows "test_aries_redo_idempotency_skips_flushed_pages path = Ok ()"
proof -
  obtain d where s: "setup_test_pool path = Ok (pool_new d 10 None, 0)" "io_plan (db_file d) = []"
    "fetch_page no_flush 0 (pool_new d 10 None) =
       (Ok 0, clone_frame 0 (zero_pool d (Leaf (leaf_default\<lparr>free_size := 4055\<rparr>))))"
    by (rule setup_test_pool_new [OF assms])
  let ?n = "\<lambda>lsn b v. Leaf (single_leaf lsn b 1 v 4038)"
  have ins: "insert_record 1 [10, 20] (leaf_default\<lparr>free_size := 4055\<rparr>) = (Ok (), single_leaf 0 False 1 [10, 20] 4038)"
    by (simp add: search_run single_leaf_def)
  have mark: "mark_dirty lsn (?n a b v) = ?n lsn True v" for a b v lsn
    by (simp add: single_leaf_def)
  have clear: "clear_dirty (?n a b v) = ?n a False v" for a b v
    by (simp add: single_leaf_def)
  have ok: "length v \<le> MAX_VALUE_SIZE \<Longrightarrow> node_wf (?n a b v) \<and> node_fits (?n a b v)" for a b v
    using single_leaf_ok by blast
  obtain d1 where f1: "flush_all_pages no_flush (zero_pool d (?n 100 True [10, 20])) =
      (Ok (), zero_pool d1 (?n 100 False [10, 20]))" "io_plan (db_file d1) = []"
    using zero_flush [OF s(2), of "?n 100 True [10, 20]"] ok [of "[10, 20]" 100 True] clear
    by (auto simp: single_leaf_def size_consts)
  obtain d2 where f2: "flush_all_pages no_flush (zero_pool d1 (?n 150 True [88, 88])) =
      (Ok (), zero_pool d2 (?n 150 False [88, 88]))"
    using zero_flush [OF f1(2), of "?n 150 True [88, 88]"] ok [of "[88, 88]" 150 True] clear
    by (auto simp: single_leaf_def size_consts)
  have upd: "update_record 1 [88, 88] (single_leaf a b 1 [10, 20] f) = (Ok (), single_leaf a b 1 [88, 88] f)" for a b f
    by (simp add: update_record_def find_slot_def search_run single_leaf_def)
  have lsn: "get_last_lsn (?n a b v) = a" for a b v by (simp add: single_leaf_def)
  have recs: "records (single_leaf a b k v f) = [\<lparr>row_id = k, data = v, is_deleted = False\<rparr>]" for a b k v f
    by (simp add: single_leaf_def)
  note ops = s f1 f2 mark clear lsn ins upd recs
  show ?thesis
    by (simp add: test_aries_redo_idempotency_skips_flushed_pages_def ops zero_fetch run_simps Let_def
        replay_def zero_replay apply_entry_def del: mark_dirty.simps get_last_lsn.simps)
qed

lemma init_test_passes:
  assumes "io_plan db_path = []" "content db_path = []" "io_plan path = []" "content path = []"
  shows "test_init_storage_recovers_and_truncates_log db_path path = Ok ()"
proof -
  obtain d where s: "setup_test_pool db_path = Ok (pool_new d 10 None, 0)" "io_plan (db_file d) = []"
    "fetch_page no_flush 0 (pool_new d 10 None) =
       (Ok 0, clone_frame 0 (zero_pool d (Leaf (leaf_default\<lparr>free_size := 4055\<rparr>))))"
    by (rule setup_test_pool_new [OF assms(1,2)])
  define e where "e = \<lparr>opcode = Insert, wal_lsn = 10, wal_page_id = 0, wal_row_id = 42, payload = [1, 2, 3, 4]\<rparr>"
  have e: "entry_ok e" "max_lsn [e] = 10" "wal_lsn e = 10" "wal_page_id e = 0"
    by (simp_all add: e_def entry_ok_def wal_size_def max_lsn_def size_consts)
  let ?w = "\<lparr>wal_file = path, wal_sync = True, entry_count = 0, flushed_lsn = 0\<rparr>"
  obtain w where w: "write_batch [e] ?w = (Ok (), w)" "io_plan (wal_file w) = []" "content (wal_file w) = batch_buffer [e]"
    using write_batch_reliable [of ?w "[e]"] assms(3,4) by auto
  have len: "0 < length (batch_buffer [e])" by (simp add: batch_buffer_Cons del: batch_buffer.simps)
  let ?w' = "\<lparr>wal_file = wal_file w, wal_sync = False, entry_count = 0, flushed_lsn = 0\<rparr>"
  have "log_holds ?w' [e]" using w(3) e(1) by (simp add: log_holds_def)
  then have rd: "read_batch ?w' = (Ok [e], ?w'\<lparr>flushed_lsn := 10, entry_count := 1\<rparr>)"
    using read_batch_holds(3) [of ?w' "[e]"] w(2) e(2) by simp
  let ?l0 = "leaf_default\<lparr>free_size := 4055\<rparr>" and ?n = "\<lambda>b. Leaf (single_leaf 10 b 42 [1, 2, 3, 4] 4036)"
  have ap: "apply_entry (Leaf ?l0) e = (Ok (), Leaf (single_leaf 0 False 42 [1, 2, 3, 4] 4036))"
    by (simp add: apply_entry_def e_def search_run single_leaf_def)
  have mark: "mark_dirty 10 (Leaf (single_leaf 0 False 42 [1, 2, 3, 4] 4036)) = ?n True"
    by (simp add: single_leaf_def)
  have "replay_entry no_flush e (pool_new d 10 None) = replay_entry no_flush e (zero_pool d (Leaf ?l0))"
    unfolding replay_entry_def e(4) s(3) zero_fetch by (rule refl)
  also have "\<dots> = (Ok (), zero_pool d (?n True))"
    using zero_replay(2) [OF e(4) _ ap] mark e(3) by (simp add: leaf_default_def del: mark_dirty.simps)
  finally have re: "replay_entry no_flush e (pool_new d 10 None) = (Ok (), zero_pool d (?n True))" .
  obtain d1 where f: "flush_all_pages no_flush (zero_pool d (?n True)) = (Ok (), zero_pool d1 (?n False))"
    using zero_flush [OF s(2), of "?n True"] single_leaf_ok [of "[1, 2, 3, 4]" 10 True 42 4036]
    by (auto simp: single_leaf_def size_consts)
  have rp: "replay no_flush [e] (pool_new d 10 None) = (Ok 10, zero_pool d1 (?n False))"
    by (simp add: replay_def re f e(3))
  define g where "g = (wal_file w)\<lparr>content := [], durable := []\<rparr>"
  have init: "recovery_init no_flush (wal_file w, pool_new d 10 None) = (Ok 10, (g, zero_pool d1 (?n False)))"
    using w(2) by (simp add: recovery_init_def wal_open_new recover_def on_fst_def on_snd_def rd rp
        wal_truncate_def explicit_sync_def on_wal_file_def set_len_0_def sync_all_def g_def)
  have lsn: "get_last_lsn (?n b) = 10" for b by (simp add: single_leaf_def)
  have g: "content g = []" by (simp add: g_def)
  show ?thesis
    using len
    by (simp add: test_init_storage_recovers_and_truncates_log_def s(1) wal_open_new assms(3) e_def [symmetric]
        w(1,3) init zero_fetch on_snd_def run_simps Let_def lsn g del: batch_buffer.simps get_last_lsn.simps)
qed

end
