(* ===== verification/Spec2Isabelle.thy ===== *)
theory Spec2Isabelle
  imports Durability Flusher_Props Recovery_Tests
begin

text \<open>
  A verification of smol-db, a page-oriented storage engine written in Rust: slotted leaf pages and
  internal routing pages with a binary format, a disk manager, a write-ahead log, an LRU replacer,
  a buffer pool, a B+ tree access method over leaf pages, recovery from the log, and a background
  thread that flushes dirty pages. Sources are named relative to \<open>src/\<close> of the repository.

  \<^bold>\<open>The program and the theories.\<close> Each component has a theory with the translation of its code, one or
  more with its invariant and the lemmas about it, and one with its properties and their witnesses.

  \<^item> \<open>Smol_Prelude\<close>: machine integers, \<open>DbError\<close> (\<open>src/error.rs\<close>), and the result type of every
    operation: \<open>Ok\<close>, \<open>Err\<close>, \<open>Panic\<close> (an index or slice out of range, an assertion, an overflow,
    \<open>unreachable!\<close>) and \<open>Hang\<close> (a latch that the thread already holds). A method on \<open>&mut self\<close> takes
    the state and returns its result with the state it leaves behind, on errors too. \<open>Slice_Search\<close>:
    the two binary searches of the standard library that the pages call.
  \<^item> \<open>Leaf_Node\<close>, \<open>Leaf_Spec\<close>, \<open>Leaf_Contract\<close>, \<open>Leaf_Props\<close>: \<open>LeafNode\<close> of \<open>src/storage/page.rs\<close>. A well-formed
    leaf holds a finite map of its live records; the locale \<open>record_store\<close> is what recovery and the
    tree rely on. \<open>Btree_Node\<close>: \<open>InternalNode\<close>, \<open>route_key\<close> and the methods of \<open>BTreeNode\<close>.
  \<^item> \<open>Byte_Cursor\<close>, \<open>Page_Codec\<close>, \<open>Codec_Spec\<close>, \<open>Codec_Props\<close>: \<open>ByteCursor\<close>, \<open>Page\<close>, \<open>encode\<close> and \<open>decode\<close>, byte by
    byte; the locale \<open>page_codec\<close> is the round trip up to the form that a node has on disk.
  \<^item> \<open>Os_File\<close>, \<open>Disk_Manager\<close>, \<open>Disk_Props\<close>: files as bytes with what is durable of them, \<open>FileHeader\<close> and
    \<open>DiskManager\<close>; the locale \<open>page_store\<close>.
  \<^item> \<open>Wal_Log\<close>, \<open>Wal_Spec\<close>, \<open>Wal_Props\<close>: \<open>src/storage/wal.rs\<close>; the locales \<open>entry_log\<close> (what is appended is
    what is read) and \<open>wal_flusher\<close> (what the pool asks of a log).
  \<^item> \<open>Lru_Replacer\<close>, \<open>Lru_Spec\<close>, \<open>Lru_Props\<close>: \<open>src/storage/lru.rs\<close>, a doubly linked list in an arena; the
    locale \<open>replacer\<close>.
  \<^item> \<open>Buffer_Pool\<close>, \<open>Pool_Spec\<close>, \<open>Pool_Props\<close>, \<open>Pool_Client\<close>, \<open>Pool_Crash\<close>: \<open>src/storage/buffer_pool.rs\<close>. A frame,
    an \<open>Arc<RwLock<BTreeNode>>\<close>, is a cell of a heap with its strong count and its write latch; the
    \<open>WalFlusher\<close> object is a parameter of the operations. \<open>pool_view\<close> is the store of nodes that the pool
    presents, cached or not; the locale \<open>node_cache\<close> is its contract for clients.
  \<^item> \<open>Recovery\<close>, \<open>Recovery_Spec\<close>, \<open>Recovery_Props\<close>: \<open>src/storage/recovery.rs\<close>. Pages are seen as a log
    sequence number and a map; \<open>redo_all\<close> is what a log makes of them.
  \<^item> \<open>Bp_Tree\<close>, \<open>Bp_Tree_Spec\<close>, \<open>Bp_Tree_Insert\<close>, \<open>Bp_Tree_Find\<close>, \<open>Bp_Tree_Samples\<close>, \<open>Bp_Tree_Props\<close>, \<open>Tree_Map\<close>:
    \<open>src/storage/bptree.rs\<close>. Guards and frames are taken and let go as the scopes of the source do.
    \<open>Tree_Map\<close> reads the pages reached from a root as a finite map.
  \<^item> \<open>Flusher\<close>, \<open>Flusher_Props\<close>: \<open>src/storage/flusher.rs\<close>, as steps of two threads over the locked pool.
  \<^item> \<open>Restart\<close>: crashes and starts. What each call leaves of the durable bytes, what a log with debris
    at its end reads as, and recovery run again and again, each start cut off anywhere.
  \<^item> \<open>Engine\<close>, \<open>Durability\<close>: the composition. The repository has no client of its storage engine; \<open>Engine\<close>
    describes one that logs its changes before it makes them, as the log is meant to be used, and
    \<open>Durability\<close> proves what recovery rebuilds after a crash at any moment of such a client.
  \<^item> \<open>Test_Support\<close>, \<open>Lru_Tests\<close>, \<open>Page_Tests\<close>, \<open>Wal_Tests\<close>, \<open>Tree_Tests\<close>, \<open>Recovery_Tests\<close>: the unit tests of the
    repository as programs over the model, with lemmas that they pass. They check the translation
    against what its authors expect of the code.

  \<^bold>\<open>How the parts interact.\<close> The tree and recovery fetch frames from the pool, latch them, change the
  node and mark it dirty; the pool evicts by the replacer, asks the log to be durable up to the number
  of a dirty page before it writes the page through the codec and the disk manager; recovery reads
  the log, redoes it on the pool, flushes and truncates. Each arrow is one of the locales above, and each
  locale is interpreted on the definitions of the component that provides it.

  \<^bold>\<open>What is proved.\<close> For the leaf: every branch of every operation, a refinement of finite maps,
  and type soundness. For the codec and the log: exact round trips, and what torn or corrupt bytes
  do. For the replacer: the arena list refines a recency list. For the pool: no sequence of calls
  changes a page, whatever fails; the log before the data; a full flush is a checkpoint. For
  recovery: redo, its idempotence, that the log is only given away when it is not needed, and that
  starts which fail and are repeated lose nothing. For
  the tree: in-place insertion, splits with their sibling links, totality and correctness of
  searches, and the refinement of finite maps over runs. For the flusher: what a returned \<open>shutdown\<close>
  stands for and when it returns. For all of it together: durability of logged changes
  on a fixed set of pages whose numbers ascend; without ascending numbers the guard of \<open>replay\<close> skips
  entries, and splits and new pages are not logged by the code, so that nothing is promised of them. Properties
  that say that something is lost, blocked or panics are faults of the code, and are stated as such.

  \<^bold>\<open>Bounds, loops and fuel.\<close> Integers have their Rust width; \<open>usize\<close> is a natural number, with the
  truncating casts written out. Loops over lists are structural; the halving searches, the read
  loop of the log and the walks of the replacer have measures or are over a list that shrinks. The search
  loop of the tree need not end, and is a \<open>partial_function\<close>: undefined exactly when it goes on
  forever. \<open>evict_walk\<close>, the walk of \<open>evict_if\<close>
  from the tail of the list, is the one loop with fuel: the length of the arena, with \<open>Hang\<close> when it is
  used up. That is enough because the list of a replacer that its calls have built visits no slot
  twice. Device failures are a plan of outcomes in each file (\<open>io_plan\<close>),
  and the theorems hold for every plan; a failing write leaves any prefix of its bytes. A crash
  falls back to the durable bytes of a file, those of its last successful \<open>sync_all\<close>.

  \<^bold>\<open>Not modelled.\<close> \<open>src/main.rs\<close> prints a constant and \<open>src/storage/mod.rs\<close> declares modules. Time, and the
  scheduling of threads beyond what the lock of the pool allows: a wait may run into its timeout
  whenever the channel is empty. What the foreground does under that lock is calls of the pool. The order
  in which \<open>flush_all_pages\<close> visits the keys of its hash map is that of an association list. The
  guards that \<open>find_record\<close> and \<open>flush_page\<close> take wait for a write guard but are not set themselves: the
  thread lets go of each before it takes another, and other threads are kept out by the lock of
  the pool. Running out of memory, and so the allocations that \<open>decode\<close> and \<open>read_batch\<close> size
  by a count they have read (\<open>with_capacity\<close>). Builds without overflow checks, in which
  \<open>allocate_page\<close> wraps instead of panicking. The printing of errors. File systems that reorder
  writes around a \<open>sync_all\<close>, and a database file that keeps part of what was written after it.
\<close>

end
